(* ===== verification/Prelude.thy ===== *)
theory Prelude
  imports Main "HOL-Library.Word" "HOL-Library.AList" "HOL-Library.Multiset"
begin

text \<open>
  What every component shares: the names of Rust's machine integers, the saturating operations
  of the standard library, the standard library's \<open>HashMap\<close> behind an interface locale, and
  the instance that makes record sums available.

  Rust's plain \<open>+\<close>, \<open>*\<close> and \<open>sum()\<close> on unsigned integers are modelled by the word operations,
  which wrap: that is what the released binaries do (they are built with \<open>--release\<close> and the
  workspace sets no \<open>overflow-checks\<close>). Properties about amounts state the bound under which
  nothing wraps.
\<close>

section \<open>Machine integers\<close>

type_synonym u8 = "8 word"
type_synonym u16 = "16 word"
type_synonym u32 = "32 word"
type_synonym u64 = "64 word"

named_theorems sat_simps \<open>saturating arithmetic read through unat\<close>
named_theorems hm_simps \<open>lookups and keys of hash maps\<close>
named_theorems task_simps \<open>what the operations of a task leave unchanged\<close>

definition sat_add :: "'a::len word \<Rightarrow> 'a word \<Rightarrow> 'a word" where
  "sat_add a b = (if unat a + unat b < 2 ^ LENGTH('a) then a + b else - 1)"

definition sat_sub :: "'a::len word \<Rightarrow> 'a word \<Rightarrow> 'a word" where
  "sat_sub a b = (if b \<le> a then a - b else 0)"

lemma unat_minus_one_word_aux: "unat (- 1 :: 'a::len word) = 2 ^ LENGTH('a) - 1"
  by (simp add: unsigned_minus_1_eq_mask mask_eq_exp_minus_1)

lemma unat_sat_add [sat_simps]:
  "unat (sat_add a b) = min (unat a + unat b) (2 ^ LENGTH('a) - 1)" for a b :: "'a::len word"
  by (auto simp: sat_add_def unat_word_ariths unat_minus_one_word_aux)

lemma unat_sat_sub [sat_simps]: "unat (sat_sub a b) = unat a - unat b"
  by (auto simp: sat_sub_def unat_sub not_le word_less_nat_alt)

lemma sat_sub_zero [simp]: "sat_sub a 0 = a" "sat_sub 0 a = 0"
  by (simp_all add: sat_sub_def)

lemma unat_sum_list_bound:
  "(\<Sum>x\<leftarrow>xs. unat (f x)) < 2 ^ LENGTH('a) \<Longrightarrow> unat (\<Sum>x\<leftarrow>xs. f x) = (\<Sum>x\<leftarrow>xs. unat (f x))"
  for f :: "'b \<Rightarrow> 'a::len word"
  by (induction xs) (simp_all add: unat_word_ariths)

lemma unat_add_bound:
  "unat a + unat b < 2 ^ LENGTH('a) \<Longrightarrow> unat (a + b) = unat a + unat b" for a b :: "'a::len word"
  by (simp add: unat_word_ariths)

lemma unat_mult_bound:
  "unat a * unat b < 2 ^ LENGTH('a) \<Longrightarrow> unat (a * b) = unat a * unat b" for a b :: "'a::len word"
  by (simp add: unat_word_ariths)

lemma sum_list_replaced:
  fixes g :: "'a \<Rightarrow> 'b::comm_monoid_add"
  assumes "i < length xs"
  shows "(\<Sum>x\<leftarrow>xs[i := y]. g x) + g (xs ! i) = (\<Sum>x\<leftarrow>xs. g x) + g y"
proof -
  have "(\<Sum>x\<leftarrow>xs. g x) = (\<Sum>x\<leftarrow>take i xs. g x) + (g (xs ! i) + (\<Sum>x\<leftarrow>drop (Suc i) xs. g x))"
    by (subst id_take_nth_drop [OF assms]) simp
  then show ?thesis using assms by (simp add: upd_conv_take_nth_drop ac_simps)
qed

section \<open>Sums of records\<close>

instantiation unit :: comm_monoid_add
begin

definition zero_unit :: unit where "zero_unit = ()"

definition plus_unit :: "unit \<Rightarrow> unit \<Rightarrow> unit" where "plus_unit a b = ()"

instance
  by standard simp_all

end

section \<open>HashMap\<close>

text \<open>
  A hash map is an association list in insertion order. Rust leaves the iteration order of
  \<open>values()\<close> open; the interface below gives only the multiset of the values, so a property
  proved from it holds for every order.
\<close>

type_synonym ('k, 'v) hmap = "('k \<times> 'v) list"

definition hm_get :: "('k, 'v) hmap \<Rightarrow> 'k \<Rightarrow> 'v option" where
  "hm_get m k = map_of m k"

definition hm_contains :: "('k, 'v) hmap \<Rightarrow> 'k \<Rightarrow> bool" where
  "hm_contains m k \<longleftrightarrow> hm_get m k \<noteq> None"

definition hm_insert :: "'k \<Rightarrow> 'v \<Rightarrow> ('k, 'v) hmap \<Rightarrow> ('k, 'v) hmap" where
  "hm_insert k v m = AList.update k v m"

definition hm_modify :: "'k \<Rightarrow> ('v \<Rightarrow> 'v) \<Rightarrow> ('k, 'v) hmap \<Rightarrow> ('k, 'v) hmap" where
  "hm_modify k f m = map (\<lambda>(k', v). (k', if k' = k then f v else v)) m"

definition hm_values :: "('k, 'v) hmap \<Rightarrow> 'v list" where
  "hm_values m = map snd m"

definition hm_keys :: "('k, 'v) hmap \<Rightarrow> 'k list" where
  "hm_keys m = map fst m"

definition hm_wf :: "('k, 'v) hmap \<Rightarrow> bool" where
  "hm_wf m \<longleftrightarrow> distinct (hm_keys m)"

text \<open>
  The interface a client of a hash map relies on: \<open>get\<close> after \<open>insert\<close> and after a write
  through \<open>get_mut\<close>, and what either does to the multiset of values.
\<close>

locale hash_map =
  fixes get :: "'m \<Rightarrow> 'k \<Rightarrow> 'v option"
    and insert :: "'k \<Rightarrow> 'v \<Rightarrow> 'm \<Rightarrow> 'm"
    and modify :: "'k \<Rightarrow> ('v \<Rightarrow> 'v) \<Rightarrow> 'm \<Rightarrow> 'm"
    and vals :: "'m \<Rightarrow> 'v list"
    and wf :: "'m \<Rightarrow> bool"
  assumes get_insert: "get (insert k v m) k' = (if k' = k then Some v else get m k')"
    and get_modify: "get (modify k f m) k' = (if k' = k then map_option f (get m k) else get m k')"
    and wf_insert: "wf m \<Longrightarrow> wf (insert k v m)"
    and wf_modify: "wf m \<Longrightarrow> wf (modify k f m)"
    and vals_insert: "get m k = None \<Longrightarrow> mset (vals (insert k v m)) = add_mset v (mset (vals m))"
    and vals_modify: "wf m \<Longrightarrow> get m k = Some v \<Longrightarrow>
      \<exists>M. mset (vals m) = add_mset v M \<and> mset (vals (modify k f m)) = add_mset (f v) M"
    and modify_absent: "get m k = None \<Longrightarrow> modify k f m = m"
begin

definition total :: "('v \<Rightarrow> 'a::comm_monoid_add) \<Rightarrow> 'm \<Rightarrow> 'a" where
  "total g m = sum_list (map g (vals m))"

lemma total_mset: "total g m = sum_mset (image_mset g (mset (vals m)))"
  by (simp add: total_def sum_mset_sum_list flip: mset_map)

lemma total_insert: "get m k = None \<Longrightarrow> total g (insert k v m) = g v + total g m"
  by (simp add: total_mset vals_insert)

lemma total_modify:
  assumes "wf m" "get m k = Some v" "g (f v) = g v + d"
  shows "total g (modify k f m) = total g m + d"
proof -
  obtain M where "mset (vals m) = add_mset v M" "mset (vals (modify k f m)) = add_mset (f v) M"
    using vals_modify [OF assms(1,2)] by blast
  then show ?thesis using assms(3) by (simp add: total_mset ac_simps)
qed

lemma total_modify_same:
  assumes "wf m" "\<And>v. get m k = Some v \<Longrightarrow> g (f v) = g v"
  shows "total g (modify k f m) = total g m"
proof (cases "get m k")
  case None
  then show ?thesis by (simp add: modify_absent)
next
  case (Some v)
  then show ?thesis using total_modify [OF assms(1) Some, of g f 0] assms(2) by simp
qed

end

lemma hm_modify_absent: "hm_get m k = None \<Longrightarrow> hm_modify k f m = m"
  by (induction m) (auto simp: hm_get_def hm_modify_def split: if_splits)

lemma hm_get_insert [hm_simps]:
  "hm_get (hm_insert k v m) k' = (if k' = k then Some v else hm_get m k')"
  by (simp add: hm_get_def hm_insert_def update_conv)

lemma hm_get_modify [hm_simps]:
  "hm_get (hm_modify k f m) k' = (if k' = k then map_option f (hm_get m k) else hm_get m k')"
  by (induction m) (auto simp: hm_get_def hm_modify_def)

lemma hm_keys_modify [hm_simps]: "hm_keys (hm_modify k f m) = hm_keys m"
  by (induction m) (auto simp: hm_keys_def hm_modify_def)

lemma hm_keys_insert [hm_simps]:
  "hm_keys (hm_insert k v m) = (if hm_contains m k then hm_keys m else hm_keys m @ [k])"
  by (induction m) (auto simp: hm_keys_def hm_insert_def hm_contains_def hm_get_def)

lemma hm_wf_modify [hm_simps]: "hm_wf (hm_modify k f m) = hm_wf m"
  by (simp add: hm_wf_def hm_keys_modify)

lemma hm_get_in_keys: "hm_get m k \<noteq> None \<longleftrightarrow> k \<in> set (hm_keys m)"
  by (auto simp: hm_get_def hm_keys_def map_of_eq_None_iff)

lemma hm_wf_insert: "hm_wf m \<Longrightarrow> hm_wf (hm_insert k v m)"
  by (auto simp: hm_wf_def hm_keys_insert hm_contains_def simp flip: hm_get_in_keys)

lemma hm_vals_insert:
  "hm_get m k = None \<Longrightarrow> mset (hm_values (hm_insert k v m)) = add_mset v (mset (hm_values m))"
  by (induction m) (auto simp: hm_get_def hm_values_def hm_insert_def split: if_splits)

lemma hm_vals_modify:
  "hm_wf m \<Longrightarrow> hm_get m k = Some v \<Longrightarrow>
    \<exists>M. mset (hm_values m) = add_mset v M \<and> mset (hm_values (hm_modify k f m)) = add_mset (f v) M"
proof (induction m)
  case Nil
  then show ?case by (simp add: hm_get_def)
next
  case (Cons p m)
  obtain k' w where p: "p = (k', w)" by (cases p)
  show ?case
  proof (cases "k' = k")
    case True
    with Cons.prems p have "hm_get m k = None" "w = v"
      by (auto simp: hm_wf_def hm_keys_def hm_get_def map_of_eq_None_iff)
    then have "hm_modify k f m = m" by (simp add: hm_modify_absent)
    with True p \<open>w = v\<close> show ?thesis by (auto simp: hm_values_def hm_modify_def)
  next
    case False
    with Cons p obtain M where "mset (hm_values m) = add_mset v M"
      "mset (hm_values (hm_modify k f m)) = add_mset (f v) M"
      by (auto simp: hm_wf_def hm_keys_def hm_get_def)
    with False p show ?thesis
      by (intro exI [of _ "add_mset w M"]) (auto simp: hm_values_def hm_modify_def)
  qed
qed

interpretation hm: hash_map hm_get hm_insert hm_modify hm_values hm_wf
  by unfold_locales
    (auto simp: hm_simps hm_wf_insert hm_vals_insert hm_modify_absent intro: hm_vals_modify)

lemma hm_total_eq: "hm.total g m = (\<Sum>v\<leftarrow>hm_values m. g v)"
  by (simp add: hm.total_def)

lemma hm_get_values: "hm_get m k = Some v \<Longrightarrow> v \<in> set (hm_values m)"
  by (force simp: hm_get_def hm_values_def dest: map_of_SomeD)

lemma hm_get_Nil [simp]: "hm_get [] k = None"
  by (simp add: hm_get_def)

lemma hm_get_Cons [simp]: "hm_get ((k', v) # m) k = (if k = k' then Some v else hm_get m k)"
  by (auto simp: hm_get_def)

end
