(* ===== verification/Rust_Str.thy ===== *)
theory Rust_Str
  imports Prelude "HOL-Library.Sublist"
begin

text \<open>
  The string operations of Rust's standard library that the crates use. A \<open>String\<close>, a \<open>&str\<close>
  and a byte slice are all lists of bytes (Isabelle's \<open>char\<close> is one byte): a \<open>String\<close> is its
  UTF-8 encoding, so \<open>len()\<close>, \<open>find\<close>, \<open>contains\<close> and slicing count bytes as Rust's do. Trimming
  removes the encodings of the Unicode \<open>White_Space\<close> characters, as \<open>str::trim\<close> does;
  \<open>String::from_utf8_lossy\<close> replaces each maximal invalid sequence by U+FFFD.
\<close>

named_theorems str_simps \<open>evaluation of the string operations\<close>

section \<open>Prefixes, search and slicing\<close>

fun strip_prefix :: "string \<Rightarrow> string \<Rightarrow> string option" where
  "strip_prefix [] s = Some s"
| "strip_prefix (p # ps) [] = None"
| "strip_prefix (p # ps) (c # cs) = (if p = c then strip_prefix ps cs else None)"

definition starts_with :: "string \<Rightarrow> string \<Rightarrow> bool" where
  "starts_with s p \<longleftrightarrow> strip_prefix p s \<noteq> None"

definition ends_with :: "string \<Rightarrow> string \<Rightarrow> bool" where
  "ends_with s p \<longleftrightarrow> starts_with (rev s) (rev p)"

fun find_str :: "string \<Rightarrow> string \<Rightarrow> nat option" where
  "find_str [] p = (if p = [] then Some 0 else None)"
| "find_str (c # cs) p = (if starts_with (c # cs) p then Some 0 else map_option Suc (find_str cs p))"

definition contains :: "string \<Rightarrow> string \<Rightarrow> bool" where
  "contains s p \<longleftrightarrow> find_str s p \<noteq> None"

fun find_pred :: "string \<Rightarrow> (char \<Rightarrow> bool) \<Rightarrow> nat option" where
  "find_pred [] P = None"
| "find_pred (c # cs) P = (if P c then Some 0 else map_option Suc (find_pred cs P))"

lemma strip_prefix_Some: "strip_prefix p s = Some r \<longleftrightarrow> s = p @ r"
  by (induction p s rule: strip_prefix.induct) auto

lemma strip_prefix_append [simp]: "strip_prefix p (p @ s) = Some s"
  by (simp add: strip_prefix_Some)

lemma starts_with_iff: "starts_with s p \<longleftrightarrow> (\<exists>r. s = p @ r)"
  by (cases "strip_prefix p s") (auto simp: starts_with_def strip_prefix_Some dest: sym)

lemma starts_with_Nil [simp]: "starts_with s []"
  by (simp add: starts_with_def)

lemma starts_with_Cons [simp]:
  "starts_with [] (p # ps) = False"
  "starts_with (c # cs) (p # ps) \<longleftrightarrow> p = c \<and> starts_with cs ps"
  by (simp_all add: starts_with_def)

lemma ends_with_iff: "ends_with s p \<longleftrightarrow> (\<exists>r. s = r @ p)"
proof -
  have "ends_with s p \<longleftrightarrow> (\<exists>r. rev s = rev p @ r)" by (simp add: ends_with_def starts_with_iff)
  also have "\<dots> \<longleftrightarrow> (\<exists>r. s = r @ p)" by (metis rev_append rev_rev_ident)
  finally show ?thesis .
qed

lemma find_str_Some: "find_str s p = Some i \<Longrightarrow> \<exists>a b. s = a @ p @ b \<and> length a = i"
proof (induction s p arbitrary: i rule: find_str.induct)
  case (1 p)
  then show ?case by (auto split: if_splits)
next
  case (2 c cs p)
  show ?case
  proof (cases "starts_with (c # cs) p")
    case True
    with "2.prems" show ?thesis by (auto simp: starts_with_iff)
  next
    case False
    with "2.prems" obtain j where "find_str cs p = Some j" "i = Suc j" by auto
    with "2.IH" [OF False, of j] obtain a b where "cs = a @ p @ b" "length a = j" by blast
    with \<open>i = Suc j\<close> show ?thesis by (intro exI [of _ "c # a"] exI [of _ b]) auto
  qed
qed

lemma find_str_None: "find_str s p = None \<longleftrightarrow> (\<forall>a b. s \<noteq> a @ p @ b)"
proof (induction s p rule: find_str.induct)
  case (1 p)
  then show ?case by auto
next
  case (2 c cs p)
  show ?case
  proof (cases "starts_with (c # cs) p")
    case True
    then show ?thesis by (auto simp: starts_with_iff) (metis append_Nil)
  next
    case False
    then have "(\<forall>a b. c # cs \<noteq> a @ p @ b) \<longleftrightarrow> (\<forall>a b. cs \<noteq> a @ p @ b)"
      by (auto simp: starts_with_iff Cons_eq_append_conv)
    with False "2.IH" [OF False] show ?thesis by simp
  qed
qed

lemma contains_iff: "contains s p \<longleftrightarrow> (\<exists>a b. s = a @ p @ b)"
  by (simp add: contains_def find_str_None)

lemma find_pred_take: "find_pred s P = Some i \<Longrightarrow> i < length s \<and> P (s ! i) \<and> (\<forall>j<i. \<not> P (s ! j))"
proof (induction s P arbitrary: i rule: find_pred.induct)
  case (2 c cs P)
  then show ?case by (auto split: if_splits simp: nth_Cons split: nat.splits)
qed simp

lemma find_pred_None: "find_pred s P = None \<longleftrightarrow> (\<forall>c \<in> set s. \<not> P c)"
  by (induction s P rule: find_pred.induct) auto

lemma find_pred_append: "\<forall>c \<in> set a. \<not> P c \<Longrightarrow> P c \<Longrightarrow> find_pred (a @ c # b) P = Some (length a)"
  by (induction a) auto

section \<open>Trimming\<close>

fun strip_seqs :: "string list \<Rightarrow> string \<Rightarrow> string" where
  "strip_seqs ws s =
    (case find (\<lambda>w. w \<noteq> [] \<and> starts_with s w) ws of
      None \<Rightarrow> s
    | Some w \<Rightarrow> if s = [] \<or> w = [] then s else strip_seqs ws (drop (length w) s))"

declare strip_seqs.simps [simp del]

definition white_space :: "string list" where
  "white_space =
    [[CHR 0x20], [CHR 0x09], [CHR 0x0A], [CHR 0x0B], [CHR 0x0C], [CHR 0x0D],
     [CHR 0xC2, CHR 0x85], [CHR 0xC2, CHR 0xA0], [CHR 0xE1, CHR 0x9A, CHR 0x80],
     [CHR 0xE2, CHR 0x80, CHR 0x80], [CHR 0xE2, CHR 0x80, CHR 0x81], [CHR 0xE2, CHR 0x80, CHR 0x82],
     [CHR 0xE2, CHR 0x80, CHR 0x83], [CHR 0xE2, CHR 0x80, CHR 0x84], [CHR 0xE2, CHR 0x80, CHR 0x85],
     [CHR 0xE2, CHR 0x80, CHR 0x86], [CHR 0xE2, CHR 0x80, CHR 0x87], [CHR 0xE2, CHR 0x80, CHR 0x88],
     [CHR 0xE2, CHR 0x80, CHR 0x89], [CHR 0xE2, CHR 0x80, CHR 0x8A], [CHR 0xE2, CHR 0x80, CHR 0xA8],
     [CHR 0xE2, CHR 0x80, CHR 0xA9], [CHR 0xE2, CHR 0x80, CHR 0xAF], [CHR 0xE2, CHR 0x81, CHR 0x9F],
     [CHR 0xE3, CHR 0x80, CHR 0x80]]"

definition trim_start :: "string \<Rightarrow> string" where
  "trim_start s = strip_seqs white_space s"

definition trim_end :: "string \<Rightarrow> string" where
  "trim_end s = rev (strip_seqs (map rev white_space) (rev s))"

definition trim :: "string \<Rightarrow> string" where
  "trim s = trim_end (trim_start s)"

definition trim_end_matches :: "char list \<Rightarrow> string \<Rightarrow> string" where
  "trim_end_matches cs s = rev (dropWhile (\<lambda>c. c \<in> set cs) (rev s))"

text \<open>A byte that starts no white space character, and one that ends none.\<close>

definition ws_first :: "char \<Rightarrow> bool" where
  "ws_first c \<longleftrightarrow> c \<in> set (map hd white_space)"

definition ws_last :: "char \<Rightarrow> bool" where
  "ws_last c \<longleftrightarrow> c \<in> set (map last white_space)"

lemma strip_seqs_Nil [simp]: "strip_seqs ws [] = []"
  by (simp add: strip_seqs.simps split: option.splits)

lemma strip_seqs_id:
  assumes "\<And>w. w \<in> set ws \<Longrightarrow> w \<noteq> [] \<Longrightarrow> hd w \<noteq> c"
  shows "strip_seqs ws (c # s) = c # s"
proof -
  have "find (\<lambda>w. w \<noteq> [] \<and> starts_with (c # s) w) ws = None"
    using assms by (fastforce simp: find_None_iff starts_with_iff Cons_eq_append_conv)
  then show ?thesis by (simp add: strip_seqs.simps)
qed

lemma trim_start_id: "\<not> ws_first c \<Longrightarrow> trim_start (c # s) = c # s"
  unfolding trim_start_def ws_first_def by (rule strip_seqs_id) (force simp: image_iff)

lemma trim_start_Nil [simp]: "trim_start [] = []"
  by (simp add: trim_start_def)

lemma trim_end_id: "\<not> ws_last c \<Longrightarrow> trim_end (s @ [c]) = s @ [c]"
proof -
  assume "\<not> ws_last c"
  then have "strip_seqs (map rev white_space) (c # rev s) = c # rev s"
    unfolding ws_last_def by (intro strip_seqs_id) (force simp: image_iff hd_rev)
  then show ?thesis by (simp add: trim_end_def)
qed

lemma trim_end_Nil [simp]: "trim_end [] = []"
  by (simp add: trim_end_def)

lemma trim_Nil [simp]: "trim [] = []"
  by (simp add: trim_def)

lemma trim_start_space: "trim_start (CHR 0x20 # s) = trim_start s"
  by (subst trim_start_def, subst strip_seqs.simps) (simp add: white_space_def trim_start_def)

text \<open>A text whose first and last bytes belong to no white space character is its own trim.\<close>

definition trimmed :: "string \<Rightarrow> bool" where
  "trimmed s \<longleftrightarrow> s = [] \<or> (\<not> ws_first (hd s) \<and> \<not> ws_last (last s))"

lemma trim_trimmed: "trimmed s \<Longrightarrow> trim s = s"
proof (cases s rule: rev_cases)
  case (snoc t c)
  assume "trimmed s"
  with snoc have ws: "\<not> ws_first (hd s)" "\<not> ws_last c" "s \<noteq> []" by (auto simp: trimmed_def)
  then have "trim_start s = s" by (cases s) (auto simp: trim_start_id)
  with snoc ws show ?thesis by (simp add: trim_def trim_end_id)
qed simp

lemma trim_space_trimmed: "trimmed s \<Longrightarrow> trim (CHR 0x20 # s) = s"
  using trim_trimmed [of s] by (simp add: trim_def trim_start_space)

lemma trim_end_matches_id: "s = [] \<or> last s \<notin> set cs \<Longrightarrow> trim_end_matches cs s = s"
  by (cases s rule: rev_cases) (auto simp: trim_end_matches_def)

lemma trim_end_matches_snoc: "c \<in> set cs \<Longrightarrow> trim_end_matches cs (s @ [c]) = trim_end_matches cs s"
  by (simp add: trim_end_matches_def)

section \<open>Case, splitting and joining\<close>

definition ascii_lower :: "char \<Rightarrow> char" where
  "ascii_lower c =
    (if 65 \<le> (of_char c :: nat) \<and> (of_char c :: nat) \<le> 90 then char_of ((of_char c :: nat) + 32) else c)"

definition ascii_upper :: "char \<Rightarrow> char" where
  "ascii_upper c =
    (if 97 \<le> (of_char c :: nat) \<and> (of_char c :: nat) \<le> 122 then char_of ((of_char c :: nat) - 32) else c)"

definition to_ascii_lowercase :: "string \<Rightarrow> string" where
  "to_ascii_lowercase s = map ascii_lower s"

definition to_ascii_uppercase :: "string \<Rightarrow> string" where
  "to_ascii_uppercase s = map ascii_upper s"

definition eq_ignore_ascii_case :: "string \<Rightarrow> string \<Rightarrow> bool" where
  "eq_ignore_ascii_case a b \<longleftrightarrow> to_ascii_lowercase a = to_ascii_lowercase b"

definition is_ascii_alphabetic :: "char \<Rightarrow> bool" where
  "is_ascii_alphabetic c \<longleftrightarrow>
    (let n = (of_char c :: nat) in (65 \<le> n \<and> n \<le> 90) \<or> (97 \<le> n \<and> n \<le> 122))"

definition is_ascii_digit :: "char \<Rightarrow> bool" where
  "is_ascii_digit c \<longleftrightarrow> (let n = (of_char c :: nat) in 48 \<le> n \<and> n \<le> 57)"

definition is_ascii_alphanumeric :: "char \<Rightarrow> bool" where
  "is_ascii_alphanumeric c \<longleftrightarrow> is_ascii_alphabetic c \<or> is_ascii_digit c"

fun split_on :: "char \<Rightarrow> string \<Rightarrow> string list" where
  "split_on d [] = [[]]"
| "split_on d (c # cs) =
    (if c = d then [] # split_on d cs
     else case split_on d cs of [] \<Rightarrow> [[c]] | p # ps \<Rightarrow> (c # p) # ps)"

fun join :: "string \<Rightarrow> string list \<Rightarrow> string" where
  "join sep [] = []"
| "join sep [x] = x"
| "join sep (x # xs) = x @ sep @ join sep xs"

definition lines :: "string \<Rightarrow> string list" where
  "lines s =
    (let ps = split_on (CHR 0x0A) s;
         qs = (if last ps = [] then butlast ps else ps)
     in map (\<lambda>l. if l \<noteq> [] \<and> last l = CHR 0x0D then butlast l else l) qs)"

lemma split_on_not_Nil [simp]: "split_on d s \<noteq> []"
  by (induction d s rule: split_on.induct) (auto split: list.splits)

lemma split_on_append: "d \<notin> set a \<Longrightarrow> split_on d (a @ d # b) = a # split_on d b"
  by (induction a) (auto split: list.splits)

lemma split_on_id: "d \<notin> set a \<Longrightarrow> split_on d a = [a]"
  by (induction a) auto

lemma join_Cons: "xs \<noteq> [] \<Longrightarrow> join sep (x # xs) = x @ sep @ join sep xs"
  by (cases xs) auto

lemma join_split: "join [d] (split_on d s) = s"
proof (induction d s rule: split_on.induct)
  case (2 d c cs)
  then show ?case
    by (cases "split_on d cs"; cases "tl (split_on d cs)") (auto simp: join_Cons)
qed simp

lemma ascii_lower_idem: "ascii_lower (ascii_lower c) = ascii_lower c"
  by (auto simp: ascii_lower_def)

lemma to_ascii_lowercase_idem: "to_ascii_lowercase (to_ascii_lowercase s) = to_ascii_lowercase s"
  by (simp add: to_ascii_lowercase_def ascii_lower_idem)

end
