(* ===== verification/Rust_Text.thy ===== *)
theory Rust_Text
  imports Rust_Str
begin

text \<open>
  UTF-8 decoding as \<open>String::from_utf8_lossy\<close> does it, decimal numbers as \<open>format!\<close> prints and
  \<open>str::parse\<close> reads them.
\<close>

section \<open>UTF-8\<close>

abbreviation byte :: "char \<Rightarrow> nat" where
  "byte c \<equiv> of_char c"

definition is_cont :: "char \<Rightarrow> bool" where
  "is_cont c \<longleftrightarrow> 128 \<le> byte c \<and> byte c \<le> 191"

text \<open>The byte after the end reads as 0, as the standard library's chunk iterator has it.\<close>

fun byte_at :: "string \<Rightarrow> nat \<Rightarrow> char" where
  "byte_at [] i = CHR 0x00"
| "byte_at (c # cs) 0 = c"
| "byte_at (c # cs) (Suc i) = byte_at cs i"

definition second_ok :: "nat \<Rightarrow> nat \<Rightarrow> bool" where
  "second_ok b0 b1 \<longleftrightarrow>
    (if b0 = 0xE0 then 0xA0 \<le> b1 \<and> b1 \<le> 0xBF
     else if b0 = 0xED then 0x80 \<le> b1 \<and> b1 \<le> 0x9F
     else if b0 = 0xF0 then 0x90 \<le> b1 \<and> b1 \<le> 0xBF
     else if b0 = 0xF4 then 0x80 \<le> b1 \<and> b1 \<le> 0x8F
     else 0x80 \<le> b1 \<and> b1 \<le> 0xBF)"

text \<open>
  One step of the decoder on a non-empty text: how many bytes it takes, and whether they are a
  character or a maximal invalid sequence.
\<close>

definition utf8_dec :: "char \<Rightarrow> char \<Rightarrow> char \<Rightarrow> char \<Rightarrow> nat \<times> bool" where
  "utf8_dec c0 c1 c2 c3 =
    (let b0 = byte c0 in
     if b0 < 0x80 then (1, True)
     else if 0xC2 \<le> b0 \<and> b0 \<le> 0xDF then
       (if is_cont c1 then (2, True) else (1, False))
     else if 0xE0 \<le> b0 \<and> b0 \<le> 0xEF then
       (if \<not> second_ok b0 (byte c1) then (1, False)
        else if is_cont c2 then (3, True) else (2, False))
     else if 0xF0 \<le> b0 \<and> b0 \<le> 0xF4 then
       (if \<not> second_ok b0 (byte c1) then (1, False)
        else if \<not> is_cont c2 then (2, False)
        else if is_cont c3 then (4, True) else (3, False))
     else (1, False))"

definition utf8_step :: "string \<Rightarrow> nat \<times> bool" where
  "utf8_step s = utf8_dec (byte_at s 0) (byte_at s 1) (byte_at s 2) (byte_at s 3)"

definition replacement :: string where
  "replacement = [CHR 0xEF, CHR 0xBF, CHR 0xBD]"

lemma utf8_step_pos: "0 < fst (utf8_step s)"
  by (simp add: utf8_step_def utf8_dec_def Let_def)

function from_utf8_lossy :: "string \<Rightarrow> string" where
  "from_utf8_lossy [] = []"
| "from_utf8_lossy (c # cs) =
    (let s = c # cs; (n, ok) = utf8_step s
     in (if ok then take n s else replacement) @ from_utf8_lossy (drop n s))"
  by pat_completeness auto
termination
  by (relation "measure length") (auto simp: utf8_step_pos dest: arg_cong [where f = fst])

declare from_utf8_lossy.simps(2) [simp del]

fun utf8_fuel :: "nat \<Rightarrow> string \<Rightarrow> bool" where
  "utf8_fuel 0 s \<longleftrightarrow> s = []"
| "utf8_fuel (Suc k) s \<longleftrightarrow>
    s = [] \<or> (snd (utf8_step s) \<and> fst (utf8_step s) \<le> length s \<and> utf8_fuel k (drop (fst (utf8_step s)) s))"

definition utf8_valid :: "string \<Rightarrow> bool" where
  "utf8_valid s \<longleftrightarrow> utf8_fuel (length s) s"

definition is_ascii :: "string \<Rightarrow> bool" where
  "is_ascii s \<longleftrightarrow> (\<forall>c \<in> set s. byte c < 128)"

lemma byte_at_append: "i < length a \<Longrightarrow> byte_at (a @ b) i = byte_at a i"
  by (induction a i rule: byte_at.induct) auto

lemma utf8_dec_local:
  assumes "snd (utf8_dec c0 c1 c2 c3)"
    and "2 \<le> fst (utf8_dec c0 c1 c2 c3) \<Longrightarrow> d1 = c1"
    and "3 \<le> fst (utf8_dec c0 c1 c2 c3) \<Longrightarrow> d2 = c2"
    and "4 \<le> fst (utf8_dec c0 c1 c2 c3) \<Longrightarrow> d3 = c3"
  shows "utf8_dec c0 d1 d2 d3 = utf8_dec c0 c1 c2 c3"
proof -
  consider "byte c0 < 0x80" | "\<not> byte c0 < 0x80" "0xC2 \<le> byte c0 \<and> byte c0 \<le> 0xDF"
    | "\<not> byte c0 < 0x80" "\<not> (0xC2 \<le> byte c0 \<and> byte c0 \<le> 0xDF)" "0xE0 \<le> byte c0 \<and> byte c0 \<le> 0xEF"
    | "\<not> byte c0 < 0x80" "\<not> (0xC2 \<le> byte c0 \<and> byte c0 \<le> 0xDF)"
      "\<not> (0xE0 \<le> byte c0 \<and> byte c0 \<le> 0xEF)" "0xF0 \<le> byte c0 \<and> byte c0 \<le> 0xF4"
    | "\<not> byte c0 < 0x80" "\<not> (0xC2 \<le> byte c0 \<and> byte c0 \<le> 0xDF)"
      "\<not> (0xE0 \<le> byte c0 \<and> byte c0 \<le> 0xEF)" "\<not> (0xF0 \<le> byte c0 \<and> byte c0 \<le> 0xF4)"
    by blast
  then show ?thesis
    using assms by cases (simp_all add: utf8_dec_def Let_def split: if_splits)
qed

lemma utf8_step_append:
  assumes "a \<noteq> []" "snd (utf8_step a)" "fst (utf8_step a) \<le> length a"
  shows "utf8_step (a @ b) = utf8_step a"
proof -
  have "byte_at (a @ b) 0 = byte_at a 0" using assms(1) by (simp add: byte_at_append)
  then show ?thesis
    using assms utf8_dec_local [of "byte_at a 0" "byte_at a 1" "byte_at a 2" "byte_at a 3"
      "byte_at (a @ b) 1" "byte_at (a @ b) 2" "byte_at (a @ b) 3"]
    by (simp add: utf8_step_def byte_at_append)
qed

lemma lossy_prefix:
  "utf8_fuel k a \<Longrightarrow> from_utf8_lossy (a @ b) = a @ from_utf8_lossy b"
proof (induction k arbitrary: a)
  case (Suc k)
  show ?case
  proof (cases a)
    case (Cons c cs)
    let ?n = "fst (utf8_step a)"
    from Suc.prems Cons have ok: "snd (utf8_step a)" and n: "?n \<le> length a"
      and rest: "utf8_fuel k (drop ?n a)" by auto
    have "utf8_step (a @ b) = (?n, True)"
      using utf8_step_append [OF _ ok n, of b] ok Cons by (simp add: prod_eq_iff)
    then have "from_utf8_lossy (a @ b) = take ?n (a @ b) @ from_utf8_lossy (drop ?n (a @ b))"
      using Cons by (simp add: from_utf8_lossy.simps(2) Let_def)
    also have "\<dots> = take ?n a @ from_utf8_lossy (drop ?n a @ b)" using n by simp
    also have "\<dots> = a @ from_utf8_lossy b" using Suc.IH [OF rest] by simp
    finally show ?thesis .
  qed simp
qed simp

lemma lossy_append: "utf8_valid a \<Longrightarrow> from_utf8_lossy (a @ b) = a @ from_utf8_lossy b"
  unfolding utf8_valid_def by (rule lossy_prefix)

lemma lossy_valid: "utf8_valid a \<Longrightarrow> from_utf8_lossy a = a"
  using lossy_append [of a "[]"] by simp

lemma utf8_step_ascii: "byte c < 128 \<Longrightarrow> utf8_step (c # s) = (1, True)"
  by (simp add: utf8_step_def utf8_dec_def)

lemma is_ascii_valid: "is_ascii s \<Longrightarrow> utf8_valid s"
proof -
  assume "is_ascii s"
  then have "utf8_fuel (length s) s"
    by (induction s) (auto simp: is_ascii_def utf8_step_ascii)
  then show ?thesis by (simp add: utf8_valid_def)
qed

lemma is_ascii_append [simp]: "is_ascii (a @ b) \<longleftrightarrow> is_ascii a \<and> is_ascii b"
  by (auto simp: is_ascii_def)

section \<open>Decimal numbers\<close>

definition digit :: "nat \<Rightarrow> char" where
  "digit d = char_of (48 + d)"

fun show_nat :: "nat \<Rightarrow> string" where
  "show_nat n = (if n < 10 then [digit n] else show_nat (n div 10) @ [digit (n mod 10)])"

declare show_nat.simps [simp del]

definition pad_left :: "char \<Rightarrow> nat \<Rightarrow> string \<Rightarrow> string" where
  "pad_left c w s = replicate (w - length s) c @ s"

definition pad_right :: "char \<Rightarrow> nat \<Rightarrow> string \<Rightarrow> string" where
  "pad_right c w s = s @ replicate (w - length s) c"

definition digits_val :: "string \<Rightarrow> nat" where
  "digits_val s = foldl (\<lambda>n c. 10 * n + (byte c - 48)) 0 s"

text \<open>\<open>str::parse::<u64>\<close>: an optional \<open>+\<close>, then digits only, and no overflow.\<close>

definition parse_u64 :: "string \<Rightarrow> u64 option" where
  "parse_u64 s =
    (let t = (case s of [] \<Rightarrow> [] | c # cs \<Rightarrow> if c = CHR ''+'' then cs else s)
     in if t \<noteq> [] \<and> list_all is_ascii_digit t \<and> digits_val t < 2 ^ 64
        then Some (of_nat (digits_val t)) else None)"

lemma byte_digit: "d < 10 \<Longrightarrow> byte (digit d) = 48 + d"
  by (simp add: digit_def)

lemma is_ascii_digit_digit: "d < 10 \<Longrightarrow> is_ascii_digit (digit d)"
  by (simp add: is_ascii_digit_def byte_digit Let_def)

lemma digits_val_snoc: "digits_val (s @ [c]) = 10 * digits_val s + (byte c - 48)"
  by (simp add: digits_val_def)

lemma digits_val_show: "digits_val (show_nat n) = n"
proof (induction n rule: show_nat.induct)
  case (1 n)
  show ?case
  proof (cases "n < 10")
    case True
    then show ?thesis by (simp add: show_nat.simps [of n] digits_val_def byte_digit)
  next
    case False
    with "1.IH" show ?thesis
      by (simp add: show_nat.simps [of n] digits_val_snoc byte_digit)
  qed
qed

lemma digits_val_zeros: "digits_val (replicate k (CHR ''0'') @ s) = digits_val s"
  by (induction k) (simp_all add: digits_val_def)

lemma digits_val_pad: "digits_val (pad_left (CHR ''0'') w (show_nat n)) = n"
  by (simp add: pad_left_def digits_val_zeros digits_val_show)

lemma show_nat_digits: "list_all is_ascii_digit (show_nat n)"
proof (induction n rule: show_nat.induct)
  case (1 n)
  then show ?case by (simp add: show_nat.simps [of n] is_ascii_digit_digit)
qed

lemma show_nat_not_Nil: "show_nat n \<noteq> []"
  by (simp add: show_nat.simps [of n])

lemma parse_show_u64: "n < 2 ^ 64 \<Longrightarrow> parse_u64 (show_nat n) = Some (of_nat n)"
proof -
  assume n: "n < 2 ^ 64"
  obtain c cs where s: "show_nat n = c # cs" using show_nat_not_Nil [of n] by (cases "show_nat n") auto
  then have "is_ascii_digit c" using show_nat_digits [of n] by simp
  then have "c \<noteq> CHR ''+''" by (auto simp: is_ascii_digit_def)
  with s n show ?thesis
    using show_nat_digits [of n] digits_val_show [of n] by (simp add: parse_u64_def)
qed

end
