(* ===== verification/Wire_Sse.thy ===== *)
theory Wire_Sse
  imports Rust_Text
begin

text \<open>
  The incremental \<open>text/event-stream\<close> decoder (\<open>crates/tailfin-wire/src/lib.rs\<close>: \<open>SseFrame\<close>,
  \<open>SseDecoder\<close>). The interface \<open>incremental\<close> says what it means for a decoder not to care how
  its input is cut into chunks; the decoder meets it on text, and on bytes wherever no chunk
  boundary falls inside a character.
\<close>

section \<open>Decoders fed in chunks\<close>

fun feed :: "('s \<Rightarrow> 'b list \<Rightarrow> 's \<times> 'f list) \<Rightarrow> 's \<Rightarrow> 'b list list \<Rightarrow> 's \<times> 'f list" where
  "feed step s [] = (s, [])"
| "feed step s (c # cs) =
    (let (s1, f1) = step s c; (s2, f2) = feed step s1 cs in (s2, f1 @ f2))"

text \<open>
  \<open>idle\<close> are the states a decoder rests in between chunks, \<open>good\<close> the inputs it takes from a
  state. The law: a chunk may be cut anywhere.
\<close>

locale incremental =
  fixes step :: "'s \<Rightarrow> 'b list \<Rightarrow> 's \<times> 'f list"
    and idle :: "'s \<Rightarrow> bool"
    and good :: "'s \<Rightarrow> 'b list \<Rightarrow> bool"
  assumes step_nil: "idle s \<Longrightarrow> step s [] = (s, [])"
    and step_idle: "good s a \<Longrightarrow> idle (fst (step s a))"
    and good_split: "good s (a @ b) \<Longrightarrow> good s a \<and> good (fst (step s a)) b"
    and step_append: "good s (a @ b) \<Longrightarrow>
      step s (a @ b) = (let (s1, f1) = step s a; (s2, f2) = step s1 b in (s2, f1 @ f2))"
begin

lemma feed_concat: "idle s \<Longrightarrow> good s (concat cs) \<Longrightarrow> feed step s cs = step s (concat cs)"
proof (induction cs arbitrary: s)
  case Nil
  then show ?case by (simp add: step_nil)
next
  case (Cons c cs)
  then have "good s c" "good (fst (step s c)) (concat cs)" using good_split [of s c] by auto
  then have "feed step (fst (step s c)) cs = step (fst (step s c)) (concat cs)"
    using Cons.IH step_idle by blast
  then show ?case
    using step_append [of s c "concat cs"] Cons.prems(2) by (auto simp: split_beta)
qed

lemma chunking_irrelevant:
  assumes "idle s" "good s (concat cs)" "concat cs = concat ds"
  shows "feed step s cs = feed step s ds"
  using feed_concat [OF assms(1,2)] feed_concat [OF assms(1), of ds] assms(2,3) by simp

end

section \<open>The SSE decoder\<close>

record sse_frame =
  fr_event :: "string option"
  fr_data :: string

record sse_decoder =
  d_buf :: string
  d_event :: "string option"
  d_data :: "string list"

definition sse_new :: sse_decoder where
  "sse_new = \<lparr>d_buf = [], d_event = None, d_data = []\<rparr>"

abbreviation newline :: char where
  "newline \<equiv> CHR 0x0A"

abbreviation carriage_return :: char where
  "carriage_return \<equiv> CHR 0x0D"

text \<open>One turn of the loop of \<open>push\<close>: a line, its terminator included, already drained.\<close>

definition sse_line :: "sse_decoder \<Rightarrow> string \<Rightarrow> sse_decoder \<times> sse_frame list" where
  "sse_line d raw =
    (let line = trim_end_matches [newline, carriage_return] raw in
     if line = [] then
       (if d_data d \<noteq> [] \<or> d_event d \<noteq> None
        then (d\<lparr>d_event := None, d_data := []\<rparr>,
              [\<lparr>fr_event = d_event d, fr_data = join [newline] (d_data d)\<rparr>])
        else (d, []))
     else case strip_prefix ''event:'' line of
       Some v \<Rightarrow> (d\<lparr>d_event := Some (trim v)\<rparr>, [])
     | None \<Rightarrow>
        (case strip_prefix ''data:'' line of
           Some v \<Rightarrow>
             (d\<lparr>d_data := d_data d @ [case strip_prefix '' '' v of Some w \<Rightarrow> w | None \<Rightarrow> v]\<rparr>, [])
         | None \<Rightarrow> (d, [])))"

lemma sse_line_buf [simp]: "d_buf (fst (sse_line d raw)) = d_buf d"
  by (auto simp: sse_line_def Let_def split: option.splits)

function sse_loop :: "sse_decoder \<Rightarrow> sse_decoder \<times> sse_frame list" where
  "sse_loop d =
    (case find_pred (d_buf d) (\<lambda>c. c = newline) of
      None \<Rightarrow> (d, [])
    | Some nl \<Rightarrow>
        let (d1, f1) = sse_line (d\<lparr>d_buf := drop (Suc nl) (d_buf d)\<rparr>) (take (Suc nl) (d_buf d));
            (d2, f2) = sse_loop d1
        in (d2, f1 @ f2))"
  by pat_completeness auto
termination
proof (relation "measure (\<lambda>d. length (d_buf d))", goal_cases)
  case (2 d nl p d1 f1)
  then have "d_buf d1 = drop (Suc nl) (d_buf d)"
    using sse_line_buf [of "d\<lparr>d_buf := drop (Suc nl) (d_buf d)\<rparr>" "take (Suc nl) (d_buf d)"]
    by (metis fst_conv sse_decoder.select_convs(1) sse_decoder.surjective sse_decoder.update_convs(1))
  moreover have "nl < length (d_buf d)" using find_pred_take [OF 2(1)] by simp
  ultimately show ?case by simp
qed simp

declare sse_loop.simps [simp del]

definition sse_text :: "sse_decoder \<Rightarrow> string \<Rightarrow> sse_decoder \<times> sse_frame list" where
  "sse_text d t = sse_loop (d\<lparr>d_buf := d_buf d @ t\<rparr>)"

definition sse_push :: "sse_decoder \<Rightarrow> string \<Rightarrow> sse_decoder \<times> sse_frame list" where
  "sse_push d chunk = sse_text d (from_utf8_lossy chunk)"

definition sse_finish :: "sse_decoder \<Rightarrow> sse_decoder \<times> sse_frame list" where
  "sse_finish d =
    (if d_data d \<noteq> [] \<or> d_event d \<noteq> None
     then (d\<lparr>d_event := None, d_data := []\<rparr>,
           [\<lparr>fr_event = d_event d, fr_data = join [newline] (d_data d)\<rparr>])
     else
       let leftover = trim_end_matches [newline, carriage_return] (trim (d_buf d));
           d' = d\<lparr>d_buf := []\<rparr>
       in if leftover = [] then (d', [])
          else case strip_prefix ''data:'' leftover of
            Some v \<Rightarrow> (d', [\<lparr>fr_event = None, fr_data = trim v\<rparr>])
          | None \<Rightarrow> (d', [\<lparr>fr_event = None, fr_data = leftover\<rparr>]))"

section \<open>Chunking\<close>

definition sse_idle :: "sse_decoder \<Rightarrow> bool" where
  "sse_idle d \<longleftrightarrow> newline \<notin> set (d_buf d)"

lemma find_newline_None: "find_pred s (\<lambda>c. c = newline) = None \<longleftrightarrow> newline \<notin> set s"
  by (auto simp: find_pred_None)

lemma find_newline_append:
  "find_pred s (\<lambda>c. c = newline) = Some i \<Longrightarrow> find_pred (s @ t) (\<lambda>c. c = newline) = Some i"
  by (induction s arbitrary: i) (auto split: if_splits)

lemma sse_loop_idle: "sse_idle d \<Longrightarrow> sse_loop d = (d, [])"
  by (subst sse_loop.simps) (simp add: sse_idle_def find_newline_None [THEN iffD2])

lemma sse_loop_step:
  assumes "newline \<notin> set l"
  shows "sse_loop (d\<lparr>d_buf := l @ newline # rest\<rparr>) =
    (let (d1, f1) = sse_line (d\<lparr>d_buf := rest\<rparr>) (l @ [newline]); (d2, f2) = sse_loop d1
     in (d2, f1 @ f2))"
proof -
  have "find_pred (l @ newline # rest) (\<lambda>c. c = newline) = Some (length l)"
    using assms by (intro find_pred_append) auto
  then show ?thesis by (subst sse_loop.simps) simp
qed

lemma sse_loop_rests: "sse_idle (fst (sse_loop d))"
proof (induction d rule: sse_loop.induct)
  case (1 d)
  show ?case
  proof (cases "find_pred (d_buf d) (\<lambda>c. c = newline)")
    case None
    then have "sse_loop d = (d, [])" by (subst sse_loop.simps) simp
    with None show ?thesis by (simp add: sse_idle_def flip: find_newline_None)
  next
    case (Some nl)
    then show ?thesis
      using "1.IH" [OF Some refl prod.collapse] by (subst sse_loop.simps) (simp add: split_beta Let_def)
  qed
qed

lemma sse_line_more: "sse_line (d\<lparr>d_buf := b\<rparr>) raw =
    ((fst (sse_line d raw))\<lparr>d_buf := b\<rparr>, snd (sse_line d raw))"
  by (auto simp: sse_line_def Let_def split: option.splits)

lemma sse_loop_append:
  "sse_loop (d\<lparr>d_buf := d_buf d @ t\<rparr>) =
    (let (d1, f1) = sse_loop d; (d2, f2) = sse_loop (d1\<lparr>d_buf := d_buf d1 @ t\<rparr>) in (d2, f1 @ f2))"
proof (induction d rule: sse_loop.induct)
  case (1 d)
  show ?case
  proof (cases "find_pred (d_buf d) (\<lambda>c. c = newline)")
    case None
    then have "sse_loop d = (d, [])" by (subst sse_loop.simps) simp
    then show ?thesis by simp
  next
    case (Some nl)
    let ?b = "drop (Suc nl) (d_buf d)" and ?l = "take (Suc nl) (d_buf d)"
    let ?d1 = "fst (sse_line (d\<lparr>d_buf := ?b\<rparr>) ?l)" and ?f1 = "snd (sse_line (d\<lparr>d_buf := ?b\<rparr>) ?l)"
    have nl: "nl < length (d_buf d)" using find_pred_take [OF Some] by simp
    have L: "sse_loop d = (fst (sse_loop ?d1), ?f1 @ snd (sse_loop ?d1))"
      using Some by (subst sse_loop.simps) (simp add: split_beta Let_def)
    have "sse_line (d\<lparr>d_buf := ?b @ t\<rparr>) ?l = (?d1\<lparr>d_buf := d_buf ?d1 @ t\<rparr>, ?f1)"
      by (simp add: sse_line_more [where d = d])
    then have R: "sse_loop (d\<lparr>d_buf := d_buf d @ t\<rparr>) =
      (fst (sse_loop (?d1\<lparr>d_buf := d_buf ?d1 @ t\<rparr>)),
       ?f1 @ snd (sse_loop (?d1\<lparr>d_buf := d_buf ?d1 @ t\<rparr>)))"
      using find_newline_append [OF Some, of t] nl
      by (simp add: sse_loop.simps [of "d\<lparr>d_buf := d_buf d @ t\<rparr>"] split_beta Let_def)
    have "sse_loop (?d1\<lparr>d_buf := d_buf ?d1 @ t\<rparr>) =
      (let (d1, f1) = sse_loop ?d1; (d2, f2) = sse_loop (d1\<lparr>d_buf := d_buf d1 @ t\<rparr>)
       in (d2, f1 @ f2))"
      by (rule "1.IH" [OF Some refl prod.collapse])
    then show ?thesis unfolding L R by (simp add: split_beta Let_def)
  qed
qed

lemma sse_text_append:
  "sse_text d (a @ b) =
    (let (d1, f1) = sse_text d a; (d2, f2) = sse_text d1 b in (d2, f1 @ f2))"
  using sse_loop_append [of "d\<lparr>d_buf := d_buf d @ a\<rparr>" b] by (simp add: sse_text_def)

interpretation sse: incremental sse_text sse_idle "\<lambda>_ _. True"
proof
  fix s :: sse_decoder
  assume "sse_idle s"
  then show "sse_text s [] = (s, [])" by (simp add: sse_text_def sse_loop_idle)
next
  fix s :: sse_decoder and a b :: string
  show "sse_idle (fst (sse_text s a))" by (simp add: sse_text_def sse_loop_rests)
  show "sse_text s (a @ b) =
    (let (s1, f1) = sse_text s a; (s2, f2) = sse_text s1 b in (s2, f1 @ f2))"
    by (rule sse_text_append)
qed simp

text \<open>Chunks that are whole characters: the bytes decode to themselves.\<close>

lemma feed_push_text:
  "\<forall>c \<in> set cs. utf8_valid c \<Longrightarrow> feed sse_push d cs = feed sse_text d cs"
  by (induction cs arbitrary: d) (auto simp: sse_push_def lossy_valid split_beta)

lemma lossy_concat: "\<forall>c \<in> set cs. utf8_valid c \<Longrightarrow> from_utf8_lossy (concat cs) = concat cs"
  by (induction cs) (auto simp: lossy_append)

lemma feed_push_concat:
  assumes "\<forall>c \<in> set cs. utf8_valid c" "sse_idle d"
  shows "feed sse_push d cs = sse_push d (concat cs)"
  using sse.feed_concat [OF assms(2), of cs] assms(1)
  by (simp add: feed_push_text sse_push_def lossy_concat)

section \<open>Frames on the wire\<close>

text \<open>
  How a server writes a frame: an optional \<open>event\<close> line, any number of \<open>data\<close> lines, a blank
  line; \<open>eol\<close> is LF or CRLF. This is the decoder's specification, not code of the program.
\<close>

definition sse_wire :: "string \<Rightarrow> string option \<Rightarrow> string list \<Rightarrow> string" where
  "sse_wire eol ev ls =
    (case ev of None \<Rightarrow> [] | Some e \<Rightarrow> ''event: '' @ e @ eol) @
    concat (map (\<lambda>l. ''data: '' @ l @ eol) ls) @ eol"

definition is_eol :: "string \<Rightarrow> bool" where
  "is_eol eol \<longleftrightarrow> eol = [newline] \<or> eol = [carriage_return, newline]"

definition clean_line :: "string \<Rightarrow> bool" where
  "clean_line l \<longleftrightarrow> newline \<notin> set l \<and> (l = [] \<or> last l \<noteq> carriage_return)"

definition wire_frame :: "string option \<Rightarrow> string list \<Rightarrow> bool" where
  "wire_frame ev ls \<longleftrightarrow>
    (ev \<noteq> None \<or> ls \<noteq> []) \<and> list_all clean_line ls \<and>
    (case ev of None \<Rightarrow> True | Some e \<Rightarrow> clean_line e \<and> trimmed e)"

definition frame_of :: "string option \<Rightarrow> string list \<Rightarrow> sse_frame" where
  "frame_of ev ls = \<lparr>fr_event = ev, fr_data = join [newline] ls\<rparr>"

lemma trim_eol:
  assumes "is_eol eol" "t = [] \<or> last t \<notin> {newline, carriage_return}"
  shows "trim_end_matches [newline, carriage_return] (t @ eol) = t"
proof -
  have "trim_end_matches [newline, carriage_return] t = t"
    using assms(2) by (intro trim_end_matches_id) auto
  with assms(1) show ?thesis
    using trim_end_matches_snoc [of newline "[newline, carriage_return]" t]
      trim_end_matches_snoc [of carriage_return "[newline, carriage_return]" t]
      trim_end_matches_snoc [of newline "[newline, carriage_return]" "t @ [carriage_return]"]
    by (auto simp: is_eol_def)
qed

lemma clean_last: "clean_line l \<Longrightarrow> p \<noteq> [] \<Longrightarrow> last p \<notin> {newline, carriage_return} \<Longrightarrow>
    last (p @ l) \<notin> {newline, carriage_return}"
  by (cases "l = []") (auto simp: clean_line_def dest: last_in_set)

lemma sse_line_data:
  assumes "is_eol eol" "clean_line l"
  shows "sse_line d (''data: '' @ l @ eol) = (d\<lparr>d_data := d_data d @ [l]\<rparr>, [])"
proof -
  have "last (''data: '' @ l) \<notin> {newline, carriage_return}"
    using assms(2) by (rule clean_last) simp_all
  then have "trim_end_matches [newline, carriage_return] ((''data: '' @ l) @ eol) = ''data: '' @ l"
    by (intro trim_eol [OF assms(1)]) blast
  then show ?thesis by (simp add: sse_line_def Let_def)
qed

lemma sse_line_event:
  assumes "is_eol eol" "clean_line e" "trimmed e"
  shows "sse_line d (''event: '' @ e @ eol) = (d\<lparr>d_event := Some e\<rparr>, [])"
proof -
  have "last (''event: '' @ e) \<notin> {newline, carriage_return}"
    using assms(2) by (rule clean_last) simp_all
  then have "trim_end_matches [newline, carriage_return] ((''event: '' @ e) @ eol) = ''event: '' @ e"
    by (intro trim_eol [OF assms(1)]) blast
  then show ?thesis using trim_space_trimmed [OF assms(3)] by (simp add: sse_line_def Let_def)
qed

lemma sse_line_blank:
  assumes "is_eol eol" "d_data d \<noteq> [] \<or> d_event d \<noteq> None"
  shows "sse_line d eol =
    (d\<lparr>d_event := None, d_data := []\<rparr>, [frame_of (d_event d) (d_data d)])"
  using trim_eol [OF assms(1), of "[]"] assms(2) by (simp add: sse_line_def frame_of_def)

text \<open>A whole line ahead of the buffered text is consumed first.\<close>

lemma sse_loop_eol:
  assumes "is_eol eol" "newline \<notin> set l" "sse_line (d\<lparr>d_buf := rest\<rparr>) (l @ eol) = (d1, f1)"
  shows "sse_loop (d\<lparr>d_buf := l @ eol @ rest\<rparr>) = (fst (sse_loop d1), f1 @ snd (sse_loop d1))"
proof -
  obtain l' where l': "l @ eol @ rest = l' @ newline # rest" "l @ eol = l' @ [newline]"
    "newline \<notin> set l'"
    using assms(1,2) by (auto simp: is_eol_def)
  have "sse_loop (d\<lparr>d_buf := l' @ newline # rest\<rparr>) = (fst (sse_loop d1), f1 @ snd (sse_loop d1))"
    using assms(3) unfolding sse_loop_step [OF l'(3)] l'(2) by (simp add: split_beta)
  then show ?thesis by (simp only: l'(1))
qed

lemma sse_loop_quiet:
  assumes "is_eol eol" "newline \<notin> set l" "sse_line (d\<lparr>d_buf := rest\<rparr>) (l @ eol) = (d1, [])"
  shows "sse_loop (d\<lparr>d_buf := l @ eol @ rest\<rparr>) = sse_loop d1"
  using sse_loop_eol [OF assms] by simp

lemma sse_loop_datas:
  assumes "is_eol eol" "list_all clean_line ls"
  shows "sse_loop (d\<lparr>d_buf := concat (map (\<lambda>l. ''data: '' @ l @ eol) ls) @ rest\<rparr>) =
    sse_loop (d\<lparr>d_data := d_data d @ ls, d_buf := rest\<rparr>)"
  using assms(2)
proof (induction ls arbitrary: d)
  case (Cons l ls)
  let ?rest = "concat (map (\<lambda>l. ''data: '' @ l @ eol) ls) @ rest"
  have "clean_line l" using Cons.prems by simp
  then have nl: "newline \<notin> set (''data: '' @ l)" by (auto simp: clean_line_def)
  have line: "sse_line (d\<lparr>d_buf := ?rest\<rparr>) ((''data: '' @ l) @ eol) =
      (d\<lparr>d_data := d_data d @ [l], d_buf := ?rest\<rparr>, [])"
    using sse_line_data [OF assms(1) \<open>clean_line l\<close>, of "d\<lparr>d_buf := ?rest\<rparr>"] by simp
  have "sse_loop (d\<lparr>d_buf := (''data: '' @ l) @ eol @ ?rest\<rparr>) =
      sse_loop ((d\<lparr>d_data := d_data d @ [l]\<rparr>)\<lparr>d_buf := ?rest\<rparr>)"
    by (rule sse_loop_quiet [OF assms(1) nl line])
  also have "\<dots> = sse_loop (d\<lparr>d_data := d_data d @ l # ls, d_buf := rest\<rparr>)"
    using Cons.IH [of "d\<lparr>d_data := d_data d @ [l]\<rparr>"] Cons.prems by simp
  finally show ?case by simp
qed simp

lemma sse_loop_frame:
  assumes "is_eol eol" "wire_frame ev ls"
  shows "sse_loop (sse_new\<lparr>d_buf := sse_wire eol ev ls @ rest\<rparr>) =
    (let (d2, f2) = sse_loop (sse_new\<lparr>d_buf := rest\<rparr>) in (d2, frame_of ev ls # f2))"
proof -
  let ?datas = "concat (map (\<lambda>l. ''data: '' @ l @ eol) ls)"
  let ?d = "sse_new\<lparr>d_event := ev\<rparr>"
  have "sse_loop (sse_new\<lparr>d_buf := sse_wire eol ev ls @ rest\<rparr>) =
      sse_loop (?d\<lparr>d_buf := ?datas @ eol @ rest\<rparr>)"
  proof (cases ev)
    case (Some e)
    then have e: "clean_line e" "trimmed e" using assms(2) by (simp_all add: wire_frame_def)
    then have nl: "newline \<notin> set (''event: '' @ e)" by (auto simp: clean_line_def)
    have line: "sse_line (sse_new\<lparr>d_buf := ?datas @ eol @ rest\<rparr>) ((''event: '' @ e) @ eol) =
        (?d\<lparr>d_buf := ?datas @ eol @ rest\<rparr>, [])"
      using sse_line_event [OF assms(1) e, of "sse_new\<lparr>d_buf := ?datas @ eol @ rest\<rparr>"] Some by simp
    have "sse_loop (sse_new\<lparr>d_buf := (''event: '' @ e) @ eol @ ?datas @ eol @ rest\<rparr>) =
        sse_loop (?d\<lparr>d_buf := ?datas @ eol @ rest\<rparr>)"
      by (rule sse_loop_quiet [OF assms(1) nl line])
    then show ?thesis using Some by (simp add: sse_wire_def)
  qed (simp add: sse_wire_def sse_new_def)
  also have "\<dots> = sse_loop (?d\<lparr>d_data := ls, d_buf := [] @ eol @ rest\<rparr>)"
    using sse_loop_datas [OF assms(1), where ls = ls and d = ?d and rest = "eol @ rest"] assms(2)
    by (simp add: wire_frame_def sse_new_def)
  also have "\<dots> = (let (d2, f2) = sse_loop (sse_new\<lparr>d_buf := rest\<rparr>) in (d2, frame_of ev ls # f2))"
  proof -
    have "sse_line (?d\<lparr>d_data := ls, d_buf := rest\<rparr>) ([] @ eol) =
        (sse_new\<lparr>d_buf := rest\<rparr>, [frame_of ev ls])"
      using sse_line_blank [OF assms(1), of "?d\<lparr>d_data := ls, d_buf := rest\<rparr>"] assms(2)
      by (auto simp: wire_frame_def sse_new_def)
    then show ?thesis
      using sse_loop_eol [OF assms(1), where l = "[]" and d = "?d\<lparr>d_data := ls\<rparr>" and rest = rest]
      by (simp add: split_beta)
  qed
  finally show ?thesis .
qed

lemma sse_text_frames:
  assumes "is_eol eol" "\<forall>(ev, ls) \<in> set fs. wire_frame ev ls"
  shows "sse_text sse_new (concat (map (\<lambda>(ev, ls). sse_wire eol ev ls) fs)) =
    (sse_new, map (\<lambda>(ev, ls). frame_of ev ls) fs)"
  using assms(2)
proof (induction fs)
  case Nil
  then show ?case by (simp add: sse_text_def sse_loop_idle sse_idle_def sse_new_def)
next
  case (Cons f fs)
  obtain ev ls where f: "f = (ev, ls)" by (cases f)
  then show ?case
    using sse_loop_frame [OF assms(1), of ev ls "concat (map (\<lambda>(ev, ls). sse_wire eol ev ls) fs)"] Cons
    by (simp add: sse_text_def sse_new_def)
qed

lemma sse_feed_frames:
  assumes "is_eol eol" "\<forall>(ev, ls) \<in> set fs. wire_frame ev ls"
    and "concat cs = concat (map (\<lambda>(ev, ls). sse_wire eol ev ls) fs)"
    and "\<forall>c \<in> set cs. utf8_valid c"
  shows "feed sse_push sse_new cs = (sse_new, map (\<lambda>(ev, ls). frame_of ev ls) fs)"
proof -
  have "feed sse_push sse_new cs = sse_text sse_new (concat cs)"
    using feed_push_concat [OF assms(4)] lossy_concat [OF assms(4)]
    by (simp add: sse_push_def sse_idle_def sse_new_def)
  then show ?thesis using sse_text_frames [OF assms(1,2)] assms(3) by simp
qed

text \<open>
  A frame is decoded exactly once however the stream is cut: for any list of well-formed frames
  written with LF or CRLF, and any way of splitting the bytes into chunks that do not cut a
  character, pushing the chunks one by one yields exactly those frames in order and leaves the
  decoder as new.
\<close>

lemma sse_frames_decode_exactly_once:
  assumes "is_eol eol" "\<forall>(ev, ls) \<in> set fs. wire_frame ev ls"
    and "concat cs = concat (map (\<lambda>(ev, ls). sse_wire eol ev ls) fs)"
    and "\<forall>c \<in> set cs. utf8_valid c"
  shows "feed sse_push sse_new cs = (sse_new, map (\<lambda>(ev, ls). frame_of ev ls) fs)"
  by (rule sse_feed_frames [OF assms])

lemma sse_frames_decode_exactly_once_witness:
  "feed sse_push sse_new [''event: mes'', ''sage_delta'' @ [newline] @ ''data: {x'', ''}'' @ [newline, newline]] =
    (sse_new, [frame_of (Some ''message_delta'') [''{x}'']])"
proof -
  let ?cs = "[''event: mes'', ''sage_delta'' @ [newline] @ ''data: {x'', ''}'' @ [newline, newline]]"
  have "is_eol [newline]" by (simp add: is_eol_def)
  moreover have "\<forall>(ev, ls) \<in> set [(Some ''message_delta'', [''{x}''])]. wire_frame ev ls"
    by (simp add: wire_frame_def clean_line_def trimmed_def ws_first_def ws_last_def white_space_def)
  moreover have "concat ?cs = concat (map (\<lambda>(ev, ls). sse_wire [newline] ev ls)
      [(Some ''message_delta'', [''{x}''])])"
    by (simp add: sse_wire_def)
  moreover have "\<forall>c \<in> set ?cs. utf8_valid c"
    by (auto intro!: is_ascii_valid simp: is_ascii_def)
  ultimately show ?thesis
    using sse_frames_decode_exactly_once [of "[newline]" "[(Some ''message_delta'', [''{x}''])]" ?cs]
    by simp
qed

section \<open>What push and finish lose\<close>

text \<open>
  A chunk boundary inside a character is not harmless: each half is replaced by U+FFFD, because
  every chunk is decoded on its own.
\<close>

lemma sse_split_character_corrupts:
  "snd (feed sse_push sse_new [''data: '' @ [CHR 0xC3], [CHR 0xA9, newline, newline]]) =
      [frame_of None [replacement @ replacement]] \<and>
   snd (feed sse_push sse_new [''data: '' @ [CHR 0xC3, CHR 0xA9, newline, newline]]) =
      [frame_of None [[CHR 0xC3, CHR 0xA9]]]"
  by (intro conjI; code_simp)

text \<open>
  \<open>finish\<close> emits the pending event and data lines but not a last line without a terminator: an
  \<open>event\<close> line followed by an unterminated \<open>data\<close> line gives a frame with empty data.
\<close>

lemma sse_finish_drops_unterminated_data:
  "snd (sse_finish (fst (sse_push sse_new (''event: response.completed'' @ [newline] @ ''data: {}'')))) =
    [\<lparr>fr_event = Some ''response.completed'', fr_data = []\<rparr>]"
  by code_simp

end
