(* ===== verification/Wire_Reference.thy ===== *)
theory Wire_Reference
  imports Wire_Sse
begin

text \<open>
  What the decoder of server-sent events (\<open>crates/tailfin-wire/src/lib.rs\<close>) computes, without its loop,
  its buffer or its chunks: the text is cut at its line ends, the lines at the blank ones into blocks,
  and every block that says anything is a frame. The decoder agrees with this reading on every input.
\<close>

section \<open>Lines and blocks\<close>

definition line_text :: "string \<Rightarrow> string" where
  "line_text l = trim_end_matches [newline, carriage_return] l"

definition event_value :: "string \<Rightarrow> string option" where
  "event_value l = map_option trim (strip_prefix ''event:'' l)"

definition data_value :: "string \<Rightarrow> string option" where
  "data_value l = map_option (\<lambda>v. case strip_prefix '' '' v of Some w \<Rightarrow> w | None \<Rightarrow> v) (strip_prefix ''data:'' l)"

text \<open>The blocks between blank lines; the last one is still open.\<close>

fun blocks :: "string list \<Rightarrow> string list list" where
  "blocks [] = [[]]"
| "blocks (l # ls) =
    (if l = [] then [] # blocks ls else (l # hd (blocks ls)) # tl (blocks ls))"

text \<open>The last event line of a block counts, and all of its data lines; other lines say nothing.\<close>

definition block_event :: "string list \<Rightarrow> string option" where
  "block_event b = (case List.map_filter event_value b of [] \<Rightarrow> None | vs \<Rightarrow> Some (last vs))"

definition block_data :: "string list \<Rightarrow> string list" where
  "block_data b = List.map_filter data_value b"

definition block_frame :: "string list \<Rightarrow> sse_frame option" where
  "block_frame b =
    (if block_data b = [] \<and> block_event b = None then None
     else Some \<lparr>fr_event = block_event b, fr_data = join [newline] (block_data b)\<rparr>)"

text \<open>The frames of a text, and what is left of it: an open block and the line after the last line end.\<close>

definition text_blocks :: "string \<Rightarrow> string list list" where
  "text_blocks t = blocks (map line_text (butlast (split_on newline t)))"

definition sse_reading :: "string \<Rightarrow> sse_decoder \<times> sse_frame list" where
  "sse_reading t =
    (let bs = text_blocks t
     in (\<lparr>d_buf = last (split_on newline t), d_event = block_event (last bs), d_data = block_data (last bs)\<rparr>,
         List.map_filter block_frame (butlast bs)))"

text \<open>
  The end of the stream. An open block that says anything is its last frame, whatever stands in the line
  after it. Only without one does that line count, unless it is white space: without its field name
  when it is a data line, and as it is otherwise, such as a body of bare JSON.
\<close>

definition unfinished_frame :: "string \<Rightarrow> sse_frame option" where
  "unfinished_frame rest =
    (let l = line_text (trim rest) in
     if l = [] then None
     else Some \<lparr>fr_event = None, fr_data = (case strip_prefix ''data:'' l of Some v \<Rightarrow> trim v | None \<Rightarrow> l)\<rparr>)"

definition stream_frames :: "string \<Rightarrow> sse_frame list" where
  "stream_frames t =
    List.map_filter block_frame (butlast (text_blocks t)) @
    (case block_frame (last (text_blocks t)) of
       Some f \<Rightarrow> [f]
     | None \<Rightarrow> (case unfinished_frame (last (split_on newline t)) of Some f \<Rightarrow> [f] | None \<Rightarrow> []))"

section \<open>The decoder computes it\<close>

lemma blocks_not_Nil [simp]: "blocks ls \<noteq> []"
  by (cases ls) simp_all

lemma map_filter_append: "List.map_filter f (xs @ ys) = List.map_filter f xs @ List.map_filter f ys"
  by (simp add: map_filter_def)

lemma block_event_append:
  "block_event (b @ [l]) = (case event_value l of Some v \<Rightarrow> Some v | None \<Rightarrow> block_event b)"
proof -
  have alt: "block_event b = (if List.map_filter event_value b = [] then None else Some (last (List.map_filter event_value b)))" for b
    by (simp add: block_event_def split: list.split)
  show ?thesis unfolding alt map_filter_append by (simp add: map_filter_def split: option.split)
qed

lemma block_data_append:
  "block_data (b @ [l]) = block_data b @ (case data_value l of Some v \<Rightarrow> [v] | None \<Rightarrow> [])"
  by (auto simp: block_data_def map_filter_append map_filter_def split: option.split)

lemma event_or_data: "event_value l \<noteq> None \<Longrightarrow> data_value l = None"
  by (cases "strip_prefix ''data:'' l") (auto simp: event_value_def data_value_def strip_prefix_Some)

text \<open>The decoder in the middle of a block, with some text ahead of it.\<close>

definition in_block :: "string list \<Rightarrow> string \<Rightarrow> sse_decoder" where
  "in_block b rest = \<lparr>d_buf = rest, d_event = block_event b, d_data = block_data b\<rparr>"

lemma in_block_line:
  "sse_line (in_block b rest) (l @ [newline]) =
    (if line_text l = [] then (in_block [] rest, List.map_filter block_frame [b])
     else (in_block (b @ [line_text l]) rest, []))"
proof -
  have "trim_end_matches [newline, carriage_return] (l @ [newline]) = line_text l"
    by (simp add: line_text_def trim_end_matches_snoc)
  then show ?thesis
    using event_or_data [of "line_text l"]
    by (auto simp: sse_line_def in_block_def block_event_append block_data_append block_frame_def map_filter_def
        event_value_def data_value_def block_event_def [of "[]"] block_data_def [of "[]"] Let_def
        split: option.splits)
qed

lemma in_block_loop:
  assumes "list_all (\<lambda>l. newline \<notin> set l) ls" "newline \<notin> set rest"
  shows "sse_loop (in_block b (concat (map (\<lambda>l. l @ [newline]) ls) @ rest)) =
    (let bs = blocks (map line_text ls); bs' = (b @ hd bs) # tl bs
     in (in_block (last bs') rest, List.map_filter block_frame (butlast bs')))"
  using assms(1)
proof (induction ls arbitrary: b)
  case Nil
  then show ?case using assms(2) by (simp add: sse_loop_idle sse_idle_def in_block_def map_filter_def)
next
  case (Cons l ls)
  let ?t = "concat (map (\<lambda>l. l @ [newline]) ls) @ rest"
  have buf: "(in_block b x)\<lparr>d_buf := y\<rparr> = in_block b y" for x y by (simp add: in_block_def)
  have "sse_loop (in_block b (l @ newline # ?t)) =
      (let (d1, f1) = sse_line (in_block b ?t) (l @ [newline]); (d2, f2) = sse_loop d1 in (d2, f1 @ f2))"
    using sse_loop_step [where l = l and d = "in_block b []" and rest = ?t] Cons.prems by (simp add: buf)
  then show ?case
    using Cons.IH [of "[]"] Cons.IH [of "b @ [line_text l]"] Cons.prems
    by (cases "blocks (map line_text ls)") (auto simp: in_block_line map_filter_def Let_def)
qed

lemma split_on_clean: "list_all (\<lambda>l. d \<notin> set l) (split_on d s)"
  by (induction d s rule: split_on.induct) (auto split: list.splits)

lemma split_on_lines: "concat (map (\<lambda>l. l @ [d]) (butlast (split_on d s))) @ last (split_on d s) = s"
  by (induction d s rule: split_on.induct) (auto split: list.splits)

lemma sse_text_reading: "sse_text sse_new t = sse_reading t"
proof -
  let ?ps = "split_on newline t"
  have "list_all (\<lambda>l. newline \<notin> set l) (butlast ?ps)" "newline \<notin> set (last ?ps)"
    using split_on_clean [of newline t] split_on_not_Nil [of newline t]
    by (auto simp: list_all_iff dest: in_set_butlastD)
  from in_block_loop [OF this, of "[]"] have "sse_loop (in_block [] t) =
      (let bs = text_blocks t; bs' = ([] @ hd bs) # tl bs
       in (in_block (last bs') (last ?ps), List.map_filter block_frame (butlast bs')))"
    unfolding split_on_lines text_blocks_def .
  moreover have open_block: "([] @ hd (text_blocks t)) # tl (text_blocks t) = text_blocks t"
    by (simp add: text_blocks_def)
  ultimately have "sse_loop (in_block [] t) =
      (in_block (last (text_blocks t)) (last ?ps), List.map_filter block_frame (butlast (text_blocks t)))"
    by (simp only: Let_def open_block)
  moreover have "sse_new\<lparr>d_buf := d_buf sse_new @ t\<rparr> = in_block [] t"
    by (simp add: sse_new_def in_block_def block_event_def block_data_def map_filter_def)
  ultimately show ?thesis by (simp add: sse_text_def sse_reading_def in_block_def Let_def)
qed

text \<open>
  C12. The decoder is its specification, on every input: for any bytes in any chunks, well-formed or not, the
  frames pushed out are those of the blocks that are closed by a blank line in the text that the chunks
  decode to, each chunk on its own, and what the decoder keeps is the open block and the unfinished
  line. Finishing it, wherever the text stops, adds the frame of the open block, or, when that says
  nothing, the frame of the unfinished line.
\<close>

theorem sse_decoder_is_its_reading:
  "let t = concat (map from_utf8_lossy cs); (d, fs) = feed sse_push sse_new cs in
     (d, fs) = sse_reading t \<and> fs @ snd (sse_finish d) = stream_frames t"
proof -
  let ?t = "concat (map from_utf8_lossy cs)"
  have "feed sse_push d cs = feed sse_text d (map from_utf8_lossy cs)" for d
    by (induction cs arbitrary: d) (simp_all add: sse_push_def)
  then have reading: "feed sse_push sse_new cs = sse_reading ?t"
    using sse.feed_concat [of sse_new "map from_utf8_lossy cs"] sse_text_reading [of ?t]
    by (simp add: sse_idle_def sse_new_def)
  have "snd (sse_reading ?t) @ snd (sse_finish (fst (sse_reading ?t))) = stream_frames ?t"
    by (auto simp: stream_frames_def sse_reading_def sse_finish_def block_frame_def unfinished_frame_def line_text_def
        Let_def split: option.split)
  then show ?thesis by (simp add: reading split_beta Let_def)
qed

text \<open>
  Two data lines around a comment, a block of nothing, and a frame that is never closed; and the body of an
  error that is no event stream at all.
\<close>

definition sample_stream :: string where
  "sample_stream =
    ''data: a'' @ [newline] @ '': hi'' @ [newline] @ ''data:b'' @ [carriage_return, newline, newline, newline] @
    ''event: e'' @ [newline]"

theorem sse_decoder_is_its_reading_witness:
  "(let (d, fs) = feed sse_push sse_new [sample_stream] in fs @ snd (sse_finish d) =
     [\<lparr>fr_event = None, fr_data = ''a'' @ [newline] @ ''b''\<rparr>, \<lparr>fr_event = Some ''e'', fr_data = []\<rparr>]) \<and>
   (let (d, fs) = feed sse_push sse_new [''{oh '', ''no}''] in fs @ snd (sse_finish d) =
     [\<lparr>fr_event = None, fr_data = ''{oh no}''\<rparr>])"
proof -
  have "from_utf8_lossy sample_stream = sample_stream" "from_utf8_lossy ''{oh '' = ''{oh ''" "from_utf8_lossy ''no}'' = ''no}''"
    by (intro lossy_valid is_ascii_valid; simp add: sample_stream_def is_ascii_def)+
  moreover have "stream_frames sample_stream =
      [\<lparr>fr_event = None, fr_data = ''a'' @ [newline] @ ''b''\<rparr>, \<lparr>fr_event = Some ''e'', fr_data = []\<rparr>]"
    "stream_frames ''{oh no}'' = [\<lparr>fr_event = None, fr_data = ''{oh no}''\<rparr>]"
    by code_simp+
  ultimately show ?thesis
    using sse_decoder_is_its_reading [of "[sample_stream]", unfolded split_beta Let_def, THEN conjunct2]
      sse_decoder_is_its_reading [of "[''{oh '', ''no}'']", unfolded split_beta Let_def, THEN conjunct2]
    unfolding split_beta Let_def by simp
qed

end
