(* ===== verification/Rust_Float.thy ===== *)
theory Rust_Float
  imports Complex_Main Rust_Text
begin

text \<open>
  IEEE 754 floating point as far as the crates use \<open>f64\<close> and \<open>f32\<close>. A finite value is the
  rational it denotes (the sign of a zero is not kept: no operation here can observe it). Every
  arithmetic operation is the exact rational result rounded to nearest, ties to even, at the
  precision and exponent range of the format.
\<close>

section \<open>Values and rounding\<close>

datatype fp = FNaN | FInf bool | Fin rat

fun ilog2 :: "nat \<Rightarrow> nat" where
  "ilog2 n = (if n < 2 then 0 else Suc (ilog2 (n div 2)))"

declare ilog2.simps [simp del]

text \<open>The exponent \<open>e\<close> with \<open>2 ^ e \<le> q < 2 ^ (e + 1)\<close>, for \<open>0 < q\<close>.\<close>

definition binade :: "rat \<Rightarrow> int" where
  "binade q =
    (if 1 \<le> q then int (ilog2 (nat \<lfloor>q\<rfloor>))
     else - (int (ilog2 (nat (\<lceil>1 / q\<rceil> - 1))) + 1))"

definition round_half_even :: "rat \<Rightarrow> int" where
  "round_half_even q =
    (let f = \<lfloor>q\<rfloor>; r = q - of_int f
     in if r < 1 / 2 then f else if 1 / 2 < r then f + 1 else if even f then f else f + 1)"

definition fp_ulp :: "nat \<Rightarrow> int \<Rightarrow> rat \<Rightarrow> rat" where
  "fp_ulp p emin q = 2 powi (max (binade q) emin - int (p - 1))"

definition fp_round_pos :: "nat \<Rightarrow> int \<Rightarrow> rat \<Rightarrow> rat" where
  "fp_round_pos p emin q = of_int (round_half_even (q / fp_ulp p emin q)) * fp_ulp p emin q"

definition fp_round :: "nat \<Rightarrow> int \<Rightarrow> int \<Rightarrow> rat \<Rightarrow> fp" where
  "fp_round p emin emax q =
    (if q = 0 then Fin 0
     else let r = fp_round_pos p emin \<bar>q\<bar>
          in if emax < binade r then FInf (q < 0) else Fin (sgn q * r))"

definition f64_round :: "rat \<Rightarrow> fp" where
  "f64_round = fp_round 53 (- 1022) 1023"

definition f32_round :: "rat \<Rightarrow> fp" where
  "f32_round = fp_round 24 (- 126) 127"

section \<open>The operations the crates use\<close>

definition f64_of_u64 :: "u64 \<Rightarrow> fp" where
  "f64_of_u64 w = f64_round (of_nat (unat w))"

fun f64_mul :: "fp \<Rightarrow> fp \<Rightarrow> fp" where
  "f64_mul (Fin a) (Fin b) = f64_round (a * b)"
| "f64_mul (FInf s) (FInf t) = FInf (s \<noteq> t)"
| "f64_mul (FInf s) (Fin b) = (if b = 0 then FNaN else FInf (s \<noteq> (b < 0)))"
| "f64_mul (Fin a) (FInf t) = (if a = 0 then FNaN else FInf (t \<noteq> (a < 0)))"
| "f64_mul _ _ = FNaN"

fun fp_div :: "(rat \<Rightarrow> fp) \<Rightarrow> fp \<Rightarrow> fp \<Rightarrow> fp" where
  "fp_div rnd (Fin a) (Fin b) =
    (if b = 0 then (if a = 0 then FNaN else FInf (a < 0)) else rnd (a / b))"
| "fp_div rnd (FInf s) (Fin b) = FInf (s \<noteq> (b < 0))"
| "fp_div rnd (Fin a) (FInf t) = Fin 0"
| "fp_div rnd _ _ = FNaN"

definition f64_div :: "fp \<Rightarrow> fp \<Rightarrow> fp" where
  "f64_div = fp_div f64_round"

definition f32_div :: "fp \<Rightarrow> fp \<Rightarrow> fp" where
  "f32_div = fp_div f32_round"

fun fp_floor :: "fp \<Rightarrow> fp" where
  "fp_floor (Fin a) = Fin (of_int \<lfloor>a\<rfloor>)"
| "fp_floor x = x"

text \<open>\<open>as u64\<close> truncates and saturates; NaN becomes 0.\<close>

fun fp_as_u64 :: "fp \<Rightarrow> u64" where
  "fp_as_u64 (Fin a) = (if a < 0 then 0 else if 2 ^ 64 \<le> a then - 1 else of_int \<lfloor>a\<rfloor>)"
| "fp_as_u64 (FInf s) = (if s then 0 else - 1)"
| "fp_as_u64 FNaN = 0"

fun fp_lt :: "fp \<Rightarrow> fp \<Rightarrow> bool" where
  "fp_lt (Fin a) (Fin b) \<longleftrightarrow> a < b"
| "fp_lt (FInf s) (FInf t) \<longleftrightarrow> s \<and> \<not> t"
| "fp_lt (FInf s) (Fin b) \<longleftrightarrow> s"
| "fp_lt (Fin a) (FInf t) \<longleftrightarrow> \<not> t"
| "fp_lt _ _ \<longleftrightarrow> False"

definition fp_clamp :: "fp \<Rightarrow> fp \<Rightarrow> fp \<Rightarrow> fp" where
  "fp_clamp x lo hi = (if fp_lt x lo then lo else if fp_lt hi x then hi else x)"

text \<open>\<open>{:.k}\<close>: exactly \<open>k\<close> decimals, the exact value rounded to nearest, ties to even.\<close>

definition fmt_digits :: "nat \<Rightarrow> nat \<Rightarrow> string" where
  "fmt_digits k n =
    show_nat (n div 10 ^ k) @
    (if k = 0 then [] else CHR ''.'' # pad_left (CHR ''0'') k (show_nat (n mod 10 ^ k)))"

fun fmt_fixed :: "nat \<Rightarrow> fp \<Rightarrow> string" where
  "fmt_fixed k (Fin q) =
    (if q < 0 then ''-'' else []) @ fmt_digits k (nat (round_half_even (\<bar>q\<bar> * 10 ^ k)))"
| "fmt_fixed k (FInf s) = (if s then ''-inf'' else ''inf'')"
| "fmt_fixed k FNaN = ''NaN''"

section \<open>Reading a number\<close>

text \<open>
  \<open>str::parse::<f64>\<close>: an optional sign, then infinity or NaN in any case, or decimal digits with at
  most one dot and at least one digit, and an optional exponent; the exact value, rounded once.
\<close>

definition parse_exponent :: "string \<Rightarrow> int option" where
  "parse_exponent s =
    (let neg = (s \<noteq> [] \<and> hd s = CHR ''-'');
         t = (if s \<noteq> [] \<and> hd s \<in> {CHR ''+'', CHR ''-''} then tl s else s)
     in if t \<noteq> [] \<and> list_all is_ascii_digit t
        then Some (if neg then - int (digits_val t) else int (digits_val t)) else None)"

definition parse_mantissa :: "string \<Rightarrow> rat option" where
  "parse_mantissa s =
    (let a = takeWhile (\<lambda>c. c \<noteq> CHR ''.'') s;
         b = drop 1 (dropWhile (\<lambda>c. c \<noteq> CHR ''.'') s)
     in if a @ b \<noteq> [] \<and> list_all is_ascii_digit (a @ b)
        then Some (of_nat (digits_val (a @ b)) / 10 ^ length b) else None)"

definition parse_decimal :: "string \<Rightarrow> rat option" where
  "parse_decimal s =
    (let e = (\<lambda>c. c = CHR ''e'' \<or> c = CHR ''E'');
         m = takeWhile (\<lambda>c. \<not> e c) s;
         x = (if m = s then Some 0 else parse_exponent (drop 1 (dropWhile (\<lambda>c. \<not> e c) s)))
     in case (parse_mantissa m, x) of (Some q, Some k) \<Rightarrow> Some (q * 10 powi k) | _ \<Rightarrow> None)"

definition parse_f64 :: "string \<Rightarrow> fp option" where
  "parse_f64 s =
    (let neg = (s \<noteq> [] \<and> hd s = CHR ''-'');
         t = (if s \<noteq> [] \<and> hd s \<in> {CHR ''+'', CHR ''-''} then tl s else s);
         l = to_ascii_lowercase t
     in if l = ''inf'' \<or> l = ''infinity'' then Some (FInf neg)
        else if l = ''nan'' then Some FNaN
        else map_option (\<lambda>q. f64_round (if neg then - q else q)) (parse_decimal t))"

section \<open>Rounding lemmas\<close>

lemma round_half_even_of_int [simp]: "round_half_even (of_int n) = n"
  by (simp add: round_half_even_def)

lemma round_half_even_le: "q \<le> of_int n \<Longrightarrow> round_half_even q \<le> n"
proof -
  assume q: "q \<le> of_int n"
  then have f: "\<lfloor>q\<rfloor> \<le> n" by linarith
  show ?thesis
  proof (cases "\<lfloor>q\<rfloor> = n")
    case True
    with q have "q = of_int n" by linarith
    then show ?thesis by simp
  next
    case False
    with f have "\<lfloor>q\<rfloor> + 1 \<le> n" by linarith
    with f show ?thesis by (simp add: round_half_even_def Let_def)
  qed
qed

lemma round_half_even_ge: "of_int n \<le> q \<Longrightarrow> n \<le> round_half_even q"
  by (auto simp: round_half_even_def Let_def) linarith+

lemma ilog2_bounds: "0 < n \<Longrightarrow> 2 ^ ilog2 n \<le> n \<and> n < 2 ^ Suc (ilog2 n)"
proof (induction n rule: ilog2.induct)
  case (1 n)
  show ?case
  proof (cases "n < 2")
    case True
    with "1.prems" show ?thesis by (simp add: ilog2.simps [of n])
  next
    case False
    with "1.IH" have "2 ^ ilog2 (n div 2) \<le> n div 2 \<and> n div 2 < 2 ^ Suc (ilog2 (n div 2))" by simp
    with False show ?thesis by (simp add: ilog2.simps [of n]) linarith
  qed
qed

lemma binade_le: "0 < q \<Longrightarrow> q < 2 ^ Suc k \<Longrightarrow> binade q \<le> int k"
proof (cases "1 \<le> q")
  case True
  assume q: "q < 2 ^ Suc k"
  have pos: "0 < nat \<lfloor>q\<rfloor>" using True by simp
  have "nat \<lfloor>q\<rfloor> < 2 ^ Suc k"
  proof -
    have "\<lfloor>q\<rfloor> < 2 ^ Suc k" using q by (simp add: floor_less_iff)
    then show ?thesis using True by (simp add: nat_less_iff)
  qed
  then have "(2::nat) ^ ilog2 (nat \<lfloor>q\<rfloor>) < 2 ^ Suc k"
    using ilog2_bounds [OF pos] by linarith
  then have "ilog2 (nat \<lfloor>q\<rfloor>) < Suc k" by (rule power_less_imp_less_exp [rotated]) simp
  then show ?thesis using True by (simp add: binade_def)
qed (simp add: binade_def)

lemma fp_ulp_pos [simp]: "0 < fp_ulp p emin q"
  by (simp add: fp_ulp_def)

lemma fp_round_pos_multiple:
  "q \<le> of_int n * fp_ulp p emin q \<Longrightarrow> fp_round_pos p emin q \<le> of_int n * fp_ulp p emin q"
  by (simp add: fp_round_pos_def pos_divide_le_eq round_half_even_le)

lemma fp_round_pos_nonneg:
  assumes "0 \<le> q"
  shows "0 \<le> fp_round_pos p emin q"
proof -
  have "0 \<le> round_half_even (q / fp_ulp p emin q)"
    by (rule round_half_even_ge) (simp add: assms less_imp_le)
  then show ?thesis by (simp add: fp_round_pos_def less_imp_le)
qed

text \<open>
  In the range where the unit in the last place is at most 1, an integer is a multiple of it: an
  integer bound survives rounding, and an integer is its own rounding.
\<close>

lemma fp_ulp_divides:
  assumes "0 < q" "q < 2 ^ p" "emin \<le> 0" "0 < p"
  shows "\<exists>m. of_nat n = of_int m * fp_ulp p emin q"
proof -
  have e: "max (binade q) emin \<le> int (p - 1)"
    using binade_le [of q "p - 1"] assms by simp
  let ?k = "nat (int (p - 1) - max (binade q) emin)"
  have "max (binade q) emin - int (p - 1) = - int ?k" using e by simp
  then have "fp_ulp p emin q = inverse (2 ^ ?k)"
    by (simp only: fp_ulp_def power_int_minus power_int_of_nat)
  then have "of_nat n = of_int (int n * 2 ^ ?k) * fp_ulp p emin q"
    by simp
  then show ?thesis by blast
qed

lemma fp_round_pos_le_int:
  assumes "0 < q" "q < 2 ^ p" "emin \<le> 0" "0 < p" "q \<le> of_nat n"
  shows "fp_round_pos p emin q \<le> of_nat n"
proof -
  obtain m where n: "of_nat n = of_int m * fp_ulp p emin q"
    using fp_ulp_divides [OF assms(1-4)] by blast
  show ?thesis
    unfolding n by (rule fp_round_pos_multiple) (use assms(5) n in simp)
qed

lemma fp_round_pos_of_nat:
  assumes "0 < n" "n < 2 ^ p" "emin \<le> 0" "0 < p"
  shows "fp_round_pos p emin (of_nat n) = of_nat n"
proof -
  have "(of_nat n :: rat) < of_nat (2 ^ p)" using assms(2) by (simp only: of_nat_less_iff)
  then have "(of_nat n :: rat) < 2 ^ p" by simp
  then obtain m where m: "of_nat n = of_int m * fp_ulp p emin (of_nat n)"
    using fp_ulp_divides [of "of_nat n" p emin n] assms by auto
  have "fp_ulp p emin (of_nat n) \<noteq> 0" using fp_ulp_pos [of p emin "of_nat n"] by (rule less_imp_neq [symmetric])
  then have "of_nat n / fp_ulp p emin (of_nat n) = of_int m"
    using m by (rule nonzero_divide_eq_eq [THEN iffD2])
  then have "fp_round_pos p emin (of_nat n) = of_int m * fp_ulp p emin (of_nat n)"
    by (simp only: fp_round_pos_def round_half_even_of_int)
  also note m [symmetric]
  finally show ?thesis .
qed

lemma of_nat_lt_p53: "n < 2 ^ 53 \<Longrightarrow> (of_nat n :: rat) < 2 ^ 53"
proof -
  assume "n < 2 ^ 53"
  then have "(of_nat n :: rat) < of_nat (2 ^ 53)" by (simp only: of_nat_less_iff)
  then show ?thesis by simp
qed

lemma binade_in_range:
  assumes "0 \<le> r" "r \<le> of_nat n" "n < 2 ^ 53"
  shows "binade r \<le> 1023"
proof (cases "r = 0")
  case False
  with assms have "0 < r" "r < 2 ^ Suc 52" using of_nat_lt_p53 [OF assms(3)] by simp_all
  then show ?thesis using binade_le [of r 52] by simp
qed (simp add: binade_def)

lemma f64_round_nat:
  assumes "n < 2 ^ 53"
  shows "f64_round (of_nat n) = Fin (of_nat n)"
proof (cases "n = 0")
  case True
  then show ?thesis by (simp add: f64_round_def fp_round_def)
next
  case False
  then have "fp_round_pos 53 (- 1022) (of_nat n) = of_nat n"
    using assms by (intro fp_round_pos_of_nat) simp_all
  with binade_in_range [of "of_nat n" n] assms False show ?thesis
    by (simp add: f64_round_def fp_round_def Let_def not_le)
qed

lemma f64_round_le_nat:
  assumes "n < 2 ^ 53" "0 \<le> q" "q \<le> of_nat n"
  shows "\<exists>r. f64_round q = Fin r \<and> 0 \<le> r \<and> r \<le> of_nat n"
proof (cases "q = 0")
  case True
  then show ?thesis by (simp add: f64_round_def fp_round_def)
next
  case False
  with assms have pos: "0 < q" by simp
  have r: "fp_round_pos 53 (- 1022) q \<le> of_nat n"
    using of_nat_lt_p53 [OF assms(1)] assms(3) pos by (intro fp_round_pos_le_int) simp_all
  moreover have "0 \<le> fp_round_pos 53 (- 1022) q" using pos by (simp add: fp_round_pos_nonneg)
  ultimately have "f64_round q = Fin (fp_round_pos 53 (- 1022) q)"
    using pos binade_in_range assms(1) by (force simp: f64_round_def fp_round_def Let_def)
  then show ?thesis using r \<open>0 \<le> fp_round_pos 53 (- 1022) q\<close> by simp
qed

lemma f64_of_u64_exact: "unat w < 2 ^ 53 \<Longrightarrow> f64_of_u64 w = Fin (of_nat (unat w))"
  unfolding f64_of_u64_def by (rule f64_round_nat)

text \<open>Scaling an amount below \<open>2 ^ 53\<close> by a share in \<open>[0, 1]\<close> never exceeds the amount.\<close>

definition is_share :: "fp \<Rightarrow> bool" where
  "is_share s \<longleftrightarrow> s = FNaN \<or> (\<exists>q. s = Fin q \<and> 0 \<le> q \<and> q \<le> 1)"

lemma is_share_clamp: "is_share (fp_clamp x (Fin 0) (Fin 1))"
  by (cases x) (auto simp: is_share_def fp_clamp_def)

definition f64_scale_floor :: "u64 \<Rightarrow> fp \<Rightarrow> u64" where
  "f64_scale_floor w s = fp_as_u64 (fp_floor (f64_mul (f64_of_u64 w) s))"

lemma fp_as_u64_le:
  assumes "0 \<le> r" "r \<le> of_nat n" "n < 2 ^ 64"
  shows "unat (fp_as_u64 (fp_floor (Fin r))) \<le> n"
proof -
  let ?z = "\<lfloor>r\<rfloor>"
  have z: "?z \<le> int n" "0 \<le> ?z" using assms(1,2) by (simp_all add: floor_le_iff)
  have "int n < 2 ^ 64" using assms(3) by simp
  with z(1) have lt: "?z < 2 ^ 64" by linarith
  then have "rat_of_int ?z < rat_of_int (2 ^ 64)" by (simp only: of_int_less_iff)
  then have "rat_of_int ?z < 2 ^ 64" by simp
  then have "fp_as_u64 (fp_floor (Fin r)) = of_int ?z" using z(2) by simp
  then have "uint (fp_as_u64 (fp_floor (Fin r))) = ?z"
    using z(2) lt by (simp add: uint_word_of_int)
  then show ?thesis using z(1) by (simp add: unat_eq_nat_uint)
qed

lemma f64_scale_floor_le:
  assumes w: "unat w < 2 ^ 53" and s: "is_share s"
  shows "unat (f64_scale_floor w s) \<le> unat w"
proof (cases s)
  case (Fin q)
  define n where "n = unat w"
  from s Fin have q: "0 \<le> q" "q \<le> 1" by (auto simp: is_share_def)
  have n: "n < 2 ^ 53" using w by (simp add: n_def)
  have "of_nat n * q \<le> of_nat n" using q(2) by (rule mult_left_le) simp
  moreover have "0 \<le> of_nat n * q" using q(1) by simp
  ultimately obtain r where r: "f64_round (of_nat n * q) = Fin r" "0 \<le> r" "r \<le> of_nat n"
    using f64_round_le_nat [OF n] by blast
  have "f64_of_u64 w = Fin (of_nat n)" unfolding n_def using w by (rule f64_of_u64_exact)
  then have "f64_scale_floor w s = fp_as_u64 (fp_floor (Fin r))"
    using Fin r(1) by (simp only: f64_scale_floor_def f64_mul.simps)
  moreover have "n < 2 ^ 64" using w unfolding n_def by simp
  ultimately show ?thesis using fp_as_u64_le [OF r(2,3)] by (simp only: n_def)
next
  case FNaN
  then show ?thesis by (cases "f64_of_u64 w") (simp_all add: f64_scale_floor_def)
qed (use s in \<open>auto simp: is_share_def\<close>)

text \<open>A product that is an integer below \<open>2 ^ 53\<close> is computed exactly.\<close>

lemma f64_scale_floor_exact:
  assumes "unat w < 2 ^ 53" "n < 2 ^ 53" "of_nat (unat w) * q = of_nat n"
  shows "f64_scale_floor w (Fin q) = of_nat n"
proof -
  have "f64_mul (f64_of_u64 w) (Fin q) = Fin (of_nat n)"
    using assms by (simp only: f64_of_u64_exact f64_mul.simps f64_round_nat)
  moreover have "\<not> (2 :: rat) ^ 64 \<le> of_nat n" using of_nat_lt_p53 [OF assms(2)] by simp
  ultimately show ?thesis by (simp add: f64_scale_floor_def)
qed

end
