(* ===== verification/Wire_Usage.thy ===== *)
theory Wire_Usage
  imports Rust_Float
begin

text \<open>
  Token counts and rate cards (\<open>crates/tailfin-wire/src/lib.rs\<close>: \<open>Usage\<close>, \<open>RateCard\<close>). Usages
  form a commutative monoid under \<open>merge\<close>, so roll-ups are sums of the library; \<open>micros\<close> prices a
  usage in 64-bit integer arithmetic, and the lemmas relate it to the exact integer cost.
\<close>

section \<open>Usage\<close>

record usage =
  u_input :: u64
  u_output :: u64
  u_cache_write_5m :: u64
  u_cache_write_1h :: u64
  u_cache_read :: u64
  u_reasoning :: u64

definition usage_default :: usage where
  "usage_default =
    \<lparr>u_input = 0, u_output = 0, u_cache_write_5m = 0, u_cache_write_1h = 0, u_cache_read = 0,
     u_reasoning = 0\<rparr>"

definition usage_merge :: "usage \<Rightarrow> usage \<Rightarrow> usage" where
  "usage_merge s other =
    \<lparr>u_input = u_input s + u_input other,
     u_output = u_output s + u_output other,
     u_cache_write_5m = u_cache_write_5m s + u_cache_write_5m other,
     u_cache_write_1h = u_cache_write_1h s + u_cache_write_1h other,
     u_cache_read = u_cache_read s + u_cache_read other,
     u_reasoning = u_reasoning s + u_reasoning other\<rparr>"

definition usage_total :: "usage \<Rightarrow> u64" where
  "usage_total u =
    u_input u + u_output u + u_cache_write_5m u + u_cache_write_1h u + u_cache_read u"

definition cache_read_write_ratio :: "usage \<Rightarrow> fp option" where
  "cache_read_write_ratio u =
    (let w = u_cache_write_5m u + u_cache_write_1h u
     in if 0 < w then Some (f64_div (f64_of_u64 (u_cache_read u)) (f64_of_u64 w)) else None)"

section \<open>Rate cards\<close>

record rate_card =
  r_input :: u64
  r_output :: u64
  r_cache_write_5m :: u64
  r_cache_write_1h :: u64
  r_cache_read :: u64

definition rate_from_base :: "u64 \<Rightarrow> u64 \<Rightarrow> rate_card" where
  "rate_from_base inp out =
    \<lparr>r_input = inp, r_output = out, r_cache_write_5m = inp * 5 div 4, r_cache_write_1h = inp * 2,
     r_cache_read = inp div 10\<rparr>"

definition usage_micros :: "usage \<Rightarrow> rate_card \<Rightarrow> u64" where
  "usage_micros u r =
    (u_input u * r_input r
     + u_output u * r_output r
     + u_cache_write_5m u * r_cache_write_5m r
     + u_cache_write_1h u * r_cache_write_1h r
     + u_cache_read u * r_cache_read r) div 1000000"

section \<open>The monoid of usages\<close>

instantiation usage_ext :: (comm_monoid_add) comm_monoid_add
begin

definition zero_usage_ext :: "'a usage_ext" where
  "zero_usage_ext =
    \<lparr>u_input = 0, u_output = 0, u_cache_write_5m = 0, u_cache_write_1h = 0, u_cache_read = 0,
     u_reasoning = 0, \<dots> = 0\<rparr>"

definition plus_usage_ext :: "'a usage_ext \<Rightarrow> 'a usage_ext \<Rightarrow> 'a usage_ext" where
  "plus_usage_ext a b =
    \<lparr>u_input = u_input a + u_input b, u_output = u_output a + u_output b,
     u_cache_write_5m = u_cache_write_5m a + u_cache_write_5m b,
     u_cache_write_1h = u_cache_write_1h a + u_cache_write_1h b,
     u_cache_read = u_cache_read a + u_cache_read b,
     u_reasoning = u_reasoning a + u_reasoning b,
     \<dots> = usage.more a + usage.more b\<rparr>"

instance
  by standard (simp_all add: zero_usage_ext_def plus_usage_ext_def ac_simps)

end

lemma usage_merge_plus: "usage_merge a b = a + b"
  by (simp add: usage_merge_def plus_usage_ext_def)

lemma usage_default_zero: "usage_default = 0"
  by (simp add: usage_default_def zero_usage_ext_def zero_unit_def)

lemma usage_fields_plus [simp]:
  "u_input (a + b) = u_input a + u_input b"
  "u_output (a + b) = u_output a + u_output b"
  "u_cache_write_5m (a + b) = u_cache_write_5m a + u_cache_write_5m b"
  "u_cache_write_1h (a + b) = u_cache_write_1h a + u_cache_write_1h b"
  "u_cache_read (a + b) = u_cache_read a + u_cache_read b"
  "u_reasoning (a + b) = u_reasoning a + u_reasoning b"
  by (simp_all add: plus_usage_ext_def)

lemma usage_fields_zero [simp]:
  "u_input 0 = 0" "u_output 0 = 0" "u_cache_write_5m 0 = 0" "u_cache_write_1h 0 = 0"
  "u_cache_read 0 = 0" "u_reasoning 0 = 0"
  by (simp_all add: zero_usage_ext_def)

lemma usage_total_zero [simp]: "usage_total 0 = 0"
  by (simp add: usage_total_def)

lemma usage_total_plus [simp]: "usage_total (a + b) = usage_total a + usage_total b"
  by (simp add: usage_total_def)

lemma usage_total_sum: "usage_total (\<Sum>x\<leftarrow>xs. f x) = (\<Sum>x\<leftarrow>xs. usage_total (f x))"
  by (induction xs) simp_all

lemma usage_micros_zero [simp]: "usage_micros 0 r = 0"
  by (simp add: usage_micros_def)

section \<open>Exact cost\<close>

text \<open>The cost in millionths of a micro-dollar, over unbounded integers.\<close>

definition exact_cost :: "usage \<Rightarrow> rate_card \<Rightarrow> nat" where
  "exact_cost u r =
    unat (u_input u) * unat (r_input r)
    + unat (u_output u) * unat (r_output r)
    + unat (u_cache_write_5m u) * unat (r_cache_write_5m r)
    + unat (u_cache_write_1h u) * unat (r_cache_write_1h r)
    + unat (u_cache_read u) * unat (r_cache_read r)"

text \<open>A usage is priced without wrapping when its exact cost fits 64 bits.\<close>

definition priced :: "usage \<Rightarrow> rate_card \<Rightarrow> bool" where
  "priced u r \<longleftrightarrow> exact_cost u r < 2 ^ 64"

lemma unat_five_products:
  fixes a b c d e a' b' c' d' e' :: u64
  assumes "unat a * unat a' + unat b * unat b' + unat c * unat c' + unat d * unat d' + unat e * unat e'
    < 2 ^ 64"
  shows "unat (a * a' + b * b' + c * c' + d * d' + e * e') =
    unat a * unat a' + unat b * unat b' + unat c * unat c' + unat d * unat d' + unat e * unat e'"
proof -
  have m: "unat (a * a') = unat a * unat a'" "unat (b * b') = unat b * unat b'"
    "unat (c * c') = unat c * unat c'" "unat (d * d') = unat d * unat d'"
    "unat (e * e') = unat e * unat e'"
    using assms by (simp_all add: unat_mult_bound)
  have s1: "unat (a * a' + b * b') = unat a * unat a' + unat b * unat b'"
    using assms m by (subst unat_add_bound) simp_all
  have s2: "unat (a * a' + b * b' + c * c') = unat a * unat a' + unat b * unat b' + unat c * unat c'"
    using assms m s1 by (subst unat_add_bound) simp_all
  have s3: "unat (a * a' + b * b' + c * c' + d * d') =
    unat a * unat a' + unat b * unat b' + unat c * unat c' + unat d * unat d'"
    using assms m s2 by (subst unat_add_bound) simp_all
  show ?thesis using assms m s3 by (subst unat_add_bound) simp_all
qed

lemma unat_numeral_million: "unat (1000000 :: u64) = 1000000"
  by simp

lemma usage_micros_exact: "priced u r \<Longrightarrow> unat (usage_micros u r) = exact_cost u r div 1000000"
  unfolding priced_def exact_cost_def usage_micros_def unat_div
  by (simp only: unat_five_products unat_numeral_million)

lemma priced_zero [simp]: "priced 0 r"
  by (simp add: priced_def exact_cost_def)

text \<open>No field of a sum of usages wraps.\<close>

definition addable :: "usage \<Rightarrow> usage \<Rightarrow> bool" where
  "addable a b \<longleftrightarrow>
    unat (u_input a) + unat (u_input b) < 2 ^ 64 \<and>
    unat (u_output a) + unat (u_output b) < 2 ^ 64 \<and>
    unat (u_cache_write_5m a) + unat (u_cache_write_5m b) < 2 ^ 64 \<and>
    unat (u_cache_write_1h a) + unat (u_cache_write_1h b) < 2 ^ 64 \<and>
    unat (u_cache_read a) + unat (u_cache_read b) < 2 ^ 64"

lemma exact_cost_merge:
  "addable a b \<Longrightarrow> exact_cost (usage_merge a b) r = exact_cost a r + exact_cost b r"
proof -
  assume "addable a b"
  then have "unat (u_input (a + b)) = unat (u_input a) + unat (u_input b)"
    "unat (u_output (a + b)) = unat (u_output a) + unat (u_output b)"
    "unat (u_cache_write_5m (a + b)) = unat (u_cache_write_5m a) + unat (u_cache_write_5m b)"
    "unat (u_cache_write_1h (a + b)) = unat (u_cache_write_1h a) + unat (u_cache_write_1h b)"
    "unat (u_cache_read (a + b)) = unat (u_cache_read a) + unat (u_cache_read b)"
    unfolding usage_fields_plus by (auto simp only: addable_def intro!: unat_add_bound) simp_all
  then show ?thesis by (simp only: usage_merge_plus exact_cost_def add_mult_distrib)
qed

end
