(* ===== verification/Wire_Meter.thy ===== *)
theory Wire_Meter
  imports Wire_Usage Wire_Sse
begin

text \<open>
  Dialects and usage extraction (\<open>crates/tailfin-wire/src/lib.rs\<close>: \<open>Dialect\<close>, \<open>Meter\<close>). JSON is
  parsed by serde\_json, which is not part of the repository: a value of \<open>serde_json\<close> is that
  library as a parameter, one field per function of it that the code calls, over an unknown type
  \<open>'v\<close> of JSON values.
\<close>

section \<open>The JSON library\<close>

record 'v serde_json =
  js_from_str :: "string \<Rightarrow> 'v option"
  js_get :: "'v \<Rightarrow> string \<Rightarrow> 'v option"
  js_pointer :: "'v \<Rightarrow> string \<Rightarrow> 'v option"
  js_as_u64 :: "'v \<Rightarrow> u64 option"
  js_as_str :: "'v \<Rightarrow> string option"
  js_as_array :: "'v \<Rightarrow> 'v list option"
  js_is_null :: "'v \<Rightarrow> bool"
  js_to_string :: "'v \<Rightarrow> string"

text \<open>\<open>v.get(k).and_then(Value::as_u64)\<close>, the same through a pointer, and
  \<open>v.get(k).and_then(Value::as_str)\<close>.\<close>

definition get_u64 :: "'v serde_json \<Rightarrow> 'v \<Rightarrow> string \<Rightarrow> u64 option" where
  "get_u64 J u k = Option.bind (js_get J u k) (js_as_u64 J)"

definition ptr_u64 :: "'v serde_json \<Rightarrow> 'v \<Rightarrow> string \<Rightarrow> u64 option" where
  "ptr_u64 J u k = Option.bind (js_pointer J u k) (js_as_u64 J)"

definition get_str :: "'v serde_json \<Rightarrow> 'v \<Rightarrow> string \<Rightarrow> string option" where
  "get_str J v k = Option.bind (js_get J v k) (js_as_str J)"

definition unwrap_or :: "'a \<Rightarrow> 'a option \<Rightarrow> 'a" where
  "unwrap_or d x = (case x of Some a \<Rightarrow> a | None \<Rightarrow> d)"

definition or_else :: "'a option \<Rightarrow> 'a option \<Rightarrow> 'a option" where
  "or_else x y = (case x of Some a \<Rightarrow> Some a | None \<Rightarrow> y)"

definition not_null :: "'v serde_json \<Rightarrow> 'v option \<Rightarrow> 'v option" where
  "not_null J x = (case x of Some u \<Rightarrow> if js_is_null J u then None else Some u | None \<Rightarrow> None)"

lemma unwrap_or_simps [simp]: "unwrap_or d (Some a) = a" "unwrap_or d None = d"
  by (simp_all add: unwrap_or_def)

lemma or_else_simps [simp]: "or_else (Some a) y = Some a" "or_else None y = y"
  by (simp_all add: or_else_def)

section \<open>Dialects\<close>

datatype dialect = AnthropicMessages | OpenAiChat | OpenAiResponses

definition dialect_for_path :: "string \<Rightarrow> dialect option" where
  "dialect_for_path path =
    (let p = trim_end_matches [CHR ''/''] path in
     if ends_with p ''/chat/completions'' then Some OpenAiChat
     else if ends_with p ''/responses'' \<or> contains p ''/responses/'' then Some OpenAiResponses
     else if ends_with p ''/v1/messages'' \<or> contains p ''/v1/messages/'' then Some AnthropicMessages
     else None)"

section \<open>The meter\<close>

record meter =
  m_dialect :: dialect
  m_usage :: usage
  m_saw_terminal :: bool

definition meter_new :: "dialect \<Rightarrow> meter" where
  "meter_new d = \<lparr>m_dialect = d, m_usage = usage_default, m_saw_terminal = False\<rparr>"

definition take_anthropic :: "'v serde_json \<Rightarrow> 'v \<Rightarrow> bool \<Rightarrow> usage \<Rightarrow> usage" where
  "take_anthropic J u delta s =
    (let g = (\<lambda>k. unwrap_or 0 (get_u64 J u k));
         s1 =
           (if \<not> delta then
              let s' = s\<lparr>u_input := u_input s + g ''input_tokens'',
                         u_cache_read := u_cache_read s + g ''cache_read_input_tokens''\<rparr>;
                  m5 = ptr_u64 J u ''/cache_creation/ephemeral_5m_input_tokens'';
                  m1 = ptr_u64 J u ''/cache_creation/ephemeral_1h_input_tokens''
              in (if m5 = None \<and> m1 = None
                  then s'\<lparr>u_cache_write_5m :=
                           u_cache_write_5m s' + g ''cache_creation_input_tokens''\<rparr>
                  else s'\<lparr>u_cache_write_5m := u_cache_write_5m s' + unwrap_or 0 m5,
                          u_cache_write_1h := u_cache_write_1h s' + unwrap_or 0 m1\<rparr>)
            else s);
         out = g ''output_tokens'';
         s2 = (if 0 < out then s1\<lparr>u_output := out\<rparr> else s1)
     in case ptr_u64 J u ''/output_tokens_details/thinking_tokens'' of
          Some t \<Rightarrow> s2\<lparr>u_reasoning := t\<rparr>
        | None \<Rightarrow> s2)"

definition observe_anthropic :: "'v serde_json \<Rightarrow> sse_frame \<Rightarrow> 'v \<Rightarrow> meter \<Rightarrow> meter" where
  "observe_anthropic J frame v m =
    (let kind = or_else (fr_event frame) (get_str J v ''type'') in
     if kind = Some ''message_start'' then
       (case js_pointer J v ''/message/usage'' of
          Some u \<Rightarrow> m\<lparr>m_usage := take_anthropic J u False (m_usage m)\<rparr>
        | None \<Rightarrow> m)
     else if kind = Some ''message_delta'' then
       (case js_get J v ''usage'' of
          Some u \<Rightarrow> m\<lparr>m_usage := take_anthropic J u True (m_usage m), m_saw_terminal := True\<rparr>
        | None \<Rightarrow> m)
     else m)"

definition observe_openai :: "'v serde_json \<Rightarrow> 'v \<Rightarrow> meter \<Rightarrow> meter" where
  "observe_openai J v m =
    (case not_null J (js_get J v ''usage'') of
       None \<Rightarrow> m
     | Some u \<Rightarrow>
         let g = (\<lambda>k. unwrap_or 0 (get_u64 J u k));
             cached = unwrap_or 0 (ptr_u64 J u ''/prompt_tokens_details/cached_tokens'')
         in m\<lparr>m_usage := (m_usage m)
                \<lparr>u_input := sat_sub (g ''prompt_tokens'') cached,
                 u_cache_read := cached,
                 u_output := g ''completion_tokens'',
                 u_reasoning :=
                   unwrap_or 0 (ptr_u64 J u ''/completion_tokens_details/reasoning_tokens'')\<rparr>,
              m_saw_terminal := True\<rparr>)"

definition take_responses :: "'v serde_json \<Rightarrow> 'v \<Rightarrow> usage \<Rightarrow> usage" where
  "take_responses J u s =
    (let g = (\<lambda>k. unwrap_or 0 (get_u64 J u k));
         cached = unwrap_or 0 (ptr_u64 J u ''/input_tokens_details/cached_tokens'')
     in s\<lparr>u_input := sat_sub (g ''input_tokens'') cached,
          u_cache_read := cached,
          u_output := g ''output_tokens'',
          u_reasoning := unwrap_or 0 (ptr_u64 J u ''/output_tokens_details/reasoning_tokens'')\<rparr>)"

definition observe_responses :: "'v serde_json \<Rightarrow> sse_frame \<Rightarrow> 'v \<Rightarrow> meter \<Rightarrow> meter" where
  "observe_responses J frame v m =
    (let kind = or_else (fr_event frame) (get_str J v ''type'');
         resp_usage =
           not_null J (or_else (js_pointer J v ''/response/usage'') (js_get J v ''usage''))
     in if kind = Some ''response.completed'' then
          (case resp_usage of
             Some u \<Rightarrow> m\<lparr>m_usage := take_responses J u (m_usage m), m_saw_terminal := True\<rparr>
           | None \<Rightarrow> m)
        else if kind = Some ''response.failed'' \<or> kind = Some ''response.incomplete'' then
          (case resp_usage of
             Some u \<Rightarrow> m\<lparr>m_usage := take_responses J u (m_usage m)\<rparr>
           | None \<Rightarrow> m)
        else if get_str J v ''object'' = Some ''response'' then
          (case not_null J (js_get J v ''usage'') of
             Some u \<Rightarrow> m\<lparr>m_usage := take_responses J u (m_usage m), m_saw_terminal := True\<rparr>
           | None \<Rightarrow> m)
        else m)"

definition meter_observe :: "'v serde_json \<Rightarrow> meter \<Rightarrow> sse_frame \<Rightarrow> meter" where
  "meter_observe J m frame =
    (if fr_data frame = ''[DONE]'' then m
     else case js_from_str J (fr_data frame) of
       None \<Rightarrow> m
     | Some v \<Rightarrow>
         (case m_dialect m of
            AnthropicMessages \<Rightarrow> observe_anthropic J frame v m
          | OpenAiChat \<Rightarrow> observe_openai J v m
          | OpenAiResponses \<Rightarrow> observe_responses J frame v m))"

text \<open>A whole stream: the loop of the metering task over the decoded frames.\<close>

definition meter_run :: "'v serde_json \<Rightarrow> meter \<Rightarrow> sse_frame list \<Rightarrow> meter" where
  "meter_run J m fs = foldl (meter_observe J) m fs"

section \<open>Completeness\<close>

lemmas observe_defs = observe_anthropic_def observe_openai_def observe_responses_def

lemma meter_observe_dialect [simp]: "m_dialect (meter_observe J m f) = m_dialect m"
  by (auto simp: meter_observe_def observe_defs Let_def split: option.splits dialect.splits)

lemma meter_run_simps [simp]:
  "meter_run J m [] = m"
  "meter_run J m (f # fs) = meter_run J (meter_observe J m f) fs"
  "meter_run J m (fs @ gs) = meter_run J (meter_run J m fs) gs"
  by (simp_all add: meter_run_def)

lemma meter_run_dialect [simp]: "m_dialect (meter_run J m fs) = m_dialect m"
  by (induction fs arbitrary: m) simp_all

lemma meter_new_simps [simp]:
  "m_dialect (meter_new d) = d" "m_usage (meter_new d) = 0" "m_saw_terminal (meter_new d) = False"
  by (simp_all add: meter_new_def usage_default_zero)

text \<open>
  Specification: the frame that ends a stream in each dialect. Anthropic's is a \<open>message_delta\<close>
  with a usage, the chat dialect's any frame with a non-null usage, the responses dialect's a
  \<open>response.completed\<close> with a usage or a whole response object with one.
\<close>

definition frame_kind :: "'v serde_json \<Rightarrow> sse_frame \<Rightarrow> 'v \<Rightarrow> string option" where
  "frame_kind J f v = or_else (fr_event f) (get_str J v ''type'')"

definition terminal_value :: "'v serde_json \<Rightarrow> dialect \<Rightarrow> sse_frame \<Rightarrow> 'v \<Rightarrow> bool" where
  "terminal_value J d f v \<longleftrightarrow>
    (case d of
       AnthropicMessages \<Rightarrow> frame_kind J f v = Some ''message_delta'' \<and> js_get J v ''usage'' \<noteq> None
     | OpenAiChat \<Rightarrow> not_null J (js_get J v ''usage'') \<noteq> None
     | OpenAiResponses \<Rightarrow>
         (if frame_kind J f v = Some ''response.completed''
          then not_null J (or_else (js_pointer J v ''/response/usage'') (js_get J v ''usage'')) \<noteq> None
          else frame_kind J f v \<noteq> Some ''response.failed'' \<and>
            frame_kind J f v \<noteq> Some ''response.incomplete'' \<and>
            get_str J v ''object'' = Some ''response'' \<and> not_null J (js_get J v ''usage'') \<noteq> None))"

definition terminal_frame :: "'v serde_json \<Rightarrow> dialect \<Rightarrow> sse_frame \<Rightarrow> bool" where
  "terminal_frame J d f \<longleftrightarrow>
    fr_data f \<noteq> ''[DONE]'' \<and>
    (case js_from_str J (fr_data f) of None \<Rightarrow> False | Some v \<Rightarrow> terminal_value J d f v)"

lemma meter_observe_terminal:
  "m_saw_terminal (meter_observe J m f) \<longleftrightarrow> m_saw_terminal m \<or> terminal_frame J (m_dialect m) f"
  by (cases "m_dialect m"; cases "js_from_str J (fr_data f)")
    (auto simp: meter_observe_def terminal_frame_def terminal_value_def frame_kind_def observe_defs
      Let_def split: option.splits if_splits)

text \<open>
  A stream is complete exactly when one of its frames is the dialect's terminal usage frame:
  the meter never forgets one and never takes anything else (\<open>[DONE]\<close>, garbage, a start frame, a
  failed response) for one.
\<close>

lemma meter_complete_iff_terminal_frame:
  "m_saw_terminal (meter_run J (meter_new d) fs) \<longleftrightarrow> (\<exists>f \<in> set fs. terminal_frame J d f)"
proof -
  have "m_saw_terminal (meter_run J m fs) \<longleftrightarrow>
      m_saw_terminal m \<or> (\<exists>f \<in> set fs. terminal_frame J (m_dialect m) f)" for m
    by (induction fs arbitrary: m) (auto simp: meter_observe_terminal)
  then show ?thesis by simp
qed

section \<open>What each dialect counts\<close>

definition anthropic_value :: "'v serde_json \<Rightarrow> sse_frame \<Rightarrow> 'v option" where
  "anthropic_value J f = (if fr_data f = ''[DONE]'' then None else js_from_str J (fr_data f))"

text \<open>The usage object a frame of the Anthropic dialect carries, with the flag \<open>delta\<close>.\<close>

definition anthropic_usage :: "'v serde_json \<Rightarrow> sse_frame \<Rightarrow> ('v \<times> bool) option" where
  "anthropic_usage J f =
    (case anthropic_value J f of
       None \<Rightarrow> None
     | Some v \<Rightarrow>
         if frame_kind J f v = Some ''message_start''
         then map_option (\<lambda>u. (u, False)) (js_pointer J v ''/message/usage'')
         else if frame_kind J f v = Some ''message_delta''
         then map_option (\<lambda>u. (u, True)) (js_get J v ''usage'')
         else None)"

lemma meter_observe_anthropic:
  "m_dialect m = AnthropicMessages \<Longrightarrow>
    m_usage (meter_observe J m f) =
      (case anthropic_usage J f of None \<Rightarrow> m_usage m | Some (u, delta) \<Rightarrow> take_anthropic J u delta (m_usage m))"
  by (auto simp: meter_observe_def observe_anthropic_def anthropic_usage_def anthropic_value_def
      frame_kind_def Let_def split: option.splits)

text \<open>The prompt tokens and the positive output counts a stream reports, in order.\<close>

definition start_inputs :: "'v serde_json \<Rightarrow> sse_frame list \<Rightarrow> u64 list" where
  "start_inputs J fs =
    [unwrap_or 0 (get_u64 J u ''input_tokens''). Some (u, False) \<leftarrow> map (anthropic_usage J) fs]"

definition output_counts :: "'v serde_json \<Rightarrow> sse_frame list \<Rightarrow> u64 list" where
  "output_counts J fs =
    filter (\<lambda>n. 0 < n)
      [unwrap_or 0 (get_u64 J u ''output_tokens''). Some (u, _) \<leftarrow> map (anthropic_usage J) fs]"

lemma take_anthropic_output:
  "u_output (take_anthropic J u delta s) =
    (let out = unwrap_or 0 (get_u64 J u ''output_tokens'') in if 0 < out then out else u_output s)"
  by (simp add: take_anthropic_def Let_def split: option.splits)

lemma take_anthropic_input:
  "u_input (take_anthropic J u delta s) =
    u_input s + (if delta then 0 else unwrap_or 0 (get_u64 J u ''input_tokens''))"
  by (simp add: take_anthropic_def Let_def split: option.splits)

lemma start_inputs_Cons:
  "start_inputs J (f # fs) =
    (case anthropic_usage J f of
       Some (u, False) \<Rightarrow> [unwrap_or 0 (get_u64 J u ''input_tokens'')] | _ \<Rightarrow> []) @ start_inputs J fs"
  by (simp add: start_inputs_def split: option.splits bool.splits)

lemma output_counts_Cons:
  "output_counts J (f # fs) =
    (case anthropic_usage J f of
       Some (u, _) \<Rightarrow>
         (let out = unwrap_or 0 (get_u64 J u ''output_tokens'') in if 0 < out then [out] else [])
     | None \<Rightarrow> []) @ output_counts J fs"
  by (simp add: output_counts_def Let_def split: option.splits)

text \<open>
  Anthropic output counts are cumulative: after any stream the meter holds the last positive
  output count reported, never a sum of them, while the prompt tokens of the start frames are
  added up.
\<close>

lemma anthropic_output_is_last_input_is_sum:
  "u_output (m_usage (meter_run J (meter_new AnthropicMessages) fs)) = last (0 # output_counts J fs)
   \<and> u_input (m_usage (meter_run J (meter_new AnthropicMessages) fs)) = sum_list (start_inputs J fs)"
proof -
  have "m_dialect m = AnthropicMessages \<Longrightarrow>
      u_output (m_usage (meter_run J m fs)) = last (u_output (m_usage m) # output_counts J fs) \<and>
      u_input (m_usage (meter_run J m fs)) = u_input (m_usage m) + sum_list (start_inputs J fs)" for m
  proof (induction fs arbitrary: m)
    case Nil
    then show ?case by (simp add: output_counts_def start_inputs_def)
  next
    case (Cons f fs)
    then show ?case
      by (auto simp: meter_observe_anthropic output_counts_Cons start_inputs_Cons take_anthropic_output
          take_anthropic_input Let_def add.assoc split: option.splits bool.splits)
  qed
  then show ?thesis by simp
qed

text \<open>The usage object of a frame of the chat dialect.\<close>

definition openai_usage :: "'v serde_json \<Rightarrow> sse_frame \<Rightarrow> 'v option" where
  "openai_usage J f =
    (if fr_data f = ''[DONE]'' then None
     else Option.bind (js_from_str J (fr_data f)) (\<lambda>v. not_null J (js_get J v ''usage'')))"

lemma meter_observe_openai_none:
  "m_dialect m = OpenAiChat \<Longrightarrow> openai_usage J f = None \<Longrightarrow> meter_observe J m f = m"
  by (auto simp: meter_observe_def observe_openai_def openai_usage_def split: option.splits)

lemma meter_run_openai_none:
  "m_dialect m = OpenAiChat \<Longrightarrow> \<forall>f \<in> set fs. openai_usage J f = None \<Longrightarrow> meter_run J m fs = m"
  by (induction fs arbitrary: m) (auto simp: meter_observe_openai_none)

text \<open>The chat dialect never writes to a cache.\<close>

lemma meter_run_openai_no_writes:
  "m_dialect m = OpenAiChat \<Longrightarrow>
    u_cache_write_5m (m_usage (meter_run J m fs)) = u_cache_write_5m (m_usage m) \<and>
    u_cache_write_1h (m_usage (meter_run J m fs)) = u_cache_write_1h (m_usage m)"
proof (induction fs arbitrary: m)
  case (Cons f fs)
  have "u_cache_write_5m (m_usage (meter_observe J m f)) = u_cache_write_5m (m_usage m)"
    "u_cache_write_1h (m_usage (meter_observe J m f)) = u_cache_write_1h (m_usage m)"
    using Cons.prems by (auto simp: meter_observe_def observe_openai_def Let_def split: option.splits)
  then show ?case using Cons by simp
qed simp

text \<open>
  C24. In the chat dialect the last usage frame decides the whole usage, and earlier frames leave no trace
  in any of its fields: input is the prompt count less the cached tokens (down to zero), cache reads are
  the cached tokens, output is the completion count, reasoning the reasoning count, and nothing is written
  to a cache. Cached tokens are never lost: input and cache reads together are the prompt tokens whenever
  the provider's cached count is within them.
\<close>

theorem openai_last_usage_decides:
  assumes "openai_usage J f = Some u" "\<forall>g \<in> set post. openai_usage J g = None"
  shows "let m = meter_run J (meter_new OpenAiChat) (pre @ f # post);
             prompt = unwrap_or 0 (get_u64 J u ''prompt_tokens'');
             cached = unwrap_or 0 (ptr_u64 J u ''/prompt_tokens_details/cached_tokens'')
         in m_saw_terminal m \<and>
            m_usage m = \<lparr>u_input = sat_sub prompt cached,
              u_output = unwrap_or 0 (get_u64 J u ''completion_tokens''),
              u_cache_write_5m = 0, u_cache_write_1h = 0, u_cache_read = cached,
              u_reasoning = unwrap_or 0 (ptr_u64 J u ''/completion_tokens_details/reasoning_tokens'')\<rparr> \<and>
            unat (u_input (m_usage m)) + unat (u_cache_read (m_usage m)) = max (unat prompt) (unat cached)"
proof -
  let ?m0 = "meter_run J (meter_new OpenAiChat) pre"
  have "u_cache_write_5m (m_usage ?m0) = 0 \<and> u_cache_write_1h (m_usage ?m0) = 0"
    by (simp add: meter_run_openai_no_writes meter_new_def usage_default_def)
  moreover have "meter_run J (meter_new OpenAiChat) (pre @ f # post) = meter_observe J ?m0 f"
    using assms(2) by (simp add: meter_run_openai_none)
  moreover have "m_dialect ?m0 = OpenAiChat" by simp
  ultimately show ?thesis
    using assms(1)
    by (cases "m_usage ?m0") (auto simp: meter_observe_def observe_openai_def openai_usage_def Let_def sat_simps
        split: option.splits if_splits bind_splits)
qed

text \<open>
  A JSON library for concrete streams: values are numbers, value 0 is the parsed frame
  \<open>{"usage": ...}\<close>, value 1 its usage object with 1000 prompt tokens of which 800 are cached,
  and 40 completion tokens.
\<close>

definition sample_json :: "nat serde_json" where
  "sample_json =
    \<lparr>js_from_str = (\<lambda>s. if s = ''{usage}'' then Some 0 else None),
     js_get = (\<lambda>v k. if v = 0 \<and> k = ''usage'' then Some 1
                     else if v = 1 \<and> k = ''prompt_tokens'' then Some 1000
                     else if v = 1 \<and> k = ''completion_tokens'' then Some 40 else None),
     js_pointer = (\<lambda>v k. if v = 1 \<and> k = ''/prompt_tokens_details/cached_tokens'' then Some 800 else None),
     js_as_u64 = (\<lambda>v. if 2 \<le> v then Some (of_nat v) else None),
     js_as_str = (\<lambda>v. None),
     js_as_array = (\<lambda>v. None),
     js_is_null = (\<lambda>v. False),
     js_to_string = (\<lambda>v. [])\<rparr>"

lemma unat_numeral_eval: "max (unat (1000 :: u64)) (unat (800 :: u64)) = 1000"
  by simp

lemma sample_json_usage:
  "openai_usage sample_json \<lparr>fr_event = None, fr_data = ''{usage}''\<rparr> = Some 1"
  "openai_usage sample_json \<lparr>fr_event = None, fr_data = ''[DONE]''\<rparr> = None"
  "get_u64 sample_json 1 ''prompt_tokens'' = Some 1000"
  "get_u64 sample_json 1 ''completion_tokens'' = Some 40"
  "ptr_u64 sample_json 1 ''/prompt_tokens_details/cached_tokens'' = Some 800"
  "ptr_u64 sample_json 1 ''/completion_tokens_details/reasoning_tokens'' = None"
  by (simp_all add: openai_usage_def sample_json_def not_null_def get_u64_def ptr_u64_def)

theorem openai_last_usage_decides_witness:
  "let m = meter_run sample_json (meter_new OpenAiChat)
      ([] @ \<lparr>fr_event = None, fr_data = ''{usage}''\<rparr> # [\<lparr>fr_event = None, fr_data = ''[DONE]''\<rparr>])
   in m_saw_terminal m \<and>
      m_usage m = \<lparr>u_input = sat_sub 1000 800, u_output = 40, u_cache_write_5m = 0, u_cache_write_1h = 0,
        u_cache_read = 800, u_reasoning = 0\<rparr> \<and>
      unat (u_input (m_usage m)) + unat (u_cache_read (m_usage m)) = 1000"
proof -
  have "\<forall>g \<in> set [\<lparr>fr_event = None, fr_data = ''[DONE]''\<rparr>]. openai_usage sample_json g = None"
    by (simp add: sample_json_usage)
  from openai_last_usage_decides [OF sample_json_usage(1) this, of "[]"] show ?thesis
    unfolding sample_json_usage Let_def unwrap_or_simps unat_numeral_eval .
qed

text \<open>
  A trailing slash never changes the dialect, and every path below a base that ends in
  \<open>/chat/completions\<close> is metered as the chat dialect.
\<close>

lemma dialect_ignores_trailing_slashes:
  "dialect_for_path (p @ replicate k (CHR ''/'')) = dialect_for_path p
   \<and> dialect_for_path (base @ ''/chat/completions'' @ replicate k (CHR ''/'')) = Some OpenAiChat"
proof -
  have slash: "trim_end_matches [CHR ''/''] (q @ replicate k (CHR ''/'')) = trim_end_matches [CHR ''/''] q"
    for q by (induction k) (simp_all add: trim_end_matches_snoc replicate_append_same [symmetric]
        flip: append_assoc)
  have "trim_end_matches [CHR ''/''] (base @ ''/chat/completions'') = base @ ''/chat/completions''"
    by (rule trim_end_matches_id) simp
  then have "dialect_for_path (base @ ''/chat/completions'') = Some OpenAiChat"
    by (simp add: dialect_for_path_def ends_with_iff Let_def)
  then show ?thesis
    using slash [of p] slash [of "base @ ''/chat/completions''"] by (simp add: dialect_for_path_def)
qed

end
