(* ===== verification/Ident_Digest.thy ===== *)
theory Ident_Digest
  imports Rust_Text
begin

text \<open>
  Prefix digests (\<open>crates/tailfin-ident/src/lib.rs\<close>: \<open>LEVELS\<close>, \<open>fnv1a\<close>, \<open>PrefixDigest\<close>). A message
  is its canonical bytes. The digest is specified by hashes of prefixes at the six depths; the
  hash is shown to be injective in its state, so conversations that diverged stay apart.
\<close>

unbundle bit_operations_syntax

section \<open>FNV-1a\<close>

definition FNV_OFFSET :: u64 where
  "FNV_OFFSET = 0xcbf29ce484222325"

definition FNV_PRIME :: u64 where
  "FNV_PRIME = 0x100000001b3"

definition fnv_step :: "u64 \<Rightarrow> char \<Rightarrow> u64" where
  "fnv_step h b = (h XOR of_char b) * FNV_PRIME"

definition fnv1a :: "u64 \<Rightarrow> string \<Rightarrow> u64" where
  "fnv1a h bytes = foldl fnv_step h bytes"

section \<open>PrefixDigest\<close>

definition LEVELS :: "nat list" where
  "LEVELS = [1, 2, 4, 8, 16, 32]"

record prefix_digest =
  pd_levels :: "u64 option list"

definition set_level :: "nat \<Rightarrow> u64 \<Rightarrow> u64 option list \<Rightarrow> u64 option list" where
  "set_level depth rolling lv =
    map2 (\<lambda>l x. if depth = l then Some rolling else x) LEVELS lv"

fun digest_loop :: "nat \<Rightarrow> u64 \<Rightarrow> u64 option list \<Rightarrow> string list \<Rightarrow> u64 option list" where
  "digest_loop idx rolling lv [] = lv"
| "digest_loop idx rolling lv (msg # msgs) =
    (let rolling1 = fnv1a rolling msg;
         rolling2 = fnv1a rolling1 [CHR 0x1E];
         depth = idx + 1;
         lv' = set_level depth rolling2 lv
     in if last LEVELS \<le> depth then lv' else digest_loop (idx + 1) rolling2 lv' msgs)"

definition from_messages :: "string list \<Rightarrow> prefix_digest" where
  "from_messages msgs =
    \<lparr>pd_levels = digest_loop 0 FNV_OFFSET (replicate (length LEVELS) None) msgs\<rparr>"

fun match_loop :: "nat \<Rightarrow> nat option \<Rightarrow> u64 option list \<Rightarrow> u64 option list \<Rightarrow> nat option" where
  "match_loop i best (Some a # as) (Some b # bs) =
    (if a = b then match_loop (Suc i) (Some i) as bs else best)"
| "match_loop i best _ _ = best"

definition match_level :: "prefix_digest \<Rightarrow> prefix_digest \<Rightarrow> nat option" where
  "match_level s other = match_loop 0 None (pd_levels s) (pd_levels other)"

definition shared_depth :: "prefix_digest \<Rightarrow> prefix_digest \<Rightarrow> nat" where
  "shared_depth s other = (case match_level s other of Some i \<Rightarrow> LEVELS ! i | None \<Rightarrow> 0)"

definition has_level :: "prefix_digest \<Rightarrow> nat \<Rightarrow> bool" where
  "has_level s idx \<longleftrightarrow> idx < length (pd_levels s) \<and> pd_levels s ! idx \<noteq> None"

section \<open>The hash is injective in its state\<close>

definition FNV_PRIME_INV :: u64 where
  "FNV_PRIME_INV = 0xce965057aff6957b"

lemma FNV_PRIME_inverse: "FNV_PRIME * FNV_PRIME_INV = 1"
  by (simp add: FNV_PRIME_def FNV_PRIME_INV_def)

lemma times_prime_inject: "a * FNV_PRIME = b * FNV_PRIME \<longleftrightarrow> a = b"
proof
  assume "a * FNV_PRIME = b * FNV_PRIME"
  then have "a * (FNV_PRIME * FNV_PRIME_INV) = b * (FNV_PRIME * FNV_PRIME_INV)"
    by (metis mult.assoc)
  then show "a = b" by (simp add: FNV_PRIME_inverse)
qed simp

lemma xor_right_inject: "a XOR c = b XOR c \<longleftrightarrow> a = b" for a :: "'a::len word"
  by (metis xor.assoc xor.right_neutral xor_self_eq)

lemma xor_left_inject: "c XOR a = c XOR b \<longleftrightarrow> a = b" for a :: "'a::len word"
  by (simp add: xor.commute [of c] xor_right_inject)

lemma of_char_u64: "(of_char c :: u64) = of_nat (of_char c)"
  by (simp add: of_nat_of_char)

lemma of_char_less_256: "(of_char c :: nat) < 256"
  by (metis of_char_mod_256 mod_less_divisor zero_less_numeral)

lemma unat_of_char_u64: "unat (of_char c :: u64) = of_char c"
proof -
  have "(of_char c :: nat) < 2 ^ LENGTH(64)"
    by (rule less_trans [OF of_char_less_256]) simp
  then have "of_char c mod 2 ^ LENGTH(64) = (of_char c :: nat)" by (rule mod_less)
  then show ?thesis by (simp only: of_char_u64 unat_of_nat)
qed

lemma of_char_u64_inject: "(of_char a :: u64) = of_char b \<longleftrightarrow> a = b"
  by (metis unat_of_char_u64 of_char_eq_iff)

lemma fnv_step_inject: "fnv_step h b = fnv_step h' b \<longleftrightarrow> h = h'"
  by (simp add: fnv_step_def times_prime_inject xor_right_inject)

lemma fnv_step_byte_inject: "fnv_step h b = fnv_step h b' \<longleftrightarrow> b = b'"
  by (simp add: fnv_step_def times_prime_inject xor_left_inject of_char_u64_inject)

lemma fnv1a_inject: "fnv1a h bs = fnv1a h' bs \<longleftrightarrow> h = h'"
  by (induction bs arbitrary: h h') (simp_all add: fnv1a_def fnv_step_inject)

lemma fnv1a_append: "fnv1a h (a @ b) = fnv1a (fnv1a h a) b"
  by (simp add: fnv1a_def)

section \<open>The digest is a table of prefix hashes\<close>

definition prefix_hash :: "string list \<Rightarrow> u64" where
  "prefix_hash ms = foldl (\<lambda>h m. fnv1a (fnv1a h m) [CHR 0x1E]) FNV_OFFSET ms"

definition level_table :: "nat \<Rightarrow> string list \<Rightarrow> u64 option list" where
  "level_table d ms = map (\<lambda>l. if l \<le> d then Some (prefix_hash (take l ms)) else None) LEVELS"

lemma prefix_hash_snoc: "prefix_hash (ms @ [m]) = fnv1a (fnv1a (prefix_hash ms) m) [CHR 0x1E]"
  by (simp add: prefix_hash_def)

lemma set_level_table:
  assumes "d < length ms"
  shows "set_level (Suc d) (prefix_hash (take (Suc d) ms)) (level_table d ms) = level_table (Suc d) ms"
  by (auto simp: set_level_def level_table_def map2_map_map le_Suc_eq zip_map2 zip_same_conv_map)

lemma level_table_max: "32 \<le> d \<Longrightarrow> 32 \<le> e \<Longrightarrow> level_table d ms = level_table e ms"
  by (simp add: level_table_def LEVELS_def)

lemma digest_loop_table:
  "length pre = idx \<Longrightarrow> idx < 32 \<Longrightarrow>
    digest_loop idx (prefix_hash pre) (level_table idx (pre @ rest)) rest =
      level_table (idx + length rest) (pre @ rest)"
proof (induction rest arbitrary: pre idx)
  case (Cons m rest)
  let ?ms = "pre @ m # rest"
  have tk: "take (Suc idx) ?ms = pre @ [m]" using Cons.prems by simp
  have lv: "set_level (Suc idx) (prefix_hash (pre @ [m])) (level_table idx ?ms) = level_table (Suc idx) ?ms"
    using set_level_table [of idx ?ms] Cons.prems(1) by (simp add: tk)
  show ?case
  proof (cases "32 \<le> Suc idx")
    case True
    then have "level_table (Suc idx) ?ms = level_table (idx + length (m # rest)) ?ms"
      by (intro level_table_max) simp_all
    with True lv show ?thesis by (simp add: prefix_hash_snoc LEVELS_def)
  next
    case False
    then show ?thesis
      using Cons.IH [of "pre @ [m]" "Suc idx"] Cons.prems lv
      by (simp add: prefix_hash_snoc LEVELS_def)
  qed
qed simp

text \<open>\<open>level_floor k\<close> is the deepest level that \<open>k\<close> messages reach, or 0.\<close>

definition level_floor :: "nat \<Rightarrow> nat" where
  "level_floor k = last (0 # filter (\<lambda>l. l \<le> k) LEVELS)"

definition agree :: "u64 option \<Rightarrow> u64 option \<Rightarrow> bool" where
  "agree x y \<longleftrightarrow> x \<noteq> None \<and> x = y"

lemma match_loop_agree:
  "match_loop i best (map f ls) (map g ls) =
    (case takeWhile (\<lambda>l. agree (f l) (g l)) ls of [] \<Rightarrow> best | _ # t \<Rightarrow> Some (i + length t))"
proof (induction ls arbitrary: i best)
  case (Cons l ls)
  then show ?case
    by (cases "f l"; cases "g l") (auto simp: agree_def split: list.splits)
qed simp

lemma shared_depth_table:
  assumes "\<And>l. l \<in> set LEVELS \<Longrightarrow> agree (f l) (g l) \<longleftrightarrow> l \<le> k"
  shows "shared_depth \<lparr>pd_levels = map f LEVELS\<rparr> \<lparr>pd_levels = map g LEVELS\<rparr> = level_floor k"
proof -
  have "takeWhile (\<lambda>l. agree (f l) (g l)) LEVELS = takeWhile (\<lambda>l. l \<le> k) LEVELS"
    using assms by (intro takeWhile_cong) auto
  then show ?thesis
    by (simp add: shared_depth_def match_level_def level_floor_def match_loop_agree) (simp add: LEVELS_def)
qed

lemma from_messages_eq:
  "from_messages ms =
    \<lparr>pd_levels = map (\<lambda>l. if l \<le> length ms then Some (prefix_hash (take l ms)) else None) LEVELS\<rparr>"
proof -
  have "replicate (length LEVELS) None = level_table 0 ms"
    by (simp add: level_table_def LEVELS_def)
  then show ?thesis
    using digest_loop_table [of "[]" 0 ms]
    by (simp add: from_messages_def level_table_def prefix_hash_def)
qed

text \<open>
  The digest of a conversation holds, for each depth of \<open>LEVELS\<close> the conversation reaches, the
  hash of exactly that prefix, and \<open>None\<close> for the depths it does not reach: later messages never
  change a shallower level.
\<close>

lemma from_messages_table:
  "pd_levels (from_messages ms) =
    map (\<lambda>l. if l \<le> length ms then Some (prefix_hash (take l ms)) else None) LEVELS"
  by (simp add: from_messages_eq)

lemma shared_depth_from_messages:
  assumes "\<And>l. l \<in> set LEVELS \<Longrightarrow>
    (l \<le> length a \<and> l \<le> length b \<and> prefix_hash (take l a) = prefix_hash (take l b)) \<longleftrightarrow> l \<le> k"
  shows "shared_depth (from_messages a) (from_messages b) = level_floor k"
  unfolding from_messages_eq using assms by (intro shared_depth_table) (auto simp: agree_def)

lemma prefix_hash_append_inject:
  "prefix_hash (a @ c) = prefix_hash (b @ c) \<longleftrightarrow> prefix_hash a = prefix_hash b"
  by (induction c rule: rev_induct) (simp_all add: prefix_hash_snoc fnv1a_inject flip: append_assoc)

lemma fnv1a_edit: "x \<noteq> y \<Longrightarrow> fnv1a h (u @ x # v) \<noteq> fnv1a h (u @ y # v)"
  using fnv1a_append [of h "u @ [x]" v] fnv1a_append [of h "u @ [y]" v]
  by (simp add: fnv1a_inject) (simp add: fnv1a_def fnv_step_byte_inject)

text \<open>
  A conversation and any continuation of it share every level the shorter one reaches: appending
  turns never breaks the match, so an agent's next request lands on the session of its previous one.
\<close>

lemma shared_depth_extension:
  "shared_depth (from_messages ms) (from_messages (ms @ ext)) = level_floor (length ms)"
  by (rule shared_depth_from_messages) auto

lemma shared_depth_one_edit:
  assumes "x \<noteq> y"
  shows "shared_depth (from_messages (pre @ (u @ x # v) # rest)) (from_messages (pre @ (u @ y # v) # rest)) =
    level_floor (length pre)"
proof (rule shared_depth_from_messages)
  fix l
  let ?a = "u @ x # v" and ?b = "u @ y # v"
  show "(l \<le> length (pre @ ?a # rest) \<and> l \<le> length (pre @ ?b # rest) \<and>
      prefix_hash (take l (pre @ ?a # rest)) = prefix_hash (take l (pre @ ?b # rest))) \<longleftrightarrow>
    l \<le> length pre"
  proof (cases "l \<le> length pre")
    case False
    then obtain n where "l - length pre = Suc n" by (metis diff_is_0_eq not0_implies_Suc)
    moreover have "prefix_hash ((pre @ [?a]) @ take n rest) \<noteq> prefix_hash ((pre @ [?b]) @ take n rest)"
      unfolding prefix_hash_append_inject
      by (simp add: prefix_hash_snoc fnv1a_inject fnv1a_edit [OF assms])
    ultimately show ?thesis using False by simp
  qed simp
qed

text \<open>
  C22. A change of one byte in one message is seen at every level from that message on, whatever
  follows: the two digests share exactly the levels that lie before the edited message. No
  assumption is made on the hash; FNV-1a never merges two states again.
\<close>

theorem shared_depth_edit:
  assumes "x \<noteq> y"
  shows "shared_depth (from_messages (pre @ (u @ x # v) # rest)) (from_messages (pre @ (u @ y # v) # rest)) =
    level_floor (length pre)"
  using assms by (rule shared_depth_one_edit)

theorem shared_depth_edit_witness:
  "shared_depth (from_messages [''a'', ''b'', ''c'']) (from_messages [''a'', ''b'', ''d'']) = 2"
  using shared_depth_edit [of "CHR ''c''" "CHR ''d''" "[''a'', ''b'']" "[]" "[]" "[]"]
  by (simp add: level_floor_def LEVELS_def)

end
