(* ===== verification/Ident_Session.thy ===== *)
theory Ident_Session
  imports Ident_Digest Rust_Float
begin

text \<open>
  Who a request belongs to (\<open>crates/tailfin-ident/src/lib.rs\<close>): the declared identity read from
  headers, the scraping of Codex's metadata, and \<open>SessionIndex\<close>, which attaches undeclared
  requests to a live conversation. A header view (the trait \<open>Headers\<close>) is a function from header
  name to value. Strings are UTF-8 bytes: the characters the scraper tests are ASCII, so reading
  bytes where the code reads characters collects the same text.
\<close>

section \<open>Identity\<close>

datatype identity_source =
    Declared (ds_session: string) (ds_node: "string option") (ds_parent: "string option")
  | Inferred (is_depth: nat)
  | Anonymous

text \<open>The \<open>f32\<close> nearest to 0.99, the upper end of the clamp.\<close>

definition f32_0_99 :: fp where
  "f32_0_99 = Fin (4152361 / 4194304)"

fun confidence :: "identity_source \<Rightarrow> fp" where
  "confidence (Declared _ _ _) = Fin 1"
| "confidence (Inferred d) = fp_clamp (f32_div (f32_round (of_nat d)) (Fin 32)) (Fin (1 / 4)) f32_0_99"
| "confidence Anonymous = Fin 0"

fun is_declared :: "identity_source \<Rightarrow> bool" where
  "is_declared (Declared _ _ _) = True"
| "is_declared _ = False"

record node_ref =
  nr_root :: string
  nr_node :: string
  nr_parent :: "string option"
  nr_source :: identity_source

definition is_root :: "node_ref \<Rightarrow> bool" where
  "is_root r \<longleftrightarrow> nr_node r = nr_root r"

section \<open>Scraping Codex metadata\<close>

fun scrape_loop :: "string \<Rightarrow> bool \<Rightarrow> string \<Rightarrow> string option" where
  "scrape_loop out escaped [] = None"
| "scrape_loop out escaped (c # cs) =
    (if escaped then scrape_loop (out @ [c]) False cs
     else if c = CHR 0x5C then scrape_loop out True cs
     else if c = CHR 0x22 then Some out
     else scrape_loop (out @ [c]) False cs)"

definition scrape_json_string :: "string \<Rightarrow> string \<Rightarrow> string option" where
  "scrape_json_string hay key =
    (let pat = CHR 0x22 # key @ [CHR 0x22] in
     case find_str hay pat of
       None \<Rightarrow> None
     | Some i \<Rightarrow>
         let rest = drop (i + length pat) hay in
         case find_pred rest (\<lambda>c. c = CHR '':'') of
           None \<Rightarrow> None
         | Some colon \<Rightarrow>
             case trim_start (drop (colon + 1) rest) of
               [] \<Rightarrow> None
             | c # cs \<Rightarrow> if c \<noteq> CHR 0x22 then None else scrape_loop [] False cs)"

definition parse_codex_metadata :: "string \<Rightarrow> identity_source option" where
  "parse_codex_metadata raw =
    (case (case scrape_json_string raw ''root_turn_id'' of
             Some r \<Rightarrow> Some r
           | None \<Rightarrow> scrape_json_string raw ''session_id'') of
       None \<Rightarrow> None
     | Some rid \<Rightarrow>
         let turn = scrape_json_string raw ''turn_id'';
             parent = scrape_json_string raw ''parent_turn_id''
         in Some (Declared rid turn parent))"

type_synonym headers = "string \<Rightarrow> string option"

definition from_headers :: "headers \<Rightarrow> identity_source option" where
  "from_headers h =
    (case h ''x-claude-code-session-id'' of
       Some session \<Rightarrow>
         Some (Declared session (h ''x-claude-code-agent-id'') (h ''x-claude-code-parent-agent-id''))
     | None \<Rightarrow>
         case h ''x-codex-turn-metadata'' of
           Some raw \<Rightarrow> parse_codex_metadata raw
         | None \<Rightarrow> None)"

section \<open>SessionIndex\<close>

record live =
  lv_root :: string
  lv_digest :: prefix_digest
  lv_depth_seen :: nat

record session_index =
  si_live :: "live list"
  si_min_level_idx :: nat
  si_next :: u64

definition session_index_new :: session_index where
  "session_index_new = \<lparr>si_live = [], si_min_level_idx = 1, si_next = 0\<rparr>"

definition with_min_level :: "nat \<Rightarrow> session_index \<Rightarrow> session_index" where
  "with_min_level idx s = s\<lparr>si_min_level_idx := min idx (length LEVELS - 1)\<rparr>"

text \<open>\<open>format!("<prefix>{:06}", n)\<close>.\<close>

definition session_name :: "string \<Rightarrow> u64 \<Rightarrow> string" where
  "session_name pre n = pre @ pad_left (CHR ''0'') 6 (show_nat (unat n))"

definition anonymous :: "session_index \<Rightarrow> session_index \<times> node_ref" where
  "anonymous s =
    (let n = si_next s + 1; rid = session_name ''anon-'' n
     in (s\<lparr>si_next := n\<rparr>, \<lparr>nr_root = rid, nr_node = rid, nr_parent = None, nr_source = Anonymous\<rparr>))"

fun best_loop ::
  "nat \<Rightarrow> live list \<Rightarrow> prefix_digest \<Rightarrow> nat \<Rightarrow> (nat \<times> nat) option \<Rightarrow> (nat \<times> nat) option" where
  "best_loop i [] d min_level best = best"
| "best_loop i (l # ls) d min_level best =
    best_loop (i + 1) ls d min_level
      (case match_level (lv_digest l) d of
         Some lv \<Rightarrow>
           if min_level \<le> lv \<and> (case best of None \<Rightarrow> True | Some (_, b) \<Rightarrow> b < lv)
           then Some (i, lv) else best
       | None \<Rightarrow> best)"

definition declared_ref :: "string \<Rightarrow> string option \<Rightarrow> string option \<Rightarrow> node_ref" where
  "declared_ref session node parent =
    \<lparr>nr_root = session,
     nr_node = (case node of Some n \<Rightarrow> n | None \<Rightarrow> session),
     nr_parent = (case parent of Some p \<Rightarrow> Some p | None \<Rightarrow> map_option (\<lambda>_. session) node),
     nr_source = Declared session node parent\<rparr>"

definition inferred_ref :: "string \<Rightarrow> nat \<Rightarrow> node_ref" where
  "inferred_ref rid shared =
    \<lparr>nr_root = rid, nr_node = rid, nr_parent = None, nr_source = Inferred shared\<rparr>"

definition deepen :: "nat \<Rightarrow> prefix_digest \<Rightarrow> live \<Rightarrow> live" where
  "deepen shared d l =
    (if lv_depth_seen l < shared then l\<lparr>lv_depth_seen := shared, lv_digest := d\<rparr> else l)"

definition resolve_inferred :: "prefix_digest \<Rightarrow> session_index \<Rightarrow> session_index \<times> node_ref" where
  "resolve_inferred d s =
    (case best_loop 0 (si_live s) d (si_min_level_idx s) None of
       Some (i, lv) \<Rightarrow>
         let shared = LEVELS ! lv
         in (s\<lparr>si_live := (si_live s)[i := deepen shared d (si_live s ! i)]\<rparr>,
             inferred_ref (lv_root (si_live s ! i)) shared)
     | None \<Rightarrow>
         let n = si_next s + 1; rid = session_name ''inferred-'' n
         in (s\<lparr>si_next := n,
               si_live := si_live s @ [\<lparr>lv_root = rid, lv_digest = d, lv_depth_seen = 0\<rparr>]\<rparr>,
             inferred_ref rid 0))"

definition resolve ::
  "headers \<Rightarrow> prefix_digest option \<Rightarrow> session_index \<Rightarrow> session_index \<times> node_ref" where
  "resolve h digest s =
    (case from_headers h of
       Some (Declared session node parent) \<Rightarrow> (s, declared_ref session node parent)
     | _ \<Rightarrow> (case digest of None \<Rightarrow> anonymous s | Some d \<Rightarrow> resolve_inferred d s))"

definition live_sessions :: "session_index \<Rightarrow> nat" where
  "live_sessions s = length (si_live s)"

definition retain :: "(string \<Rightarrow> bool) \<Rightarrow> session_index \<Rightarrow> session_index" where
  "retain keep s = s\<lparr>si_live := filter (\<lambda>l. keep (lv_root l)) (si_live s)\<rparr>"

section \<open>What a match says\<close>

lemma match_loop_Some:
  "match_loop i best xs ys = Some lv \<Longrightarrow>
    best = Some lv \<or> (i \<le> lv \<and> lv < i + length xs \<and> lv < i + length ys \<and> xs ! (lv - i) \<noteq> None)"
proof (induction i best xs ys rule: match_loop.induct)
  case (1 i best a as b bs)
  show ?case
  proof (cases "a = b")
    case True
    with 1 have "Some i = Some lv \<or>
        (Suc i \<le> lv \<and> lv < Suc i + length as \<and> lv < Suc i + length bs \<and> as ! (lv - Suc i) \<noteq> None)"
      by simp
    then show ?thesis by (auto simp: nth_Cons')
  qed (use 1 in simp)
qed auto

lemma match_level_Some:
  assumes "match_level a b = Some lv"
  shows "has_level a lv" "lv < length (pd_levels b)"
  using match_loop_Some [of 0 None "pd_levels a" "pd_levels b" lv] assms
  by (auto simp: match_level_def has_level_def)

lemma length_from_messages [simp]: "length (pd_levels (from_messages ms)) = 6"
  by (simp add: from_messages_eq LEVELS_def)

lemma LEVELS_strict: "i < j \<Longrightarrow> j < 6 \<Longrightarrow> LEVELS ! i < LEVELS ! j"
  by (rule sorted_wrt_nth_less) (simp_all add: LEVELS_def)

lemma LEVELS_mono: "i \<le> j \<Longrightarrow> j < 6 \<Longrightarrow> LEVELS ! i \<le> LEVELS ! j"
  using LEVELS_strict [of i j] by (cases "i = j") auto

lemma LEVELS_pos: "i < 6 \<Longrightarrow> 0 < LEVELS ! i"
  using LEVELS_mono [of 0 i] by (simp add: LEVELS_def)

lemma LEVELS_le_iff: "i < 6 \<Longrightarrow> j < 6 \<Longrightarrow> LEVELS ! i \<le> LEVELS ! j \<longleftrightarrow> i \<le> j"
  by (metis LEVELS_mono LEVELS_strict linorder_not_less)

lemma LEVELS_less_iff: "i < 6 \<Longrightarrow> j < 6 \<Longrightarrow> LEVELS ! i < LEVELS ! j \<longleftrightarrow> i < j"
  by (metis LEVELS_le_iff linorder_not_less)

lemma shared_depth_match:
  assumes "m < 6" "length (pd_levels b) = 6"
  shows "LEVELS ! m \<le> shared_depth a b \<longleftrightarrow> (\<exists>lv. match_level a b = Some lv \<and> m \<le> lv)"
proof (cases "match_level a b")
  case None
  with assms LEVELS_pos [of m] show ?thesis by (simp add: shared_depth_def)
next
  case (Some lv)
  with assms match_level_Some(2) [OF Some] show ?thesis by (simp add: shared_depth_def LEVELS_le_iff)
qed

lemma match_level_lt: "match_level a b = Some lv \<Longrightarrow> length (pd_levels b) = 6 \<Longrightarrow> lv < 6"
  using match_level_Some(2) by metis

section \<open>The best live session\<close>

definition matches :: "prefix_digest \<Rightarrow> nat \<Rightarrow> live \<Rightarrow> nat \<Rightarrow> bool" where
  "matches d m l lv \<longleftrightarrow> match_level (lv_digest l) d = Some lv \<and> m \<le> lv"

definition best_so_far :: "live list \<Rightarrow> prefix_digest \<Rightarrow> nat \<Rightarrow> (nat \<times> nat) option \<Rightarrow> bool" where
  "best_so_far ls d m best \<longleftrightarrow>
    (case best of
       None \<Rightarrow> \<forall>l \<in> set ls. \<forall>lv. \<not> matches d m l lv
     | Some (i, lv) \<Rightarrow> i < length ls \<and> matches d m (ls ! i) lv \<and>
         (\<forall>j < length ls. \<forall>lv'. matches d m (ls ! j) lv' \<longrightarrow> lv' \<le> lv \<and> (j < i \<longrightarrow> lv' < lv)))"

lemma best_so_far_step:
  assumes "best_so_far ls d m best"
  shows "best_so_far (ls @ [l]) d m
    (case match_level (lv_digest l) d of
       Some lv \<Rightarrow>
         if m \<le> lv \<and> (case best of None \<Rightarrow> True | Some (_, b) \<Rightarrow> b < lv)
         then Some (length ls, lv) else best
     | None \<Rightarrow> best)"
proof (cases best)
  case None
  with assms show ?thesis
    by (auto simp: best_so_far_def matches_def nth_append split: option.splits)
next
  case (Some p)
  then obtain i b where "best = Some (i, b)" by (cases p) auto
  with assms show ?thesis
    by (auto simp: best_so_far_def matches_def nth_append less_Suc_eq split: option.splits) 
qed

lemma best_loop_best:
  "best_so_far pre d m best \<Longrightarrow> i = length pre \<Longrightarrow> best_so_far (pre @ ls) d m (best_loop i ls d m best)"
proof (induction ls arbitrary: pre best i)
  case (Cons l ls)
  show ?case
    using Cons.IH [OF best_so_far_step [OF Cons.prems(1), of l]] Cons.prems(2) by simp
qed simp

lemma best_loop_spec: "best_so_far ls d m (best_loop 0 ls d m None)"
  using best_loop_best [of "[]" d m None 0 ls] by (simp add: best_so_far_def)

text \<open>The session a digest joins, in terms of shared messages.\<close>

definition joins :: "live list \<Rightarrow> prefix_digest \<Rightarrow> nat \<Rightarrow> nat \<Rightarrow> bool" where
  "joins ls d k i \<longleftrightarrow> i < length ls \<and> k = shared_depth (lv_digest (ls ! i)) d \<and>
    (\<forall>j < length ls. shared_depth (lv_digest (ls ! j)) d \<le> k \<and>
       (j < i \<longrightarrow> shared_depth (lv_digest (ls ! j)) d < k))"

lemma best_loop_None:
  assumes "m < 6" "length (pd_levels d) = 6"
  shows "best_loop 0 ls d m None = None \<longleftrightarrow> (\<forall>l \<in> set ls. shared_depth (lv_digest l) d < LEVELS ! m)"
proof -
  have "best_loop 0 ls d m None = None \<longleftrightarrow> (\<forall>l \<in> set ls. \<forall>lv. \<not> matches d m l lv)"
  proof (cases "best_loop 0 ls d m None")
    case None
    then show ?thesis using best_loop_spec [of ls d m] by (simp add: best_so_far_def)
  next
    case (Some p)
    then obtain i lv where "best_loop 0 ls d m None = Some (i, lv)" by (cases p) auto
    then show ?thesis using best_loop_spec [of ls d m] by (auto simp: best_so_far_def)
  qed
  also have "\<dots> \<longleftrightarrow> (\<forall>l \<in> set ls. \<not> LEVELS ! m \<le> shared_depth (lv_digest l) d)"
    using assms by (simp add: shared_depth_match matches_def)
  finally show ?thesis by (simp add: not_le)
qed

lemma best_loop_joins:
  assumes d: "length (pd_levels d) = 6" and best: "best_loop 0 ls d m None = Some (i, lv)"
  shows "joins ls d (LEVELS ! lv) i \<and> LEVELS ! m \<le> LEVELS ! lv \<and> has_level (lv_digest (ls ! i)) lv"
proof -
  from best_loop_spec [of ls d m] best
  have i: "i < length ls" and mi: "match_level (lv_digest (ls ! i)) d = Some lv" and m: "m \<le> lv"
    and max: "\<And>j lv'. j < length ls \<Longrightarrow> match_level (lv_digest (ls ! j)) d = Some lv' \<Longrightarrow> m \<le> lv' \<Longrightarrow>
      lv' \<le> lv \<and> (j < i \<longrightarrow> lv' < lv)"
    by (auto simp: best_so_far_def matches_def)
  have lv: "lv < 6" using match_level_lt [OF mi d] .
  have "shared_depth (lv_digest (ls ! j)) d \<le> LEVELS ! lv \<and>
      (j < i \<longrightarrow> shared_depth (lv_digest (ls ! j)) d < LEVELS ! lv)" if j: "j < length ls" for j
  proof (cases "match_level (lv_digest (ls ! j)) d")
    case None
    then show ?thesis using LEVELS_pos [OF lv] by (simp add: shared_depth_def)
  next
    case (Some lv')
    have "lv' < 6" using match_level_lt [OF Some d] .
    moreover have "lv' \<le> lv \<and> (j < i \<longrightarrow> lv' < lv)"
    proof (cases "m \<le> lv'")
      case True then show ?thesis using max [OF j Some] by simp
    next
      case False then show ?thesis using m by simp
    qed
    ultimately show ?thesis using lv Some
      by (auto simp: shared_depth_def LEVELS_le_iff LEVELS_less_iff)
  qed
  then show ?thesis
    using i mi m lv match_level_Some(1) [OF mi] LEVELS_mono [of m lv]
    by (auto simp: joins_def shared_depth_def)
qed

lemma resolve_undeclared:
  "from_headers h = None \<Longrightarrow> resolve h (Some d) s = resolve_inferred d s"
  by (simp add: resolve_def)

lemma from_headers_declared: "from_headers h = Some src \<Longrightarrow> is_declared src"
  by (auto simp: from_headers_def parse_codex_metadata_def Let_def split: option.splits)

lemma joins_unique: "joins ls d k i \<Longrightarrow> joins ls d k' i' \<Longrightarrow> k' = k \<and> i' = i"
  by (metis joins_def linorder_neq_iff order_less_irrefl le_antisym)

section \<open>Resolution\<close>

text \<open>
  C18. A request whose digest shares at least \<open>LEVELS ! min_level\<close> messages with some live session
  joins the session it shares most with, the earliest on a tie, reports exactly the shared depth
  and opens nothing; a request that shares less with every live session opens one new session,
  named after the next number, and leaves the others as they were.
\<close>

theorem resolve_joins_deepest_or_opens:
  assumes "from_headers h = None" "si_min_level_idx s < 6"
  shows "let d = from_messages ms; m = LEVELS ! si_min_level_idx s; (s', r) = resolve h (Some d) s
    in if \<exists>l \<in> set (si_live s). m \<le> shared_depth (lv_digest l) d
       then \<exists>i k. joins (si_live s) d k i \<and> m \<le> k \<and>
         r = inferred_ref (lv_root (si_live s ! i)) k \<and> si_next s' = si_next s \<and>
         map lv_root (si_live s') = map lv_root (si_live s)
       else r = inferred_ref (session_name ''inferred-'' (si_next s + 1)) 0 \<and>
         si_live s' = si_live s @ [\<lparr>lv_root = nr_root r, lv_digest = d, lv_depth_seen = 0\<rparr>]"
proof (cases "best_loop 0 (si_live s) (from_messages ms) (si_min_level_idx s) None")
  case None
  moreover from None have "\<not> (\<exists>l \<in> set (si_live s).
      LEVELS ! si_min_level_idx s \<le> shared_depth (lv_digest l) (from_messages ms))"
    using assms(2) by (force simp: best_loop_None)
  ultimately show ?thesis
    using assms(1) by (simp add: Let_def resolve_undeclared resolve_inferred_def inferred_ref_def)
next
  case (Some p)
  then obtain i lv where best: "best_loop 0 (si_live s) (from_messages ms) (si_min_level_idx s) None = Some (i, lv)"
    by (cases p) auto
  have j: "joins (si_live s) (from_messages ms) (LEVELS ! lv) i" "LEVELS ! si_min_level_idx s \<le> LEVELS ! lv"
    using best_loop_joins [OF _ best] by simp_all
  have "\<exists>l \<in> set (si_live s). LEVELS ! si_min_level_idx s \<le> shared_depth (lv_digest l) (from_messages ms)"
    using j by (metis joins_def nth_mem)
  moreover have "map lv_root ((si_live s)[i := deepen k d (si_live s ! i)]) = map lv_root (si_live s)" for k d
    using j(1) by (intro nth_equalityI) (auto simp: joins_def nth_list_update deepen_def)
  ultimately show ?thesis
    using assms(1) best j by (auto simp: Let_def resolve_undeclared resolve_inferred_def inferred_ref_def)
qed

theorem resolve_joins_deepest_or_opens_witness:
  "nr_source (snd (resolve Map.empty (Some (from_messages [''s'', ''u''])) session_index_new)) = Inferred 0"
  using resolve_joins_deepest_or_opens [of Map.empty session_index_new "[''s'', ''u'']"]
  by (simp add: from_headers_def session_index_new_def Let_def split_beta inferred_ref_def)

definition saturated :: "live \<Rightarrow> bool" where
  "saturated l \<longleftrightarrow> (\<forall>idx < 6. has_level (lv_digest l) idx \<longrightarrow> LEVELS ! idx \<le> lv_depth_seen l)"

definition resolve_all :: "(headers \<times> string list option) list \<Rightarrow> session_index \<Rightarrow> session_index" where
  "resolve_all rs s = fold (\<lambda>(h, ms) s. fst (resolve h (map_option from_messages ms) s)) rs s"

lemma resolve_live:
  "si_live (fst (resolve h (map_option from_messages ms) s)) = si_live s \<or>
   (\<exists>l. si_live (fst (resolve h (map_option from_messages ms) s)) = si_live s @ [l]) \<or>
   (\<exists>i lv d. i < length (si_live s) \<and> lv < 6 \<and> has_level (lv_digest (si_live s ! i)) lv \<and>
     si_live (fst (resolve h (map_option from_messages ms) s)) =
       (si_live s)[i := deepen (LEVELS ! lv) d (si_live s ! i)])"
proof (cases "\<exists>src. from_headers h = Some src")
  case True
  then show ?thesis using from_headers_declared by (cases "from_headers h") (fastforce simp: resolve_def split: identity_source.splits)+
next
  case False
  then have h: "from_headers h = None" by simp
  show ?thesis
  proof (cases ms)
    case None
    with h show ?thesis by (simp add: resolve_def anonymous_def Let_def)
  next
    case (Some m)
    show ?thesis
    proof (cases "best_loop 0 (si_live s) (from_messages m) (si_min_level_idx s) None")
      case None
      with h Some show ?thesis by (simp add: resolve_undeclared resolve_inferred_def Let_def)
    next
      case (Some p)
      obtain i lv where p: "p = (i, lv)" by (cases p)
      have "best_so_far (si_live s) (from_messages m) (si_min_level_idx s) (Some (i, lv))"
        using best_loop_spec Some p by metis
      then have "i < length (si_live s)" "match_level (lv_digest (si_live s ! i)) (from_messages m) = Some lv"
        by (auto simp: best_so_far_def matches_def)
      with h \<open>ms = Some m\<close> Some p match_level_Some(1) match_level_lt show ?thesis
        by (fastforce simp: resolve_undeclared resolve_inferred_def Let_def)
    qed
  qed
qed

lemma saturated_step:
  assumes "i < length (si_live s)" "saturated (si_live s ! i)"
  shows "i < length (si_live (fst (resolve h (map_option from_messages ms) s))) \<and>
    si_live (fst (resolve h (map_option from_messages ms) s)) ! i = si_live s ! i"
  using resolve_live [of h ms s] assms
  by (auto simp: saturated_def nth_append nth_list_update deepen_def not_less)

text \<open>
  A session whose stored digest reaches no deeper level than the depth recorded for it is never
  updated again, whatever requests follow: from then on every continuation is reported at that
  depth, however long the conversation grows.
\<close>

lemma session_frozen:
  assumes "i < length (si_live s)" "saturated (si_live s ! i)"
  shows "si_live (resolve_all rs s) ! i = si_live s ! i"
proof -
  have "i < length (si_live (resolve_all rs s)) \<and> si_live (resolve_all rs s) ! i = si_live s ! i"
    using assms
  proof (induction rs arbitrary: s)
    case (Cons r rs)
    obtain h ms where r: "r = (h, ms)" by (cases r)
    show ?case
      using Cons.IH [of "fst (resolve h (map_option from_messages ms) s)"] Cons.prems
        saturated_step [OF Cons.prems, of h ms] r
      by (simp add: resolve_all_def)
  qed (simp add: resolve_all_def)
  then show ?thesis ..
qed

lemma has_level_from_messages:
  "has_level (from_messages ms) idx \<longleftrightarrow> idx < 6 \<and> LEVELS ! idx \<le> length ms"
proof -
  have "length LEVELS = 6" by (simp add: LEVELS_def)
  then show ?thesis by (auto simp: has_level_def from_messages_eq split: if_splits)
qed

lemma session_frozen_witness:
  "si_live (resolve_all [(Map.empty, Some (replicate 40 ''a''))]
      \<lparr>si_live = [\<lparr>lv_root = ''r'', lv_digest = from_messages (replicate 6 ''a''), lv_depth_seen = 4\<rparr>],
       si_min_level_idx = 1, si_next = 1\<rparr>) ! 0 =
    \<lparr>lv_root = ''r'', lv_digest = from_messages (replicate 6 ''a''), lv_depth_seen = 4\<rparr>"
proof -
  have "saturated \<lparr>lv_root = ''r'', lv_digest = from_messages (replicate 6 ''a''), lv_depth_seen = 4\<rparr>"
    by (auto simp: saturated_def has_level_from_messages eval_nat_numeral less_Suc_eq LEVELS_def)
  then show ?thesis
    by (subst session_frozen) simp_all
qed

lemma match_level_extension:
  "match_level (from_messages ms) (from_messages (ms @ ext)) =
    (case takeWhile (\<lambda>l. l \<le> length ms) LEVELS of [] \<Rightarrow> None | _ # t \<Rightarrow> Some (length t))"
proof -
  have "takeWhile (\<lambda>l. agree (if l \<le> length ms then Some (prefix_hash (take l ms)) else None)
      (if l \<le> length (ms @ ext) then Some (prefix_hash (take l (ms @ ext))) else None)) LEVELS =
    takeWhile (\<lambda>l. l \<le> length ms) LEVELS"
    by (intro takeWhile_cong) (auto simp: agree_def)
  then show ?thesis
    by (simp add: match_level_def from_messages_eq match_loop_agree split: list.split)
qed

text \<open>
  The session digest does not grow with the conversation, against the comment on the field
  \<open>depth_seen\<close>: an agent that sends two more messages per request, seen first at two messages, is
  still reported at a shared depth of four at its 32nd message and beyond.
\<close>

lemma digest_stops_growing:
  "let ms = map (\<lambda>c. [c]) ''abcdef'';
       q = (\<lambda>n. (Map.empty, Some (take n ms)));
       s = resolve_all [q 2, q 4, q 6] session_index_new
   in nr_source (snd (resolve Map.empty (Some (from_messages (ms @ ext))) s)) = Inferred 4"
proof -
  let ?ms = "map (\<lambda>c. [c]) ''abcdef''"
  have m: "match_level (from_messages [''a'', ''b'']) (from_messages [''a'', ''b'', ''c'', ''d'']) = Some 1"
      "match_level (from_messages [''a'', ''b'', ''c'', ''d''])
         (from_messages [''a'', ''b'', ''c'', ''d'', ''e'', ''f'']) = Some 2"
      "match_level (from_messages [''a'', ''b'', ''c'', ''d'', ''e'', ''f''])
         (from_messages (''a'' # ''b'' # ''c'' # ''d'' # ''e'' # ''f'' # ext)) = Some 2"
    using match_level_extension [of "[''a'', ''b'']" "[''c'', ''d'']"]
      match_level_extension [of "[''a'', ''b'', ''c'', ''d'']" "[''e'', ''f'']"]
      match_level_extension [of "[''a'', ''b'', ''c'', ''d'', ''e'', ''f'']" ext]
    by (simp_all add: LEVELS_def)
  then show ?thesis
    by (simp add: Let_def resolve_all_def resolve_def from_headers_def resolve_inferred_def
        session_index_new_def deepen_def inferred_ref_def LEVELS_def)
qed

section \<open>Names and conversations\<close>

lemma session_name_inject: "session_name p a = session_name p b \<longleftrightarrow> a = b"
proof
  assume "session_name p a = session_name p b"
  then have "digits_val (pad_left (CHR ''0'') 6 (show_nat (unat a))) =
      digits_val (pad_left (CHR ''0'') 6 (show_nat (unat b)))"
    by (simp add: session_name_def)
  then show "a = b" by (simp only: digits_val_pad word_unat_eq_iff)
qed simp

lemma unat_Suc_bound: "unat (n :: u64) + 1 < 2 ^ 64 \<Longrightarrow> unat (n + 1) = unat n + 1"
  using unat_add_bound [of n 1] by simp

definition numbered :: "session_index \<Rightarrow> bool" where
  "numbered s \<longleftrightarrow> distinct (map lv_root (si_live s)) \<and>
    (\<forall>l \<in> set (si_live s). \<exists>n. unat n \<le> unat (si_next s) \<and> lv_root l = session_name ''inferred-'' n)"

lemma numbered_fresh:
  assumes "numbered s" "unat (si_next s) + 1 < 2 ^ 64"
  shows "session_name ''inferred-'' (si_next s + 1) \<notin> set (map lv_root (si_live s))"
  using assms by (fastforce simp: numbered_def session_name_inject unat_Suc_bound)

lemma resolve_roots:
  defines "r h ms s \<equiv> fst (resolve h (map_option from_messages ms) s)"
  shows "(map lv_root (si_live (r h ms s)) = map lv_root (si_live s) \<and>
      (si_next (r h ms s) = si_next s \<or> si_next (r h ms s) = si_next s + 1)) \<or>
    (map lv_root (si_live (r h ms s)) =
        map lv_root (si_live s) @ [session_name ''inferred-'' (si_next s + 1)] \<and>
      si_next (r h ms s) = si_next s + 1)"
proof (cases "from_headers h")
  case None
  show ?thesis
  proof (cases ms)
    case (Some m)
    have e: "map lv_root ((si_live s)[i := deepen k d (si_live s ! i)]) = map lv_root (si_live s)" for i k d
      by (cases "i < length (si_live s)")
        (auto intro!: nth_equalityI simp: nth_list_update deepen_def list_update_beyond)
    show ?thesis
      using None Some
      by (auto simp: r_def resolve_undeclared resolve_inferred_def Let_def e split: option.splits)
  qed (use None in \<open>simp add: r_def resolve_def anonymous_def Let_def\<close>)
next
  case (Some src)
  then show ?thesis using from_headers_declared [OF Some] by (cases src) (simp_all add: r_def resolve_def)
qed

lemma numbered_step:
  assumes "numbered s" "unat (si_next s) + 1 < 2 ^ 64"
  shows "numbered (fst (resolve h (map_option from_messages ms) s)) \<and>
    unat (si_next (fst (resolve h (map_option from_messages ms) s))) \<le> unat (si_next s) + 1"
proof -
  let ?s = "fst (resolve h (map_option from_messages ms) s)"
  have n: "unat (si_next s + 1) = unat (si_next s) + 1" using assms(2) by (rule unat_Suc_bound)
  have iff: "numbered t \<longleftrightarrow> distinct (map lv_root (si_live t)) \<and>
    (\<forall>x \<in> set (map lv_root (si_live t)). \<exists>n. unat n \<le> unat (si_next t) \<and> x = session_name ''inferred-'' n)" for t
    by (simp add: numbered_def)
  show ?thesis
    using resolve_roots [of h ms s] assms(1) numbered_fresh [OF assms] n
    unfolding iff by (elim disjE conjE) (auto intro: le_SucI exI [of _ "si_next s + 1"] simp flip: set_map)
qed

text \<open>
  C26. Two live sessions never carry the same root, however many requests were resolved (fewer than
  \<open>2 ^ 64\<close>): the names of opened sessions are numbered and their decimal form is injective.
\<close>

theorem live_roots_distinct:
  assumes "length rs < 2 ^ 64"
  shows "distinct (map lv_root (si_live (resolve_all rs session_index_new)))"
proof -
  have "numbered s \<Longrightarrow> unat (si_next s) + length rs < 2 ^ 64 \<Longrightarrow> numbered (resolve_all rs s)" for s
  proof (induction rs arbitrary: s)
    case (Cons r rs)
    obtain h ms where r: "r = (h, ms)" by (cases r)
    have "numbered (fst (resolve h (map_option from_messages ms) s)) \<and>
        unat (si_next (fst (resolve h (map_option from_messages ms) s))) \<le> unat (si_next s) + 1"
      using Cons.prems by (intro numbered_step) simp_all
    then show ?case
      using Cons.IH [of "fst (resolve h (map_option from_messages ms) s)"] Cons.prems r
      by (simp add: resolve_all_def)
  qed (simp add: resolve_all_def)
  moreover have "numbered session_index_new" by (simp add: numbered_def session_index_new_def)
  ultimately have "numbered (resolve_all rs session_index_new)"
    using assms by (simp add: session_index_new_def)
  then show ?thesis by (simp add: numbered_def)
qed

theorem live_roots_distinct_witness:
  "distinct (map lv_root (si_live (resolve_all
    [(Map.empty, Some [''a'', ''b'']), (Map.empty, Some [''c'', ''d''])] session_index_new)))"
  by (rule live_roots_distinct) simp

lemma level_floor_ge: "m < 6 \<Longrightarrow> LEVELS ! m \<le> n \<Longrightarrow> LEVELS ! m \<le> level_floor n"
proof -
  assume m: "m < 6" "LEVELS ! m \<le> n"
  have "m = 0 \<or> m = 1 \<or> m = 2 \<or> m = 3 \<or> m = 4 \<or> m = 5" using m(1) by linarith
  with m(2) show ?thesis by (elim disjE) (simp_all add: level_floor_def LEVELS_def)
qed

lemma level_floor_le: "level_floor n \<le> n"
  by (simp add: level_floor_def LEVELS_def)

lemma match_loop_from_Some: "\<exists>lv. match_loop i (Some b) xs ys = Some lv"
  by (induction i "Some b" xs ys arbitrary: b rule: match_loop.induct) auto

lemma match_loop_ge:
  "(\<forall>b. best = Some b \<longrightarrow> b < i) \<Longrightarrow>
    (\<exists>lv. match_loop i best xs ys = Some lv \<and> i + m \<le> lv) \<longleftrightarrow>
      m < length xs \<and> m < length ys \<and> (\<forall>j \<le> m. agree (xs ! j) (ys ! j))"
proof (induction i best xs ys arbitrary: m rule: match_loop.induct)
  case (1 i best a as b bs)
  show ?case
  proof (cases "a = b")
    case True
    show ?thesis
    proof (cases m)
      case 0
      with True match_loop_from_Some [of "Suc i" i as bs] match_loop_Some [of "Suc i" "Some i" as bs]
      show ?thesis by (fastforce simp: agree_def)
    next
      case (Suc k)
      with True 1 show ?thesis by (simp add: All_less_Suc2 agree_def flip: less_Suc_eq_le)
    qed
  next
    case False
    with 1 show ?thesis by (auto simp: agree_def dest: spec [of _ 0])
  qed
qed (auto simp: agree_def dest: spec [of _ 0])

lemma match_level_ge:
  assumes "m < 6"
  shows "(\<exists>lv. match_level a (from_messages ms) = Some lv \<and> m \<le> lv) \<longleftrightarrow>
    m < length (pd_levels a) \<and> (\<forall>j \<le> m. agree (pd_levels a ! j) (pd_levels (from_messages ms) ! j))"
  using assms match_loop_ge [of None 0 "pd_levels a" "pd_levels (from_messages ms)" m]
  by (simp add: match_level_def)

lemma shared_depth_shorten:
  assumes m: "m < 6" and len: "LEVELS ! m \<le> length ms"
    and sh: "LEVELS ! m \<le> shared_depth a (from_messages (ms @ ext))"
  shows "LEVELS ! m \<le> shared_depth a (from_messages ms)"
proof -
  have "pd_levels (from_messages (ms @ ext)) ! j = pd_levels (from_messages ms) ! j" if "j \<le> m" for j
  proof -
    have "LEVELS ! j \<le> length ms" using LEVELS_mono [OF that m] len by simp
    moreover have "j < length LEVELS" using that m by (simp add: LEVELS_def)
    ultimately show ?thesis by (simp add: from_messages_eq)
  qed
  then show ?thesis
    using sh m by (simp add: shared_depth_match match_level_ge)
qed

text \<open>
  C23. A conversation that opened a session is found again: if the request that opened it declared
  nothing and had at least as many messages as the index requires to be shared, two by default, then the
  next request of the same conversation, any extension of its messages, resolves to the same root at the
  deepest level the first request reached.
\<close>

theorem continuation_joins_its_session:
  assumes h: "from_headers h = None" and m: "si_min_level_idx s < 6"
    and len: "LEVELS ! si_min_level_idx s \<le> length ms"
    and opened: "resolve h (Some (from_messages ms)) s = (s', inferred_ref rid 0)"
  shows "snd (resolve h (Some (from_messages (ms @ ext))) s') = inferred_ref rid (level_floor (length ms))"
proof -
  let ?d = "from_messages ms" and ?e = "from_messages (ms @ ext)"
  have none: "best_loop 0 (si_live s) ?d (si_min_level_idx s) None = None"
  proof (rule ccontr)
    assume "best_loop 0 (si_live s) ?d (si_min_level_idx s) None \<noteq> None"
    then obtain i lv where b: "best_loop 0 (si_live s) ?d (si_min_level_idx s) None = Some (i, lv)"
      by (cases "best_loop 0 (si_live s) ?d (si_min_level_idx s) None") auto
    then have "lv < 6" "LEVELS ! lv = 0"
      using opened h best_loop_spec [of "si_live s" ?d "si_min_level_idx s"]
      by (auto simp: resolve_undeclared resolve_inferred_def Let_def inferred_ref_def best_so_far_def
          matches_def dest: match_level_lt)
    then show False using LEVELS_pos [of lv] by simp
  qed
  let ?l = "\<lparr>lv_root = rid, lv_digest = ?d, lv_depth_seen = 0\<rparr>"
  have s': "si_live s' = si_live s @ [?l]" "si_min_level_idx s' = si_min_level_idx s"
    using none opened h by (auto simp: resolve_undeclared resolve_inferred_def Let_def inferred_ref_def)
  have low: "shared_depth (lv_digest l) ?e < LEVELS ! si_min_level_idx s" if l: "l \<in> set (si_live s)" for l
  proof -
    have a: "shared_depth (lv_digest l) ?d < LEVELS ! si_min_level_idx s"
      using none l m by (simp add: best_loop_None)
    show ?thesis
    proof (rule ccontr)
      assume "\<not> ?thesis"
      then have "LEVELS ! si_min_level_idx s \<le> shared_depth (lv_digest l) ?d"
        using shared_depth_shorten [OF m len, of "lv_digest l" ext] by simp
      with a show False by simp
    qed
  qed
  have sd: "shared_depth ?d ?e = level_floor (length ms)" by (rule shared_depth_extension)
  have ge: "LEVELS ! si_min_level_idx s \<le> level_floor (length ms)" by (rule level_floor_ge [OF m len])
  then have "\<not> (\<forall>l \<in> set (si_live s'). shared_depth (lv_digest l) ?e < LEVELS ! si_min_level_idx s')"
    using s' sd by simp
  then obtain i lv where b: "best_loop 0 (si_live s') ?e (si_min_level_idx s') None = Some (i, lv)"
    using best_loop_None [of "si_min_level_idx s'" ?e "si_live s'"] m s'(2) by fastforce
  have j: "joins (si_live s') ?e (LEVELS ! lv) i" using best_loop_joins [OF _ b] by simp
  have "joins (si_live s') ?e (level_floor (length ms)) (length (si_live s))"
    using s' sd ge low by (auto simp: joins_def nth_append less_Suc_eq) (meson less_le_trans nth_mem less_imp_le)+
  then have "LEVELS ! lv = level_floor (length ms) \<and> i = length (si_live s)"
    using joins_unique j by blast
  then show ?thesis
    using b h s' by (simp add: resolve_undeclared resolve_inferred_def Let_def)
qed

theorem continuation_joins_its_session_witness:
  "let s = fst (resolve Map.empty (Some (from_messages [''s'', ''u''])) session_index_new)
   in nr_source (snd (resolve Map.empty (Some (from_messages [''s'', ''u'', ''a'', ''v''])) s)) = Inferred 2"
proof -
  have "resolve Map.empty (Some (from_messages [''s'', ''u''])) session_index_new =
      (fst (resolve Map.empty (Some (from_messages [''s'', ''u''])) session_index_new),
       inferred_ref (session_name ''inferred-'' 1) 0)"
    by (simp add: resolve_def from_headers_def resolve_inferred_def session_index_new_def inferred_ref_def Let_def)
  from continuation_joins_its_session [OF _ _ _ this, of "[''a'', ''v'']"] show ?thesis
    by (simp add: from_headers_def session_index_new_def LEVELS_def level_floor_def inferred_ref_def)
qed

text \<open>
  The usual first request of a conversation has one message, and under the default minimum of two the
  session it opens is never found: the continuation opens another.
\<close>

lemma lone_message_is_not_found:
  "let s = fst (resolve Map.empty (Some (from_messages [msg])) session_index_new)
   in snd (resolve Map.empty (Some (from_messages (msg # ext))) s) = inferred_ref (session_name ''inferred-'' 2) 0"
proof -
  let ?a = "from_messages [msg]" and ?b = "from_messages (msg # ext)"
  have "shared_depth ?a ?b = 1"
    using shared_depth_extension [of "[msg]" ext] by (simp add: level_floor_def LEVELS_def)
  then have "best_loop 0 [\<lparr>lv_root = r, lv_digest = ?a, lv_depth_seen = 0\<rparr>] ?b 1 None = None" for r
    by (subst best_loop_None) (simp_all add: LEVELS_def)
  then show ?thesis
    by (simp add: Let_def resolve_def from_headers_def resolve_inferred_def session_index_new_def)
qed

text \<open>
  Two conversations that share only their first message (a common system prompt) and differ in
  one byte of the second are kept apart by the default index: each opens a session of its own.
\<close>

lemma system_prompt_alone_never_merges:
  assumes "x \<noteq> y"
  shows "let s = fst (resolve Map.empty (Some (from_messages (sys # (u @ x # v) # rest))) session_index_new)
    in snd (resolve Map.empty (Some (from_messages (sys # (u @ y # v) # rest))) s) =
      inferred_ref (session_name ''inferred-'' 2) 0"
proof -
  let ?a = "from_messages (sys # (u @ x # v) # rest)" and ?b = "from_messages (sys # (u @ y # v) # rest)"
  have "shared_depth ?a ?b = 1"
    using shared_depth_one_edit [OF assms, of "[sys]" u v rest] by (simp add: level_floor_def LEVELS_def)
  then have "best_loop 0 [\<lparr>lv_root = r, lv_digest = ?a, lv_depth_seen = 0\<rparr>] ?b 1 None = None" for r
    by (subst best_loop_None) (simp_all add: LEVELS_def)
  then show ?thesis
    by (simp add: Let_def resolve_def from_headers_def resolve_inferred_def session_index_new_def)
qed

lemma system_prompt_alone_never_merges_witness:
  "snd (resolve Map.empty (Some (from_messages [''sys'', ''b'']))
    (fst (resolve Map.empty (Some (from_messages [''sys'', ''a''])) session_index_new))) =
   inferred_ref (session_name ''inferred-'' 2) 0"
  using system_prompt_alone_never_merges [of "CHR ''a''" "CHR ''b''" "''sys''" "[]" "[]" "[]"]
  by (simp add: Let_def)

text \<open>
  Every resolved reference is a position of a task tree: a request without a parent is the root
  itself, and a request that declared nothing is always a root; a declared one is rooted at the
  declared session and is a child of that root when it names a node and no parent.
\<close>

lemma resolve_gives_a_position:
  "let r = snd (resolve h d s) in
    (nr_parent r = None \<longrightarrow> is_root r) \<and>
    (\<not> is_declared (nr_source r) \<longrightarrow> is_root r \<and> nr_parent r = None) \<and>
    (\<forall>session node. nr_source r = Declared session (Some node) None \<longrightarrow>
      nr_root r = session \<and> nr_node r = node \<and> nr_parent r = Some session)"
proof (cases "from_headers h")
  case None
  then show ?thesis
    by (auto simp: resolve_def anonymous_def resolve_inferred_def inferred_ref_def is_root_def Let_def
        split: option.splits)
next
  case (Some src)
  then show ?thesis using from_headers_declared [OF Some]
    by (cases src) (auto simp: resolve_def declared_ref_def is_root_def Let_def split: option.splits)
qed

lemma resolve_gives_a_position_witness:
  "nr_parent (snd (resolve [''x-claude-code-session-id'' \<mapsto> ''s'', ''x-claude-code-agent-id'' \<mapsto> ''a'']
    None session_index_new)) = Some ''s''"
  using resolve_gives_a_position
    [of "[''x-claude-code-session-id'' \<mapsto> ''s'', ''x-claude-code-agent-id'' \<mapsto> ''a'']" None session_index_new]
  by (simp add: Let_def resolve_def from_headers_def declared_ref_def)

text \<open>
  A declared identity is reported with confidence 1, an anonymous one with 0, and an inferred
  one always strictly between, whatever the shared depth.
\<close>

lemma confidence_discloses_inference:
  "case src of
     Declared _ _ _ \<Rightarrow> confidence src = Fin 1
   | Anonymous \<Rightarrow> confidence src = Fin 0
   | Inferred d \<Rightarrow> fp_lt (Fin 0) (confidence src) \<and> fp_lt (confidence src) (Fin 1)"
proof (cases src)
  case (Inferred d)
  have "f32_round q \<noteq> FNaN" for q
    by (simp add: f32_round_def fp_round_def Let_def)
  moreover have "f32_div x (Fin 32) \<noteq> FNaN" if "x \<noteq> FNaN" for x
    using that calculation by (cases x) (simp_all add: f32_div_def)
  ultimately have "f32_div (f32_round (of_nat d)) (Fin 32) \<noteq> FNaN" by simp
  then show ?thesis
    by (cases "f32_div (f32_round (of_nat d)) (Fin 32)")
      (auto simp: Inferred fp_clamp_def f32_0_99_def)
qed simp_all

section \<open>Scraping reads flat objects\<close>

abbreviation quote :: char where "quote \<equiv> CHR 0x22"

definition plain_str :: "string \<Rightarrow> bool" where
  "plain_str s \<longleftrightarrow> quote \<notin> set s \<and> CHR 0x5C \<notin> set s"

definition key_str :: "string \<Rightarrow> bool" where
  "key_str s \<longleftrightarrow> plain_str s \<and> s \<noteq> '':'' \<and> s \<noteq> '',''"

definition flat_field :: "string \<times> string \<Rightarrow> string" where
  "flat_field kv = quote # fst kv @ quote # CHR '':'' # quote # snd kv @ [quote]"

definition flat_json :: "(string \<times> string) list \<Rightarrow> string" where
  "flat_json kvs = CHR ''{'' # join '','' (map flat_field kvs) @ ''}''"

fun find_after :: "string \<Rightarrow> string \<Rightarrow> string option" where
  "find_after [] key = None"
| "find_after (c # cs) key =
    (if starts_with (c # cs) (quote # key @ [quote]) then Some (drop (length key + 2) (c # cs))
     else find_after cs key)"

lemma find_after_find:
  "find_after hay key =
    map_option (\<lambda>i. drop (i + (length key + 2)) hay) (find_str hay (quote # key @ [quote]))"
  by (induction hay key rule: find_after.induct) (auto simp: option.map_comp o_def)

lemma find_after_skip: "quote \<notin> set a \<Longrightarrow> find_after (a @ t) key = find_after t key"
  by (induction a) auto

lemma append_sep_inject:
  "a @ c # s = b @ c # t \<Longrightarrow> c \<notin> set a \<Longrightarrow> c \<notin> set b \<Longrightarrow> a = b"
  by (induction a b rule: list_induct2') auto

lemma starts_with_key:
  assumes "quote \<notin> set k" "quote \<notin> set key"
  shows "starts_with (quote # k @ quote # t) (quote # key @ [quote]) \<longleftrightarrow> k = key"
  using assms by (auto simp: starts_with_iff dest: append_sep_inject)

lemma find_after_other:
  assumes "quote \<notin> set k" "quote \<notin> set key" "k \<noteq> key"
  shows "find_after (quote # k @ quote # t) key = find_after (quote # t) key"
  using starts_with_key [OF assms(1,2), of t] assms find_after_skip [of k "quote # t" key] by simp

lemma find_after_sep:
  assumes "quote \<notin> set key" "key \<noteq> [c]" "c \<noteq> quote"
  shows "find_after (quote # c # quote # t) key = find_after (quote # t) key"
  using find_after_other [of "[c]" key t] assms by simp

lemma find_after_field:
  assumes "plain_str k" "plain_str v" "key_str key" "v \<noteq> key"
  shows "find_after (flat_field (k, v) @ t) key =
    (if k = key then Some (CHR '':'' # quote # v @ quote # t) else find_after (quote # t) key)"
proof (cases "k = key")
  case True
  then show ?thesis
    using assms starts_with_key [of k key "CHR '':'' # quote # v @ quote # t"]
    by (simp add: flat_field_def plain_str_def)
next
  case False
  then show ?thesis
    using assms find_after_other [of k key "CHR '':'' # quote # v @ quote # t"]
      find_after_sep [of key "CHR '':''" "v @ quote # t"] find_after_other [of v key t]
    by (simp add: flat_field_def plain_str_def key_str_def)
qed

lemma find_after_fields:
  assumes "key_str key" "\<forall>(k, v) \<in> set (kv # kvs). plain_str k \<and> plain_str v \<and> v \<noteq> key"
  shows "case map_of (kv # kvs) key of
      None \<Rightarrow> find_after (join '','' (map flat_field (kv # kvs)) @ ''}'') key = None
    | Some v \<Rightarrow> \<exists>t. find_after (join '','' (map flat_field (kv # kvs)) @ ''}'') key =
        Some (CHR '':'' # quote # v @ quote # t)"
  using assms(2)
proof (induction kvs arbitrary: kv)
  case Nil
  obtain k v where kv: "kv = (k, v)" by (cases kv)
  have e: "find_after [quote, CHR ''}''] key = None"
    by (auto simp: starts_with_iff Cons_eq_append_conv append_eq_Cons_conv)
  then show ?case
    using Nil assms(1) find_after_field [of k v key "''}''"] kv
    by (auto simp: e simp del: find_after.simps)
next
  case (Cons kv' kvs)
  obtain k v where kv: "kv = (k, v)" by (cases kv)
  let ?t = "join '','' (map flat_field (kv' # kvs)) @ ''}''"
  have "find_after (flat_field (k, v) @ CHR '','' # ?t) key =
      (if k = key then Some (CHR '':'' # quote # v @ quote # CHR '','' # ?t)
       else find_after (quote # CHR '','' # ?t) key)"
    using Cons.prems assms(1) kv by (intro find_after_field) auto
  moreover obtain t' where "?t = quote # t'" 
    by (cases kvs) (auto simp: flat_field_def)
  then have "find_after (quote # CHR '','' # ?t) key = find_after ?t key"
    using assms(1) find_after_sep [of key "CHR '',''" t'] by (simp add: key_str_def plain_str_def)
  moreover have "join '','' (map flat_field (kv # kv' # kvs)) @ ''}'' = flat_field (k, v) @ CHR '','' # ?t"
    by (simp add: kv)
  ultimately show ?case using Cons.IH [of kv'] Cons.prems kv by (auto split: option.splits)
qed

lemma scrape_loop_plain: "plain_str v \<Longrightarrow> scrape_loop out False (v @ quote # t) = Some (out @ v)"
  by (induction v arbitrary: out) (auto simp: plain_str_def)

lemma not_ws_quote: "\<not> ws_first quote"
  by (simp add: ws_first_def white_space_def)

lemma scrape_flat:
  assumes "key_str key" "\<forall>(k, v) \<in> set kvs. plain_str k \<and> plain_str v \<and> v \<noteq> key"
  shows "scrape_json_string (flat_json kvs) key = map_of kvs key"
proof (cases kvs)
  case Nil
  then show ?thesis by (simp add: scrape_json_string_def flat_json_def Let_def)
next
  case (Cons kv kvs')
  have scrape: "scrape_json_string hay key =
    (case find_after hay key of None \<Rightarrow> None
     | Some rest \<Rightarrow> (case find_pred rest (\<lambda>c. c = CHR '':'') of None \<Rightarrow> None
         | Some colon \<Rightarrow> (case trim_start (drop (colon + 1) rest) of [] \<Rightarrow> None
             | c # cs \<Rightarrow> if c \<noteq> quote then None else scrape_loop [] False cs)))" for hay
    by (simp add: scrape_json_string_def find_after_find Let_def split: option.split)
  let ?j = "join '','' (map flat_field (kv # kvs')) @ ''}''"
  have "find_after (flat_json kvs) key = find_after ?j key"
    using find_after_skip [of "''{''" ?j key] Cons by (simp add: flat_json_def)
  moreover have "plain_str v" if "map_of kvs key = Some v" for v
    using assms(2) map_of_SomeD [OF that] by auto
  ultimately show ?thesis
    using find_after_fields [OF assms(1), of kv kvs'] assms(2) Cons
    by (auto simp: scrape trim_start_id not_ws_quote scrape_loop_plain split: option.splits)
qed

text \<open>
  C25. Codex's metadata is read correctly without a JSON parser: from any flat object of string
  fields in any order, with other fields present and no field value equal to one of the four keys,
  the identity declared is the root turn (or else the session), the turn and the parent turn.
\<close>

theorem codex_metadata_is_read:
  assumes "\<forall>(k, v) \<in> set kvs. plain_str k \<and> plain_str v \<and>
    v \<notin> {''root_turn_id'', ''session_id'', ''turn_id'', ''parent_turn_id''}"
  shows "parse_codex_metadata (flat_json kvs) =
    (let m = map_of kvs in
     map_option (\<lambda>rid. Declared rid (m ''turn_id'') (m ''parent_turn_id''))
       (case m ''root_turn_id'' of Some r \<Rightarrow> Some r | None \<Rightarrow> m ''session_id''))"
proof -
  have "scrape_json_string (flat_json kvs) key = map_of kvs key"
    if "key \<in> {''root_turn_id'', ''session_id'', ''turn_id'', ''parent_turn_id''}" for key
    using assms that by (intro scrape_flat) (auto simp: key_str_def plain_str_def)
  then show ?thesis
    by (simp add: parse_codex_metadata_def Let_def split: option.split)
qed

theorem codex_metadata_is_read_witness:
  "parse_codex_metadata (flat_json [(''turn_id'', ''t9''), (''model'', ''m''), (''root_turn_id'', ''t1'')]) =
    Some (Declared ''t1'' (Some ''t9'') None)"
  using codex_metadata_is_read [of "[(''turn_id'', ''t9''), (''model'', ''m''), (''root_turn_id'', ''t1'')]"]
  by (simp add: plain_str_def Let_def)

end
