(* ===== verification/Tree_Task.thy ===== *)
theory Tree_Task
  imports Ident_Session Wire_Usage
begin

text \<open>
  The task arena's data and roll-ups (\<open>crates/tailfin-tree/src/lib.rs\<close>: \<open>Node\<close>, \<open>Task\<close> and its
  operations except admission and walking). \<open>usize\<close>-free: counters keep their widths and wrap.
  The invariant \<open>task_wf\<close> is kept by every operation, and under it usage is conserved.
\<close>

datatype admission =
    Allow
  | Last
  | Deny (spent_micros: u64) (ceiling_micros: u64)

datatype stop_style = SyntheticEndTurn | RetryableFalse429 | PaymentRequired402

record node =
  n_id :: string
  n_parent :: "string option"
  n_label :: "string option"
  n_usage :: usage
  n_requests :: u32
  n_incomplete :: u32
  n_depth :: u8
  n_allowance :: "u64 option"
  n_sealed :: bool

record task =
  t_root :: string
  t_nodes :: "(string, node) hmap"
  t_order :: "string list"
  t_ceiling :: "u64 option"
  t_sealed :: bool
  t_peak :: u32
  t_live :: u32
  t_voucher_share :: "fp option"
  t_synthetic_sent :: bool

definition fresh_node :: "string \<Rightarrow> string option \<Rightarrow> string option \<Rightarrow> u8 \<Rightarrow> node" where
  "fresh_node nid parent label depth =
    \<lparr>n_id = nid, n_parent = parent, n_label = label, n_usage = usage_default, n_requests = 0,
     n_incomplete = 0, n_depth = depth, n_allowance = None, n_sealed = False\<rparr>"

section \<open>Construction\<close>

definition task_new :: "string \<Rightarrow> task" where
  "task_new rid =
    \<lparr>t_root = rid, t_nodes = hm_insert rid (fresh_node rid None None 0) [], t_order = [rid],
     t_ceiling = None, t_sealed = False, t_peak = 0, t_live = 0, t_voucher_share = None,
     t_synthetic_sent = False\<rparr>"

definition update_node :: "string \<Rightarrow> (node \<Rightarrow> node) \<Rightarrow> task \<Rightarrow> task" where
  "update_node nid f t = t\<lparr>t_nodes := hm_modify nid f (t_nodes t)\<rparr>"

definition with_ceiling_micros :: "u64 \<Rightarrow> task \<Rightarrow> task" where
  "with_ceiling_micros m t =
    update_node (t_root t) (\<lambda>n. n\<lparr>n_allowance := Some m\<rparr>) (t\<lparr>t_ceiling := Some m\<rparr>)"

definition with_voucher_share :: "fp \<Rightarrow> task \<Rightarrow> task" where
  "with_voucher_share share t = t\<lparr>t_voucher_share := Some (fp_clamp share (Fin 0) (Fin 1))\<rparr>"

text \<open>What \<open>Arena::task_mut\<close> puts in for a root it has not seen.\<close>

definition new_task :: "u64 option \<Rightarrow> fp option \<Rightarrow> string \<Rightarrow> task" where
  "new_task default_cap share rid =
    (let t = task_new rid;
         t1 = (case default_cap of Some c \<Rightarrow> with_ceiling_micros c t | None \<Rightarrow> t)
     in case share of Some s \<Rightarrow> with_voucher_share s t1 | None \<Rightarrow> t1)"

section \<open>Operations\<close>

definition ensure :: "string \<Rightarrow> string option \<Rightarrow> string option \<Rightarrow> task \<Rightarrow> task" where
  "ensure nid parent label t =
    (if hm_contains (t_nodes t) nid then
       (case label of
          Some l \<Rightarrow>
            update_node nid (\<lambda>n. n\<lparr>n_label := (case n_label n of Some k \<Rightarrow> Some k | None \<Rightarrow> Some l)\<rparr>) t
        | None \<Rightarrow> t)
     else
       (let depth = (case Option.bind parent (hm_get (t_nodes t)) of
                       Some p \<Rightarrow> sat_add (n_depth p) 1
                     | None \<Rightarrow> 1)
        in t\<lparr>t_nodes := hm_insert nid (fresh_node nid parent label depth) (t_nodes t),
             t_order := t_order t @ [nid]\<rparr>))"

definition children_of :: "task \<Rightarrow> string \<Rightarrow> string list" where
  "children_of t nid =
    map n_id (filter (\<lambda>n. n_parent n = Some nid) (List.map_filter (hm_get (t_nodes t)) (t_order t)))"

definition allowance_of :: "task \<Rightarrow> string \<Rightarrow> u64" where
  "allowance_of t nid =
    (case Option.bind (hm_get (t_nodes t) nid) n_allowance of
       Some a \<Rightarrow> a
     | None \<Rightarrow> (case t_ceiling t of Some c \<Rightarrow> c | None \<Rightarrow> 0))"

definition mint_voucher :: "node_ref \<Rightarrow> task \<Rightarrow> task" where
  "mint_voucher nd t =
    (case t_voucher_share t of
       None \<Rightarrow> t
     | Some share \<Rightarrow>
         if is_root nd then t
         else if Option.bind (hm_get (t_nodes t) (nr_node nd)) n_allowance \<noteq> None then t
         else
           (let parent_id = (case nr_parent nd of Some p \<Rightarrow> p | None \<Rightarrow> t_root t);
                parent_allow = allowance_of t parent_id;
                minted = (\<Sum>a\<leftarrow>List.map_filter
                  (\<lambda>c. Option.bind (hm_get (t_nodes t) c) n_allowance)
                  (filter (\<lambda>c. c \<noteq> nr_node nd) (children_of t parent_id)). a);
                remaining = sat_sub parent_allow minted;
                allot = f64_scale_floor remaining share
            in update_node (nr_node nd) (\<lambda>n. n\<lparr>n_allowance := Some allot\<rparr>) t))"

definition begin_request :: "node_ref \<Rightarrow> string option \<Rightarrow> task \<Rightarrow> task" where
  "begin_request nd label t =
    (let t1 = mint_voucher nd (ensure (nr_node nd) (nr_parent nd) label t);
         live = t_live t1 + 1
     in t1\<lparr>t_live := live, t_peak := max (t_peak t1) live\<rparr>)"

definition finish_request :: "node_ref \<Rightarrow> usage \<Rightarrow> bool \<Rightarrow> task \<Rightarrow> task" where
  "finish_request nd usage done_ok t =
    (let t1 = update_node (nr_node nd)
           (\<lambda>n. n\<lparr>n_usage := usage_merge (n_usage n) usage,
                  n_requests := n_requests n + 1,
                  n_incomplete := (if done_ok then n_incomplete n else n_incomplete n + 1)\<rparr>)
           (ensure (nr_node nd) (nr_parent nd) None t)
     in t1\<lparr>t_live := sat_sub (t_live t1) 1\<rparr>)"

section \<open>Roll-ups\<close>

definition total_usage :: "task \<Rightarrow> usage" where
  "total_usage t = foldl (\<lambda>u n. usage_merge u (n_usage n)) usage_default (hm_values (t_nodes t))"

definition spent :: "task \<Rightarrow> rate_card \<Rightarrow> u64" where
  "spent t rates = (\<Sum>n\<leftarrow>hm_values (t_nodes t). usage_micros (n_usage n) rates)"

definition root_usage :: "task \<Rightarrow> usage" where
  "root_usage t = (case hm_get (t_nodes t) (t_root t) of Some n \<Rightarrow> n_usage n | None \<Rightarrow> usage_default)"

definition subagents :: "task \<Rightarrow> node list" where
  "subagents t = filter (\<lambda>n. n_id n \<noteq> t_root t) (hm_values (t_nodes t))"

definition subagent_usage :: "task \<Rightarrow> usage" where
  "subagent_usage t = foldl (\<lambda>u n. usage_merge u (n_usage n)) usage_default (subagents t)"

definition fan_out_multiplier :: "task \<Rightarrow> fp option" where
  "fan_out_multiplier t =
    (let r = usage_total (root_usage t)
     in if 0 < r then Some (f64_div (f64_of_u64 (usage_total (total_usage t))) (f64_of_u64 r)) else None)"

definition subagent_share :: "task \<Rightarrow> rate_card \<Rightarrow> fp option" where
  "subagent_share t rates =
    (let total = spent t rates
     in if 0 < total
        then Some (f64_div (f64_of_u64 (\<Sum>n\<leftarrow>subagents t. usage_micros (n_usage n) rates)) (f64_of_u64 total))
        else None)"

definition max_depth :: "task \<Rightarrow> u8" where
  "max_depth t = fold max (map n_depth (hm_values (t_nodes t))) 0"

definition incomplete_requests :: "task \<Rightarrow> u32" where
  "incomplete_requests t = (\<Sum>n\<leftarrow>hm_values (t_nodes t). n_incomplete n)"

section \<open>The invariant\<close>

definition task_wf :: "task \<Rightarrow> bool" where
  "task_wf t \<longleftrightarrow>
    hm_wf (t_nodes t) \<and> t_order t = hm_keys (t_nodes t) \<and>
    (\<forall>k n. hm_get (t_nodes t) k = Some n \<longrightarrow> n_id n = k \<and> (n_depth n = 0 \<longleftrightarrow> k = t_root t)) \<and>
    (\<exists>n. hm_get (t_nodes t) (t_root t) = Some n \<and> n_parent n = None) \<and>
    t_live t \<le> t_peak t"

lemma task_wfD:
  assumes "task_wf t"
  shows "hm_wf (t_nodes t)" "t_order t = hm_keys (t_nodes t)"
    "hm_get (t_nodes t) k = Some n \<Longrightarrow> n_id n = k"
    "\<exists>n. hm_get (t_nodes t) (t_root t) = Some n"
  using assms by (auto simp: task_wf_def)

lemma update_node_simps [task_simps]:
  "t_root (update_node k f t) = t_root t" "t_order (update_node k f t) = t_order t"
  "t_ceiling (update_node k f t) = t_ceiling t" "t_sealed (update_node k f t) = t_sealed t"
  "t_peak (update_node k f t) = t_peak t" "t_live (update_node k f t) = t_live t"
  "t_voucher_share (update_node k f t) = t_voucher_share t"
  "t_nodes (update_node k f t) = hm_modify k f (t_nodes t)"
  "t_synthetic_sent (update_node k f t) = t_synthetic_sent t"
  by (simp_all add: update_node_def)

lemma ensure_simps [task_simps]:
  "t_root (ensure k p l t) = t_root t" "t_ceiling (ensure k p l t) = t_ceiling t"
  "t_sealed (ensure k p l t) = t_sealed t" "t_peak (ensure k p l t) = t_peak t"
  "t_live (ensure k p l t) = t_live t" "t_voucher_share (ensure k p l t) = t_voucher_share t"
  "t_synthetic_sent (ensure k p l t) = t_synthetic_sent t"
  by (simp_all add: ensure_def Let_def task_simps split: option.split)

lemma mint_voucher_simps [task_simps]:
  "t_root (mint_voucher nd t) = t_root t" "t_order (mint_voucher nd t) = t_order t"
  "t_ceiling (mint_voucher nd t) = t_ceiling t" "t_sealed (mint_voucher nd t) = t_sealed t"
  "t_peak (mint_voucher nd t) = t_peak t" "t_live (mint_voucher nd t) = t_live t"
  "t_voucher_share (mint_voucher nd t) = t_voucher_share t"
  "t_synthetic_sent (mint_voucher nd t) = t_synthetic_sent t"
  by (simp_all add: mint_voucher_def Let_def task_simps split: option.split)

text \<open>Writes through \<open>get_mut\<close> that leave a node's place in the tree alone.\<close>

definition keeps_place :: "(node \<Rightarrow> node) \<Rightarrow> bool" where
  "keeps_place f \<longleftrightarrow> (\<forall>n. n_id (f n) = n_id n \<and> n_parent (f n) = n_parent n \<and> n_depth (f n) = n_depth n)"

lemma wf_update_node: "task_wf t \<Longrightarrow> keeps_place f \<Longrightarrow> task_wf (update_node k f t)"
  by (fastforce simp: task_wf_def task_simps hm_simps keeps_place_def split: if_splits)

lemma fresh_node_simps [simp]:
  "n_id (fresh_node k p l d) = k" "n_parent (fresh_node k p l d) = p" "n_depth (fresh_node k p l d) = d"
  "n_usage (fresh_node k p l d) = 0" "n_incomplete (fresh_node k p l d) = 0"
  "n_allowance (fresh_node k p l d) = None" "n_requests (fresh_node k p l d) = 0"
  "n_sealed (fresh_node k p l d) = False" "n_label (fresh_node k p l d) = l"
  by (simp_all add: fresh_node_def usage_default_zero)

lemma sat_Suc_not_zero: "sat_add (d :: u8) 1 \<noteq> 0"
proof
  assume "sat_add d 1 = 0"
  then have "unat (sat_add d 1) = 0" by simp
  then show False by (simp add: sat_simps)
qed

lemma wf_ensure:
  assumes "task_wf t"
  shows "task_wf (ensure k p l t)"
proof (cases "hm_contains (t_nodes t) k")
  case True
  have "keeps_place (\<lambda>n. n\<lparr>n_label := g n\<rparr>)" for g by (simp add: keeps_place_def)
  with True assms show ?thesis by (simp add: ensure_def wf_update_node split: option.split)
next
  case False
  then have "k \<noteq> t_root t" using task_wfD(4) [OF assms] by (auto simp: hm_contains_def)
  with False assms show ?thesis
    by (auto simp: ensure_def Let_def task_wf_def hm_simps hm_wf_insert sat_Suc_not_zero split: option.split)
qed

lemma wf_mint_voucher: "task_wf t \<Longrightarrow> task_wf (mint_voucher nd t)"
  by (simp add: mint_voucher_def Let_def wf_update_node keeps_place_def split: option.split)

lemma wf_task_new: "task_wf (task_new rid)"
  by (simp add: task_new_def task_wf_def hm_insert_def hm_wf_def hm_keys_def)

lemma wf_with_ceiling: "task_wf t \<Longrightarrow> task_wf (with_ceiling_micros m t)"
  unfolding with_ceiling_micros_def by (intro wf_update_node) (simp_all add: task_wf_def keeps_place_def)

lemma wf_with_voucher_share: "task_wf t \<Longrightarrow> task_wf (with_voucher_share s t)"
  by (simp add: with_voucher_share_def task_wf_def)

lemma wf_begin_request: "task_wf t \<Longrightarrow> task_wf (begin_request nd l t)"
  using wf_mint_voucher [OF wf_ensure, of t nd "nr_node nd" "nr_parent nd" l]
  by (simp add: begin_request_def Let_def task_wf_def)

lemma sat_sub_le: "sat_sub a b \<le> (a :: 'a::len word)"
  by (simp add: word_le_nat_alt sat_simps)

lemma wf_finish_request: "task_wf t \<Longrightarrow> task_wf (finish_request nd u c t)"
proof -
  assume "task_wf t"
  then have "task_wf (update_node (nr_node nd)
      (\<lambda>n. n\<lparr>n_usage := usage_merge (n_usage n) u, n_requests := n_requests n + 1,
             n_incomplete := (if c then n_incomplete n else n_incomplete n + 1)\<rparr>)
      (ensure (nr_node nd) (nr_parent nd) None t))" (is "task_wf ?t")
    by (intro wf_update_node wf_ensure) (simp_all add: keeps_place_def)
  moreover have "sat_sub (t_live ?t) 1 \<le> t_peak ?t" if "t_live ?t \<le> t_peak ?t"
    using that sat_sub_le order_trans by blast
  ultimately show ?thesis by (simp add: finish_request_def Let_def task_wf_def)
qed

section \<open>Usage is conserved\<close>

lemma foldl_merge: "foldl (\<lambda>u n. usage_merge u (g n)) u ns = u + (\<Sum>n\<leftarrow>ns. g n)"
  by (induction ns arbitrary: u) (simp_all add: usage_merge_plus add.assoc)

lemma total_usage_eq: "total_usage t = hm.total n_usage (t_nodes t)"
  by (simp add: total_usage_def foldl_merge usage_default_zero hm_total_eq)

lemma ensure_total:
  assumes "task_wf t" "\<And>n l. g (n\<lparr>n_label := l\<rparr>) = g n" "\<And>d. g (fresh_node k p l d) = 0"
  shows "hm.total g (t_nodes (ensure k p l t)) = hm.total g (t_nodes t)"
proof (cases "hm_contains (t_nodes t) k")
  case True
  with assms show ?thesis
    by (auto simp: ensure_def task_simps intro!: hm.total_modify_same task_wfD(1) split: option.split)
next
  case False
  then show ?thesis using assms
    by (simp add: ensure_def Let_def hm_contains_def hm.total_insert)
qed

lemma mint_voucher_total:
  assumes "task_wf t" "\<And>n a. g (n\<lparr>n_allowance := a\<rparr>) = g n"
  shows "hm.total g (t_nodes (mint_voucher nd t)) = hm.total g (t_nodes t)"
  using assms
  by (auto simp: mint_voucher_def Let_def task_simps intro!: hm.total_modify_same task_wfD(1) split: option.split)

lemma begin_request_total:
  assumes "task_wf t" "\<And>n l. g (n\<lparr>n_label := l\<rparr>) = g n" "\<And>k p l d. g (fresh_node k p l d) = 0"
    "\<And>n a. g (n\<lparr>n_allowance := a\<rparr>) = g n"
  shows "hm.total g (t_nodes (begin_request nd l t)) = hm.total g (t_nodes t)"
  using assms by (simp add: begin_request_def Let_def mint_voucher_total wf_ensure ensure_total)

lemma ensure_get: "hm_get (t_nodes (ensure k p l t)) k \<noteq> None"
  by (auto simp: ensure_def Let_def hm_simps task_simps hm_contains_def split: option.split)

lemma finish_request_total:
  assumes t: "task_wf t" and g: "\<And>n l. g (n\<lparr>n_label := l\<rparr>) = g n" "\<And>k p l d. g (fresh_node k p l d) = 0"
    "\<And>n. g (n\<lparr>n_usage := usage_merge (n_usage n) u, n_requests := n_requests n + 1,
             n_incomplete := (if c then n_incomplete n else n_incomplete n + 1)\<rparr>) = g n + e"
  shows "hm.total g (t_nodes (finish_request nd u c t)) = hm.total g (t_nodes t) + e"
proof -
  let ?t = "ensure (nr_node nd) (nr_parent nd) None t"
  obtain n where "hm_get (t_nodes ?t) (nr_node nd) = Some n"
    using ensure_get by fastforce
  then have "hm.total g (t_nodes (finish_request nd u c t)) = hm.total g (t_nodes ?t) + e"
    using g(3) task_wfD(1) [OF wf_ensure [OF t]]
    by (simp add: finish_request_def Let_def task_simps hm.total_modify)
  then show ?thesis using ensure_total [OF t g(1,2)] by simp
qed

section \<open>The root and everything below it\<close>

lemma hm_get_mem: "hm_wf m \<Longrightarrow> (k, v) \<in> set m \<Longrightarrow> hm_get m k = Some v"
  by (simp add: hm_get_def hm_wf_def hm_keys_def)

lemma split_at_key:
  fixes g :: "node \<Rightarrow> 'a::comm_monoid_add"
  assumes "hm_wf m" "\<forall>(k, n) \<in> set m. n_id n = k" "hm_get m r = Some v"
  shows "(\<Sum>n\<leftarrow>hm_values m. g n) = g v + (\<Sum>n\<leftarrow>filter (\<lambda>n. n_id n \<noteq> r) (hm_values m). g n)"
  using assms
proof (induction m)
  case (Cons p m)
  obtain k n where p: "p = (k, n)" by (cases p)
  have wf: "hm_wf m" "k \<notin> fst ` set m" using Cons.prems(1) p by (simp_all add: hm_wf_def hm_keys_def)
  show ?case
  proof (cases "k = r")
    case True
    have "n_id n' \<noteq> r" if "(k', n') \<in> set m" for k' n'
    proof -
      have "n_id n' = k'" using Cons.prems(2) p that by auto
      moreover have "k' \<noteq> k" using wf(2) that by (metis fst_conv image_eqI)
      ultimately show ?thesis using True by simp
    qed
    then have "\<forall>x \<in> set m. n_id (snd x) \<noteq> r" by (metis prod.collapse)
    then have "filter (\<lambda>n. n_id n \<noteq> r) (hm_values m) = hm_values m"
      by (simp add: filter_id_conv hm_values_def)
    with True p Cons.prems show ?thesis by (simp add: hm_values_def)
  next
    case False
    with Cons wf(1) p show ?thesis by (auto simp: hm_values_def add.left_commute)
  qed
qed simp

lemma total_split:
  fixes g :: "node \<Rightarrow> 'a::comm_monoid_add"
  assumes "task_wf t" "hm_get (t_nodes t) (t_root t) = Some v"
  shows "hm.total g (t_nodes t) = g v + (\<Sum>n\<leftarrow>subagents t. g n)"
proof -
  have "\<forall>(k, n) \<in> set (t_nodes t). n_id n = k"
    using hm_get_mem [OF task_wfD(1) [OF assms(1)]] task_wfD(3) [OF assms(1)] by blast
  then show ?thesis
    using split_at_key [OF task_wfD(1) [OF assms(1)] _ assms(2), of g]
    by (simp add: hm_total_eq subagents_def)
qed

lemma root_plus_subagents:
  assumes "task_wf t"
  shows "total_usage t = root_usage t + subagent_usage t"
proof -
  obtain n where n: "hm_get (t_nodes t) (t_root t) = Some n" using task_wfD(4) [OF assms] by blast
  then show ?thesis
    using total_split [OF assms n, of n_usage]
    by (simp add: total_usage_eq root_usage_def subagent_usage_def foldl_merge usage_default_zero)
qed

lemma spent_eq: "spent t rates = hm.total (\<lambda>n. usage_micros (n_usage n) rates) (t_nodes t)"
  by (simp add: spent_def hm_total_eq)

lemma incomplete_eq: "incomplete_requests t = hm.total n_incomplete (t_nodes t)"
  by (simp add: incomplete_requests_def hm_total_eq)

lemma wf_new_task: "task_wf (new_task c s r)"
  by (simp add: new_task_def Let_def wf_task_new wf_with_ceiling wf_with_voucher_share split: option.split)

lemma task_new_simps [task_simps]:
  "t_root (task_new r) = r" "t_nodes (task_new r) = [(r, fresh_node r None None 0)]"
  "t_sealed (task_new r) = False" "t_live (task_new r) = 0" "t_peak (task_new r) = 0"
  "t_synthetic_sent (task_new r) = False" "t_ceiling (task_new r) = None" "t_order (task_new r) = [r]"
  "t_voucher_share (task_new r) = None"
  by (simp_all add: task_new_def hm_insert_def)

lemma new_task_simps [task_simps]:
  "t_root (new_task c s r) = r" "t_sealed (new_task c s r) = False" "t_live (new_task c s r) = 0"
  "t_peak (new_task c s r) = 0" "t_synthetic_sent (new_task c s r) = False"
  "t_ceiling (new_task c s r) = c" "t_order (new_task c s r) = [r]"
  "t_voucher_share (new_task c s r) = map_option (\<lambda>x. fp_clamp x (Fin 0) (Fin 1)) s"
  "t_nodes (new_task c s r) = [(r, (fresh_node r None None 0)\<lparr>n_allowance := c\<rparr>)]"
  by (simp_all add: new_task_def Let_def with_ceiling_micros_def with_voucher_share_def task_simps
      hm_modify_def fresh_node_def split: option.split)

lemma new_task_total: "(\<And>n a. g (n\<lparr>n_allowance := a\<rparr>) = g n) \<Longrightarrow>
    (\<And>k p l d. g (fresh_node k p l d) = 0) \<Longrightarrow> hm.total g (t_nodes (new_task c s r)) = 0"
  by (simp add: task_simps hm_total_eq hm_values_def)

end
