(* ===== verification/Tree_Walk.thy ===== *)
theory Tree_Walk
  imports Tree_Task
begin

text \<open>
  Walking the task tree (\<open>crates/tailfin-tree/src/lib.rs\<close>: \<open>walk\<close>, \<open>subtree_spent_micros\<close>,
  \<open>by_cost\<close>). The two loops pop a stack and keep a set of what they saw; a \<open>Vec\<close> used as a stack
  is a list with its top first. They end on every task, cyclic ones included, and visit exactly
  the descendants, each once.
\<close>

section \<open>The loops\<close>

definition node_ids :: "task \<Rightarrow> string set" where
  "node_ids t = n_id ` set (hm_values (t_nodes t))"

lemma children_node_ids: "set (children_of t k) \<subseteq> node_ids t"
  by (fastforce simp: children_of_def node_ids_def map_filter_def hm_get_values)

definition todo :: "task \<Rightarrow> string list \<Rightarrow> string list \<Rightarrow> nat" where
  "todo t stack seen = card (node_ids t \<union> set stack - set seen)"

lemma todo_skip: "k \<in> set seen \<Longrightarrow> todo t (k # stack) seen = todo t stack seen"
  by (simp add: todo_def insert_Diff_if)

lemma todo_visit:
  assumes "k \<notin> set seen" "set cs \<subseteq> set (children_of t k)"
  shows "todo t (cs @ stack) (k # seen) < todo t (k # stack) seen"
  unfolding todo_def
proof (rule psubset_card_mono)
  show "finite (node_ids t \<union> set (k # stack) - set seen)" by (simp add: node_ids_def)
  show "node_ids t \<union> set (cs @ stack) - set (k # seen) \<subset> node_ids t \<union> set (k # stack) - set seen"
    using assms children_node_ids [of t k] by auto
qed

function walk_loop :: "task \<Rightarrow> string list \<Rightarrow> string list \<Rightarrow> (string \<times> u8) list \<Rightarrow> (string \<times> u8) list" where
  "walk_loop t [] seen out = out"
| "walk_loop t (k # stack) seen out =
    (if k \<in> set seen then walk_loop t stack seen out
     else walk_loop t (children_of t k @ stack) (k # seen)
       (case hm_get (t_nodes t) k of Some n \<Rightarrow> out @ [(n_id n, n_depth n)] | None \<Rightarrow> out))"
  by pat_completeness auto
termination
  by (relation "inv_image (less_than <*lex*> less_than)
      (\<lambda>(t, stack, seen, out). (todo t stack seen, length stack))")
    (auto simp: todo_skip todo_visit)

definition walk :: "task \<Rightarrow> (string \<times> u8) list" where
  "walk t = walk_loop t [t_root t] [] []"

function spent_loop :: "task \<Rightarrow> rate_card \<Rightarrow> string list \<Rightarrow> string list \<Rightarrow> u64 \<Rightarrow> u64" where
  "spent_loop t rates [] seen acc = acc"
| "spent_loop t rates (k # stack) seen acc =
    (if k \<in> set seen then spent_loop t rates stack seen acc
     else spent_loop t rates (rev (children_of t k) @ stack) (k # seen)
       (case hm_get (t_nodes t) k of
          Some n \<Rightarrow> sat_add acc (usage_micros (n_usage n) rates)
        | None \<Rightarrow> acc))"
  by pat_completeness auto
termination
  by (relation "inv_image (less_than <*lex*> less_than)
      (\<lambda>(t, rates, stack, seen, acc). (todo t stack seen, length stack))")
    (auto simp: todo_skip todo_visit)

definition subtree_spent :: "task \<Rightarrow> string \<Rightarrow> rate_card \<Rightarrow> u64" where
  "subtree_spent t k rates = spent_loop t rates [k] [] 0"

section \<open>The report order\<close>

record node_report =
  rep_id :: string
  rep_label :: "string option"
  rep_depth :: u8
  rep_is_root :: bool
  rep_usage :: usage
  rep_micros :: u64
  rep_requests :: u32

definition node_report :: "task \<Rightarrow> rate_card \<Rightarrow> node \<Rightarrow> node_report" where
  "node_report t rates n =
    \<lparr>rep_id = n_id n, rep_label = n_label n, rep_depth = n_depth n,
     rep_is_root = (n_id n = t_root t), rep_usage = n_usage n,
     rep_micros = usage_micros (n_usage n) rates, rep_requests = n_requests n\<rparr>"

text \<open>\<open>Ord\<close> on \<open>String\<close> is the lexicographic order of the bytes.\<close>

fun bytes_less :: "string \<Rightarrow> string \<Rightarrow> bool" where
  "bytes_less [] [] \<longleftrightarrow> False"
| "bytes_less [] (b # bs) \<longleftrightarrow> True"
| "bytes_less (a # as) [] \<longleftrightarrow> False"
| "bytes_less (a # as) (b # bs) \<longleftrightarrow>
    byte a < byte b \<or> (a = b \<and> bytes_less as bs)"

definition report_le :: "node_report \<Rightarrow> node_report \<Rightarrow> bool" where
  "report_le a b \<longleftrightarrow>
    rep_micros b < rep_micros a \<or>
    (rep_micros a = rep_micros b \<and> (rep_id a = rep_id b \<or> bytes_less (rep_id a) (rep_id b)))"

text \<open>\<open>sort_by\<close> is stable: an insertion sort under the comparison.\<close>

fun insert_by :: "('a \<Rightarrow> 'a \<Rightarrow> bool) \<Rightarrow> 'a \<Rightarrow> 'a list \<Rightarrow> 'a list" where
  "insert_by le x [] = [x]"
| "insert_by le x (y # ys) = (if le x y then x # y # ys else y # insert_by le x ys)"

definition sort_by :: "('a \<Rightarrow> 'a \<Rightarrow> bool) \<Rightarrow> 'a list \<Rightarrow> 'a list" where
  "sort_by le xs = foldr (insert_by le) xs []"

definition by_cost :: "task \<Rightarrow> rate_card \<Rightarrow> node_report list" where
  "by_cost t rates =
    sort_by report_le (map (node_report t rates) (List.map_filter (hm_get (t_nodes t)) (t_order t)))"

section \<open>What the loops visit\<close>

text \<open>The ids in the order popped; \<open>fl\<close> is whether the last child is on top of the stack.\<close>

definition push_order :: "bool \<Rightarrow> string list \<Rightarrow> string list" where
  "push_order fl cs = (if fl then rev cs else cs)"

lemma set_push_order [simp]: "set (push_order fl cs) = set cs"
  by (simp add: push_order_def)

function visit :: "task \<Rightarrow> bool \<Rightarrow> string list \<Rightarrow> string list \<Rightarrow> string list" where
  "visit t fl [] seen = []"
| "visit t fl (k # stack) seen =
    (if k \<in> set seen then visit t fl stack seen
     else k # visit t fl (push_order fl (children_of t k) @ stack) (k # seen))"
  by pat_completeness auto
termination
  by (relation "inv_image (less_than <*lex*> less_than)
      (\<lambda>(t, fl, stack, seen). (todo t stack seen, length stack))")
    (auto simp: todo_skip todo_visit)

definition node_entry :: "task \<Rightarrow> string \<Rightarrow> (string \<times> u8) option" where
  "node_entry t k = map_option (\<lambda>n. (n_id n, n_depth n)) (hm_get (t_nodes t) k)"

lemma walk_loop_visit:
  "walk_loop t stack seen out = out @ List.map_filter (node_entry t) (visit t False stack seen)"
  by (induction t stack seen out rule: walk_loop.induct)
    (auto simp: map_filter_def node_entry_def push_order_def split: option.split)

definition node_micros :: "task \<Rightarrow> rate_card \<Rightarrow> string \<Rightarrow> u64" where
  "node_micros t rates k =
    (case hm_get (t_nodes t) k of Some n \<Rightarrow> usage_micros (n_usage n) rates | None \<Rightarrow> 0)"

lemma sat_add_zero [simp]: "sat_add a 0 = a"
  by (simp add: sat_add_def)

lemma spent_loop_visit:
  "spent_loop t rates stack seen acc =
    foldl sat_add acc (map (node_micros t rates) (visit t True stack seen))"
  by (induction t rates stack seen acc rule: spent_loop.induct)
    (auto simp: node_micros_def push_order_def split: option.split)

definition child :: "task \<Rightarrow> string \<Rightarrow> string \<Rightarrow> bool" where
  "child t a b \<longleftrightarrow> b \<in> set (children_of t a)"

abbreviation descendant :: "task \<Rightarrow> string \<Rightarrow> string \<Rightarrow> bool" where
  "descendant t \<equiv> (child t)\<^sup>*\<^sup>*"

lemma visit_distinct: "distinct (visit t fl stack seen) \<and> set (visit t fl stack seen) \<inter> set seen = {}"
  by (induction t fl stack seen rule: visit.induct) auto

lemma visit_covers_stack: "set stack \<subseteq> set (visit t fl stack seen) \<union> set seen"
  by (induction t fl stack seen rule: visit.induct) auto

lemma visit_closed:
  "a \<in> set (visit t fl stack seen) \<Longrightarrow> child t a b \<Longrightarrow> b \<in> set (visit t fl stack seen) \<union> set seen"
proof (induction t fl stack seen rule: visit.induct)
  case (2 t fl k stack seen)
  show ?case
  proof (cases "k \<in> set seen")
    case False
    with 2 visit_covers_stack [of "push_order fl (children_of t k) @ stack" t fl "k # seen"]
    show ?thesis by (auto simp: child_def)
  qed (use 2 in auto)
qed simp

lemma visit_descends:
  "a \<in> set (visit t fl stack seen) \<Longrightarrow> \<exists>s \<in> set stack. descendant t s a"
proof (induction t fl stack seen rule: visit.induct)
  case (2 t fl k stack seen)
  show ?case
  proof (cases "k \<in> set seen")
    case False
    with 2 consider "a = k" | s where "s \<in> set (children_of t k @ stack)" "descendant t s a"
      by auto
    then show ?thesis
    proof cases
      case 2
      show ?thesis
      proof (cases "s \<in> set stack")
        case True
        with 2 show ?thesis by auto
      next
        case False
        with 2 have "child t k s" by (simp add: child_def)
        then have "descendant t k a" using 2(2) by (rule converse_rtranclp_into_rtranclp)
        then show ?thesis by simp
      qed
    qed auto
  qed (use 2 in auto)
qed simp

lemma visit_descendants: "set (visit t fl [r] []) = {a. descendant t r a}"
proof (intro set_eqI iffI)
  fix a assume "a \<in> {a. descendant t r a}"
  then have "descendant t r a" by simp
  then show "a \<in> set (visit t fl [r] [])"
  proof (induction rule: rtranclp_induct)
    case base
    show ?case using visit_covers_stack [of "[r]" t fl "[]"] by simp
  next
    case (step b c)
    then show ?case using visit_closed by fastforce
  qed
qed (use visit_descends [of _ t fl "[r]" "[]"] in auto)

lemma set_map_filter_iff: "y \<in> set (List.map_filter f xs) \<longleftrightarrow> (\<exists>x \<in> set xs. f x = Some y)"
  by (induction xs) (auto simp: map_filter_def split: option.splits)

lemma child_iff:
  assumes "task_wf t"
  shows "child t a b \<longleftrightarrow> (\<exists>n. hm_get (t_nodes t) b = Some n \<and> n_parent n = Some a)"
proof -
  have "b \<in> set (hm_keys (t_nodes t))" if "hm_get (t_nodes t) b = Some n" for n
    using that hm_get_in_keys [of "t_nodes t" b] by simp
  moreover have "child t a b \<longleftrightarrow> (\<exists>k n. k \<in> set (hm_keys (t_nodes t)) \<and> hm_get (t_nodes t) k = Some n \<and>
      n_parent n = Some a \<and> n_id n = b)"
    by (auto simp: child_def children_of_def set_map_filter_iff task_wfD(2) [OF assms])
  ultimately show ?thesis using task_wfD(3) [OF assms] by blast
qed

lemma descendant_root_node:
  assumes "task_wf t" "descendant t (t_root t) a"
  shows "\<exists>n. hm_get (t_nodes t) a = Some n"
  using assms(2)
proof (cases rule: rtranclp.cases)
  case rtrancl_refl
  then show ?thesis using task_wfD(4) [OF assms(1)] by simp
next
  case (rtrancl_into_rtrancl b)
  then show ?thesis by (auto simp: child_iff [OF assms(1)])
qed

lemma foldl_sat_add:
  "unat (foldl sat_add acc xs) = min (unat acc + (\<Sum>x\<leftarrow>xs. unat x)) (2 ^ 64 - 1)" for xs :: "u64 list"
proof (induction xs arbitrary: acc)
  case Nil
  have "unat acc < 2 ^ 64" using unsigned_less [of acc] by simp
  then show ?case by simp
next
  case (Cons x xs)
  then show ?case by (simp add: sat_simps) 
qed

lemma walk_descendants:
  assumes "task_wf t"
  shows "distinct (map fst (walk t)) \<and> set (map fst (walk t)) = {a. descendant t (t_root t) a} \<and>
    fst (hd (walk t)) = t_root t \<and>
    (\<forall>(k, d) \<in> set (walk t). \<exists>n. hm_get (t_nodes t) k = Some n \<and> n_depth n = d)"
proof -
  let ?v = "visit t False [t_root t] []"
  have nodes: "\<exists>n. hm_get (t_nodes t) k = Some n \<and> n_id n = k" if "k \<in> set ?v" for k
    using that descendant_root_node [OF assms] task_wfD(3) [OF assms] visit_descendants by blast
  define e where "e k = (k, n_depth (the (hm_get (t_nodes t) k)))" for k
  have "List.map_filter (node_entry t) vs = map e vs" if "set vs \<subseteq> set ?v" for vs
    using that
  proof (induction vs)
    case (Cons k vs)
    then obtain n where "hm_get (t_nodes t) k = Some n" "n_id n = k" using nodes [of k] by auto
    with Cons show ?case by (simp add: map_filter_def node_entry_def e_def)
  qed (simp add: map_filter_def)
  then have w: "walk t = map e ?v" by (simp add: walk_def walk_loop_visit del: visit.simps)
  then have "map fst (walk t) = ?v" by (simp add: o_def e_def)
  moreover have "hd ?v = t_root t" "?v \<noteq> []" by simp_all
  moreover have "\<forall>(k, d) \<in> set (walk t). \<exists>n. hm_get (t_nodes t) k = Some n \<and> n_depth n = d"
    using nodes by (fastforce simp: w e_def)
  ultimately show ?thesis
    using visit_distinct [of t False "[t_root t]" "[]"] visit_descendants [of t False "t_root t"]
    by (simp add: w e_def)
qed

lemma walk_nodes: "task_wf t \<Longrightarrow> (k, d) \<in> set (walk t) \<Longrightarrow> \<exists>n. hm_get (t_nodes t) k = Some n \<and> n_depth n = d"
  using walk_descendants by fastforce

lemma walk_ids: "task_wf t \<Longrightarrow> set (map fst (walk t)) = {a. descendant t (t_root t) a}"
  using walk_descendants by blast

text \<open>
  C20. The walk of any task, cyclic or not, lists exactly the descendants of the root, each exactly
  once and with its recorded depth, starting at the root.
\<close>

theorem walk_lists_descendants_once:
  assumes "task_wf t"
  shows "distinct (map fst (walk t)) \<and> set (map fst (walk t)) = {a. descendant t (t_root t) a} \<and>
    fst (hd (walk t)) = t_root t \<and>
    (\<forall>(k, d) \<in> set (walk t). \<exists>n. hm_get (t_nodes t) k = Some n \<and> n_depth n = d)"
  by (rule walk_descendants [OF assms])

theorem walk_lists_descendants_once_witness:
  "set (map fst (walk (task_new ''t''))) = {a. descendant (task_new ''t'') ''t'' a}"
  using walk_lists_descendants_once [OF wf_task_new, of "''t''"] by (simp add: task_new_def)

lemma subtree_spent_visit:
  "unat (subtree_spent t k rates) =
    min (\<Sum>a \<in> set (visit t True [k] []). unat (node_micros t rates a)) (2 ^ 64 - 1)"
proof -
  have "(\<Sum>x\<leftarrow>map (node_micros t rates) (visit t True [k] []). unat x) =
      (\<Sum>a \<in> set (visit t True [k] []). unat (node_micros t rates a))"
    using visit_distinct [of t True "[k]" "[]"]
    by (simp add: o_def sum_list_distinct_conv_sum_set del: visit.simps)
  then show ?thesis
    by (simp add: subtree_spent_def spent_loop_visit foldl_sat_add del: visit.simps)
qed

lemma own_in_subtree: "unat (node_micros t rates k) \<le> unat (subtree_spent t k rates)"
proof -
  have "k \<in> set (visit t True [k] [])" using visit_covers_stack [of "[k]" t True "[]"] by simp
  then have "unat (node_micros t rates k) \<le> (\<Sum>a \<in> set (visit t True [k] []). unat (node_micros t rates a))"
    by (intro member_le_sum) auto
  moreover have "unat x < 2 ^ 64" for x :: u64 using unsigned_less [of x, where 'a = nat] by simp
  from this [of "node_micros t rates k"] have "unat (node_micros t rates k) \<le> 2 ^ 64 - 1" by simp
  ultimately show ?thesis unfolding subtree_spent_visit by simp
qed

text \<open>
  C21. The spend of a subtree is the sum of the costs of exactly the descendants of its node, each
  counted once, saturating at the largest 64-bit value; it is defined for every task, whatever
  parents were declared.
\<close>

theorem subtree_spent_sums_descendants:
  "unat (subtree_spent t k rates) =
    min (\<Sum>a \<in> {a. descendant t k a}. unat (node_micros t rates a)) (2 ^ 64 - 1)"
  by (simp add: subtree_spent_visit visit_descendants del: visit.simps)

section \<open>The report is sorted\<close>

lemma mset_insert_by: "mset (insert_by le x ys) = add_mset x (mset ys)"
  by (induction ys) auto

lemma mset_sort_by: "mset (sort_by le xs) = mset xs"
  by (induction xs) (simp_all add: sort_by_def mset_insert_by)

lemma sorted_insert_by:
  assumes "\<And>a b. le a b \<or> le b a" "\<And>a b c. le a b \<Longrightarrow> le b c \<Longrightarrow> le a c"
  shows "sorted_wrt le ys \<Longrightarrow> sorted_wrt le (insert_by le x ys)"
proof (induction ys)
  case (Cons y ys)
  have "set (insert_by le x ys) = insert x (set ys)"
    using arg_cong [OF mset_insert_by [of le x ys], of set_mset] by simp
  with Cons assms show ?case by auto
qed simp

lemma sorted_sort_by:
  assumes "\<And>a b. le a b \<or> le b a" "\<And>a b c. le a b \<Longrightarrow> le b c \<Longrightarrow> le a c"
  shows "sorted_wrt le (sort_by le xs)"
proof (induction xs)
  case (Cons x xs)
  then show ?case using sorted_insert_by [OF assms Cons.IH] by (simp add: sort_by_def)
qed (simp add: sort_by_def)

lemma bytes_less_total: "a = b \<or> bytes_less a b \<or> bytes_less b a"
proof (induction a b rule: bytes_less.induct)
  case (4 a as b bs)
  then show ?case by (cases "byte a" "byte b" rule: linorder_cases) auto
qed auto

lemma bytes_less_trans: "bytes_less a b \<Longrightarrow> bytes_less b c \<Longrightarrow> bytes_less a c"
proof (induction a b arbitrary: c rule: bytes_less.induct)
  case (2 b bs)
  then show ?case by (cases c) auto
next
  case (4 a as b bs)
  then show ?case by (cases c) (auto dest: less_trans)
qed auto

lemma report_le_total: "report_le a b \<or> report_le b a"
  using bytes_less_total by (auto simp: report_le_def)

lemma report_le_trans: "report_le a b \<Longrightarrow> report_le b c \<Longrightarrow> report_le a c"
  unfolding report_le_def
  using bytes_less_trans [of "rep_id a" "rep_id b" "rep_id c"]
  by (elim disjE conjE) (simp_all, (metis less_trans)?)

lemma by_cost_ids:
  assumes wf: "task_wf t"
  shows "mset (map rep_id (by_cost t rates)) = mset (hm_keys (t_nodes t))"
proof -
  have "map (\<lambda>n. n_id n) (List.map_filter (hm_get (t_nodes t)) ks) = ks"
    if "set ks \<subseteq> set (hm_keys (t_nodes t))" for ks
    using that
  proof (induction ks)
    case (Cons k ks)
    then obtain n where "hm_get (t_nodes t) k = Some n" using hm_get_in_keys [of "t_nodes t" k] by auto
    with Cons task_wfD(3) [OF wf] show ?case by (simp add: map_filter_def)
  qed (simp add: map_filter_def)
  then have "map rep_id (map (node_report t rates) (List.map_filter (hm_get (t_nodes t)) (t_order t))) =
      hm_keys (t_nodes t)"
    using task_wfD(2) [OF wf] by (simp add: o_def node_report_def)
  then show ?thesis
    unfolding by_cost_def by (metis mset_map mset_sort_by)
qed

lemma by_cost_sorted: "sorted_wrt report_le (by_cost t rates)"
  unfolding by_cost_def by (rule sorted_sort_by [OF report_le_total report_le_trans])

text \<open>
  The report lists every node of the task exactly once, most expensive first, equal costs by
  id.
\<close>

lemma by_cost_sorted_complete:
  "sorted_wrt report_le (by_cost t rates) \<and>
    (task_wf t \<longrightarrow> mset (map rep_id (by_cost t rates)) = mset (hm_keys (t_nodes t)))"
  using by_cost_ids by_cost_sorted by simp

lemma by_cost_sorted_complete_witness:
  "mset (map rep_id (by_cost (task_new ''t'') (rate_from_base 3 15))) = {#''t''#}"
  using by_cost_sorted_complete [of "task_new ''t''" "rate_from_base 3 15"] wf_task_new [of "''t''"]
  by (simp add: task_new_def hm_insert_def hm_keys_def)

end
