(* ===== verification/Tree_Admit.thy ===== *)
theory Tree_Admit
  imports Tree_Walk
begin

text \<open>
  Admission (\<open>crates/tailfin-tree/src/lib.rs\<close>: \<open>admit\<close>, \<open>admit_at\<close>, \<open>take_stop\<close>). The contract of
  a budget gate is the locale \<open>fuse\<close>; both gates of the code are interpretations of it, and the
  bound on what lands past the ceiling is proved once, from the contract.
\<close>

section \<open>The gates\<close>

definition admit :: "rate_card \<Rightarrow> task \<Rightarrow> task \<times> admission" where
  "admit rates t =
    (case t_ceiling t of
       None \<Rightarrow> (t, Allow)
     | Some cap \<Rightarrow>
         let sp = spent t rates
         in if t_sealed t then (t, Deny sp cap)
            else if cap \<le> sp then (t\<lparr>t_sealed := True\<rparr>, Last)
            else (t, Allow))"

definition admit_at :: "node_ref \<Rightarrow> rate_card \<Rightarrow> task \<Rightarrow> task \<times> admission" where
  "admit_at nd rates t0 =
    (let (t, root_ad) = admit rates t0 in
     if root_ad \<noteq> Allow then (t, root_ad)
     else
       let cap = allowance_of t (nr_node nd) in
       if cap = 0 \<and> t_ceiling t = None then (t, Allow)
       else
         let sp = subtree_spent t (nr_node nd) rates;
             node_sealed = (case hm_get (t_nodes t) (nr_node nd) of Some n \<Rightarrow> n_sealed n | None \<Rightarrow> False)
         in if node_sealed then (t, Deny sp cap)
            else if cap \<le> sp \<and> Option.bind (hm_get (t_nodes t) (nr_node nd)) n_allowance \<noteq> None
            then (update_node (nr_node nd) (\<lambda>n. n\<lparr>n_sealed := True\<rparr>) t, Last)
            else (t, Allow))"

definition take_stop :: "task \<Rightarrow> task \<times> stop_style" where
  "take_stop t =
    (if \<not> t_synthetic_sent t then (t\<lparr>t_synthetic_sent := True\<rparr>, SyntheticEndTurn)
     else (t, RetryableFalse429))"

definition admitted :: "admission \<Rightarrow> bool" where
  "admitted a \<longleftrightarrow> a = Allow \<or> a = Last"

section \<open>The contract of a budget gate\<close>

text \<open>
  What bounds an amount: once it has reached the cap, a gate lets a request through only by using up one
  of its \<open>k\<close> exceptions, and it spends nothing itself.
\<close>

locale budget_gate =
  fixes gate :: "'r \<Rightarrow> 's \<Rightarrow> 's \<times> admission"
    and amount :: "'s \<Rightarrow> nat"
    and used :: "'s \<Rightarrow> nat"
    and good :: "'s \<Rightarrow> bool"
    and cap :: nat
    and k :: nat
  assumes excess: "good s \<Longrightarrow> cap \<le> amount s \<Longrightarrow> admitted (snd (gate r s)) \<Longrightarrow> used s < used (fst (gate r s))"
    and used_mono: "good s \<Longrightarrow> used s \<le> used (fst (gate r s))"
    and used_limit: "used s \<le> k"
    and costless: "good s \<Longrightarrow> amount (fst (gate r s)) = amount s"
begin

text \<open>
  At most \<open>w\<close> requests in flight, each costing at most \<open>c\<close>: the amount stays bounded. \<open>settle\<close> is a request
  finishing at a cost of at most \<open>c\<close>, \<open>idle\<close> any step that leaves the amount and gives no exception back.
\<close>

definition in_budget :: "nat \<Rightarrow> nat \<Rightarrow> 's \<Rightarrow> nat \<Rightarrow> bool" where
  "in_budget c w s f \<longleftrightarrow> amount s + f * c \<le> cap - 1 + (w + used s) * c"

lemma in_budget_idle:
  assumes "in_budget c w s f" "amount s' = amount s" "used s \<le> used s'"
  shows "in_budget c w s' f"
proof -
  have "(w + used s) * c \<le> (w + used s') * c" using assms(3) by (intro mult_le_mono1) simp
  then show ?thesis using assms(1,2) unfolding in_budget_def by linarith
qed

lemma in_budget_refused:
  assumes "good s" "in_budget c w s f"
  shows "in_budget c w (fst (gate r s)) f"
  using in_budget_idle [OF assms(2) costless [OF assms(1)] used_mono [OF assms(1)]] .

lemma in_budget_ask:
  assumes "good s" "in_budget c w s f" "f < w"
  shows "in_budget c w (fst (gate r s)) (if admitted (snd (gate r s)) then f + 1 else f)"
proof (cases "admitted (snd (gate r s))")
  case True
  let ?s = "fst (gate r s)"
  have "amount s + (f + 1) * c \<le> cap - 1 + (w + used ?s) * c"
  proof (cases "cap \<le> amount s")
    case over_cap: True
    have "(w + used s + 1) * c \<le> (w + used ?s) * c"
      using excess [OF assms(1) over_cap True] by (intro mult_le_mono1) simp
    then show ?thesis using assms(2) by (simp add: in_budget_def)
  next
    case False
    have "(f + 1) * c \<le> (w + used ?s) * c" using assms(3) by (intro mult_le_mono1) simp
    then show ?thesis using False by linarith
  qed
  then show ?thesis using True costless [OF assms(1), of r] by (simp add: in_budget_def)
qed (simp add: in_budget_refused [OF assms(1,2)])

lemma in_budget_settle:
  assumes "in_budget c w s (f + 1)" "amount s' \<le> amount s + c" "used s \<le> used s'"
  shows "in_budget c w s' f"
proof -
  have "(w + used s) * c \<le> (w + used s') * c" using assms(3) by (intro mult_le_mono1) simp
  then show ?thesis using assms(1,2) unfolding in_budget_def add_mult_distrib by linarith
qed

lemma in_budget_bound:
  assumes "in_budget c w s f"
  shows "amount s \<le> cap - 1 + (w + k) * c"
proof -
  have "(w + used s) * c \<le> (w + k) * c" using used_limit [of s] by (intro mult_le_mono1) simp
  then show ?thesis using assms unfolding in_budget_def by linarith
qed

end

text \<open>
  A gate over states with an amount spent, a flag and a cap: unsealed below the cap it stays
  unsealed, unsealed at the cap it lets one request through and seals, sealed it denies; it spends
  nothing itself. So its one exception is the request it seals with.
\<close>

locale fuse =
  fixes gate :: "'r \<Rightarrow> 's \<Rightarrow> 's \<times> admission"
    and amount :: "'s \<Rightarrow> nat"
    and sealed :: "'s \<Rightarrow> bool"
    and good :: "'s \<Rightarrow> bool"
    and cap :: nat
  assumes below: "good s \<Longrightarrow> \<not> sealed s \<Longrightarrow> amount s < cap \<Longrightarrow> \<not> sealed (fst (gate r s))"
    and crossing: "good s \<Longrightarrow> \<not> sealed s \<Longrightarrow> cap \<le> amount s \<Longrightarrow>
      snd (gate r s) = Last \<and> sealed (fst (gate r s))"
    and shut: "good s \<Longrightarrow> sealed s \<Longrightarrow> \<not> admitted (snd (gate r s)) \<and> sealed (fst (gate r s))"
    and free: "good s \<Longrightarrow> amount (fst (gate r s)) = amount s"

sublocale fuse \<subseteq> budget_gate gate amount "\<lambda>s. if sealed s then 1 else 0" good cap 1
proof unfold_locales
  fix s r
  assume s: "good s"
  show "cap \<le> amount s \<Longrightarrow> admitted (snd (gate r s)) \<Longrightarrow>
      (if sealed s then 1 else 0) < (if sealed (fst (gate r s)) then 1 else (0 :: nat))"
    using crossing [OF s, of r] shut [OF s, of r] by auto
  show "(if sealed s then 1 else 0) \<le> (if sealed (fst (gate r s)) then 1 else (0 :: nat))"
    using shut [OF s, of r] by auto
qed (simp_all add: free)

section \<open>Both gates of a task honour it\<close>

lemma admit_nodes: "t_nodes (fst (admit rates t)) = t_nodes t"
  by (simp add: admit_def Let_def split: option.split)

lemma spent_cong: "t_nodes t' = t_nodes t \<Longrightarrow> spent t' rates = spent t rates"
  by (simp add: spent_def)

lemma admit_wf: "task_wf t \<Longrightarrow> task_wf (fst (admit rates t))"
  by (simp add: admit_def task_wf_def Let_def split: option.split)

lemma admit_ceiling: "t_ceiling (fst (admit rates t)) = t_ceiling t"
  by (simp add: admit_def Let_def split: option.split)

lemma spent_update_node:
  "task_wf t \<Longrightarrow> (\<And>n. n_usage (f n) = n_usage n) \<Longrightarrow> spent (update_node k f t) rates = spent t rates"
  by (simp add: spent_eq task_simps hm.total_modify_same task_wfD(1))

lemma admit_at_cases:
  "admit_at nd rates t = admit rates t \<and> snd (admit rates t) \<noteq> Allow \<or>
   snd (admit rates t) = Allow \<and> fst (admit rates t) = t \<and>
     (fst (admit_at nd rates t) = t \<or>
      fst (admit_at nd rates t) = update_node (nr_node nd) (\<lambda>n. n\<lparr>n_sealed := True\<rparr>) t)"
  by (auto simp: admit_at_def admit_def Let_def split: option.split)

lemma admit_at_ceiling: "t_ceiling (fst (admit_at nd rates t)) = t_ceiling t"
  using admit_at_cases [of nd rates t] by (auto simp: admit_ceiling task_simps)

lemma admit_at_wf: "task_wf t \<Longrightarrow> task_wf (fst (admit_at nd rates t))"
  using admit_at_cases [of nd rates t] admit_wf [of t rates]
  by (auto simp: wf_update_node keeps_place_def)

lemma admit_at_spent: "task_wf t \<Longrightarrow> spent (fst (admit_at nd rates t)) r = spent t r"
  using admit_at_cases [of nd rates t] spent_cong [OF admit_nodes]
  by (auto simp: spent_update_node)

definition capped :: "u64 \<Rightarrow> task \<Rightarrow> bool" where
  "capped cap t \<longleftrightarrow> task_wf t \<and> t_ceiling t = Some cap"

interpretation root_gate: fuse "\<lambda>u::unit. admit rates" "\<lambda>t. unat (spent t rates)" t_sealed "capped cap" "unat cap"
  by unfold_locales
    (auto simp: admit_def capped_def admitted_def word_le_nat_alt Let_def spent_def)

interpretation node_gate: fuse "\<lambda>nd. admit_at nd rates" "\<lambda>t. unat (spent t rates)" t_sealed "capped cap" "unat cap"
proof unfold_locales
  fix t nd
  assume t: "capped cap t"
  show "\<not> t_sealed t \<Longrightarrow> unat (spent t rates) < unat cap \<Longrightarrow> \<not> t_sealed (fst (admit_at nd rates t))"
    using t admit_at_cases [of nd rates t] root_gate.below [OF t, where rates = rates] by (auto simp: task_simps)
  show "\<not> t_sealed t \<Longrightarrow> unat cap \<le> unat (spent t rates) \<Longrightarrow>
      snd (admit_at nd rates t) = Last \<and> t_sealed (fst (admit_at nd rates t))"
    using t admit_at_cases [of nd rates t] root_gate.crossing [OF t, where rates = rates] by auto
  show "t_sealed t \<Longrightarrow> \<not> admitted (snd (admit_at nd rates t)) \<and> t_sealed (fst (admit_at nd rates t))"
    using t admit_at_cases [of nd rates t] root_gate.shut [OF t, where rates = rates] by (auto simp: admitted_def)
  show "unat (spent (fst (admit_at nd rates t)) rates) = unat (spent t rates)"
    using t by (simp add: capped_def admit_at_spent)
qed

section \<open>Runs of a task\<close>

datatype task_event =
    Began node_ref "string option"
  | Asked node_ref
  | Stopped
  | Ended node_ref usage bool

fun task_step :: "rate_card \<Rightarrow> task_event \<Rightarrow> task \<Rightarrow> task" where
  "task_step rates (Began nd label) t = begin_request nd label t"
| "task_step rates (Asked nd) t = fst (admit_at nd rates t)"
| "task_step rates Stopped t = fst (take_stop t)"
| "task_step rates (Ended nd u ok) t = finish_request nd u ok t"

definition task_run :: "rate_card \<Rightarrow> task_event list \<Rightarrow> task \<Rightarrow> task" where
  "task_run rates evs t = fold (task_step rates) evs t"

lemma task_run_simps [simp]:
  "task_run rates [] t = t"
  "task_run rates (e # evs) t = task_run rates evs (task_step rates e t)"
  by (simp_all add: task_run_def)

lemma take_stop_simps [task_simps]:
  "t_nodes (fst (take_stop t)) = t_nodes t" "t_sealed (fst (take_stop t)) = t_sealed t"
  "t_ceiling (fst (take_stop t)) = t_ceiling t" "t_live (fst (take_stop t)) = t_live t"
  "t_peak (fst (take_stop t)) = t_peak t" "t_root (fst (take_stop t)) = t_root t"
  by (simp_all add: take_stop_def)

lemma wf_task_step: "task_wf t \<Longrightarrow> task_wf (task_step rates e t)"
  by (cases e) (simp_all add: wf_begin_request admit_at_wf wf_finish_request, simp add: task_wf_def take_stop_def)

lemma wf_task_run: "task_wf t \<Longrightarrow> task_wf (task_run rates evs t)"
  by (induction evs arbitrary: t) (simp_all add: wf_task_step)

lemma begin_request_simps [task_simps]:
  "t_root (begin_request nd l t) = t_root t" "t_ceiling (begin_request nd l t) = t_ceiling t"
  "t_sealed (begin_request nd l t) = t_sealed t" "t_live (begin_request nd l t) = t_live t + 1"
  "t_peak (begin_request nd l t) = max (t_peak t) (t_live t + 1)"
  "t_synthetic_sent (begin_request nd l t) = t_synthetic_sent t"
  by (simp_all add: begin_request_def Let_def task_simps)

lemma finish_request_simps [task_simps]:
  "t_root (finish_request nd u ok t) = t_root t" "t_ceiling (finish_request nd u ok t) = t_ceiling t"
  "t_sealed (finish_request nd u ok t) = t_sealed t"
  "t_live (finish_request nd u ok t) = sat_sub (t_live t) 1"
  "t_peak (finish_request nd u ok t) = t_peak t"
  "t_synthetic_sent (finish_request nd u ok t) = t_synthetic_sent t"
  by (simp_all add: finish_request_def Let_def task_simps)

lemma admit_at_frame [task_simps]:
  "t_root (fst (admit_at nd rates t)) = t_root t" "t_live (fst (admit_at nd rates t)) = t_live t"
  "t_peak (fst (admit_at nd rates t)) = t_peak t"
  "t_synthetic_sent (fst (admit_at nd rates t)) = t_synthetic_sent t"
  by (auto simp: admit_at_def admit_def Let_def task_simps split: option.split)

lemma admit_at_total:
  assumes "task_wf t" "\<And>n b. g (n\<lparr>n_sealed := b\<rparr>) = g n"
  shows "hm.total g (t_nodes (fst (admit_at nd rates t))) = hm.total g (t_nodes t)"
  using admit_at_cases [of nd rates t] admit_nodes [of rates t] assms
  by (auto simp: task_simps intro!: hm.total_modify_same task_wfD(1))

section \<open>Accounting\<close>

fun ended_usage :: "task_event \<Rightarrow> usage" where
  "ended_usage (Ended nd u ok) = u"
| "ended_usage _ = 0"

fun ended_incomplete :: "task_event \<Rightarrow> u32" where
  "ended_incomplete (Ended nd u ok) = (if ok then 0 else 1)"
| "ended_incomplete _ = 0"

lemma task_run_total:
  assumes "task_wf t" "\<And>n l. g (n\<lparr>n_label := l\<rparr>) = g n" "\<And>k p l d. g (fresh_node k p l d) = 0"
    "\<And>n a. g (n\<lparr>n_allowance := a\<rparr>) = g n" "\<And>n b. g (n\<lparr>n_sealed := b\<rparr>) = g n"
    "\<And>n nd u ok. g (n\<lparr>n_usage := usage_merge (n_usage n) u, n_requests := n_requests n + 1,
       n_incomplete := (if ok then n_incomplete n else n_incomplete n + 1)\<rparr>) = g n + e (Ended nd u ok)"
    "\<And>nd l. e (Began nd l) = 0" "\<And>nd. e (Asked nd) = 0" "e Stopped = 0"
  shows "hm.total g (t_nodes (task_run rates evs t)) = hm.total g (t_nodes t) + (\<Sum>x\<leftarrow>evs. e x)"
  using assms(1)
proof (induction evs arbitrary: t)
  case (Cons x evs)
  have "hm.total g (t_nodes (task_step rates x t)) = hm.total g (t_nodes t) + e x"
  proof (cases x)
    case (Began nd l)
    then show ?thesis using begin_request_total [where g = g, OF Cons.prems assms(2-4), of nd l] assms(7) by simp
  next
    case (Asked nd)
    then show ?thesis using admit_at_total [where g = g, OF Cons.prems assms(5)] assms(8) by simp
  next
    case Stopped
    then show ?thesis using assms(9) by (simp add: task_simps)
  next
    case (Ended nd u ok)
    then show ?thesis
      using finish_request_total [where g = g and u = u and c = ok and e = "e (Ended nd u ok)", OF Cons.prems assms(2,3,6)] by simp
  qed
  then show ?case
    using Cons.IH [OF wf_task_step [OF Cons.prems, of rates x]] by (simp add: add.assoc)
qed simp

lemma task_totals:
  "total_usage (task_run rates evs (new_task cap share r)) = (\<Sum>e\<leftarrow>evs. ended_usage e)"
  "incomplete_requests (task_run rates evs (new_task cap share r)) = (\<Sum>e\<leftarrow>evs. ended_incomplete e)"
proof -
  have "hm.total n_usage (t_nodes (task_run rates evs (new_task cap share r))) =
      hm.total n_usage (t_nodes (new_task cap share r)) + (\<Sum>e\<leftarrow>evs. ended_usage e)"
    by (rule task_run_total [where g = n_usage and e = ended_usage])
      (simp_all add: wf_new_task usage_merge_plus)
  then show "total_usage (task_run rates evs (new_task cap share r)) = (\<Sum>e\<leftarrow>evs. ended_usage e)"
    by (simp add: total_usage_eq new_task_total)
  have "hm.total n_incomplete (t_nodes (task_run rates evs (new_task cap share r))) =
      hm.total n_incomplete (t_nodes (new_task cap share r)) + (\<Sum>e\<leftarrow>evs. ended_incomplete e)"
    by (rule task_run_total [where g = n_incomplete and e = ended_incomplete]) (simp_all add: wf_new_task)
  then show "incomplete_requests (task_run rates evs (new_task cap share r)) = (\<Sum>e\<leftarrow>evs. ended_incomplete e)"
    by (simp add: incomplete_eq new_task_total)
qed

text \<open>
  C3. Usage is conserved: however requests begin, are admitted, stopped and end, in any interleaving
  and for any declared parents, the task's total is the sum of the usages that ended, the root's
  usage and the subagents' usage add up to it, and every incomplete request is counted.
\<close>

theorem usage_is_conserved:
  "let t = task_run rates evs (new_task cap share r) in
     total_usage t = (\<Sum>e\<leftarrow>evs. ended_usage e) \<and>
     total_usage t = root_usage t + subagent_usage t \<and>
     incomplete_requests t = (\<Sum>e\<leftarrow>evs. ended_incomplete e)"
  using task_totals root_plus_subagents [OF wf_task_run [OF wf_new_task, of rates evs cap share r]]
  by (simp add: Let_def)

section \<open>Concurrency\<close>

fun conc_levels :: "nat \<Rightarrow> task_event list \<Rightarrow> nat list" where
  "conc_levels n [] = []"
| "conc_levels n (Began nd l # evs) = (n + 1) # conc_levels (n + 1) evs"
| "conc_levels n (Ended nd u ok # evs) = (n - 1) # conc_levels (n - 1) evs"
| "conc_levels n (e # evs) = n # conc_levels n evs"

lemma unat_max: "unat (max a b) = max (unat a) (unat b)" for a b :: "'a::len word"
  by (simp add: max_def word_le_nat_alt)

lemma conc_run:
  assumes "unat (t_live t) + length evs < 2 ^ 32" "task_wf t"
  shows "unat (t_live (task_run rates evs t)) = last (unat (t_live t) # conc_levels (unat (t_live t)) evs) \<and>
    unat (t_peak (task_run rates evs t)) =
      fold max (conc_levels (unat (t_live t)) evs) (unat (t_peak t))"
  using assms
proof (induction evs arbitrary: t)
  case (Cons e evs)
  let ?t = "task_step rates e t"
  have wf: "task_wf ?t" by (rule wf_task_step [OF Cons.prems(2)])
  have le: "unat (t_live t) \<le> unat (t_peak t)" using Cons.prems(2) by (simp add: task_wf_def word_le_nat_alt)
  show ?case
  proof (cases e)
    case (Began nd l)
    have "unat (t_live t + 1) = unat (t_live t) + 1"
      using Cons.prems(1) unat_add_bound [of "t_live t" 1] by simp
    then show ?thesis using Began Cons.IH [of ?t] Cons.prems(1) wf le by (simp add: task_simps unat_max max.commute)
  next
    case (Asked nd)
    then show ?thesis using Cons.IH [of ?t] Cons.prems(1) wf le by (simp add: task_simps)
  next
    case Stopped
    then show ?thesis using Cons.IH [of ?t] Cons.prems(1) wf le by (simp add: task_simps)
  next
    case (Ended nd u ok)
    then show ?thesis using Cons.IH [of ?t] Cons.prems(1) wf le by (simp add: task_simps sat_simps)
  qed
qed simp

text \<open>
  The recorded peak is the true maximum of the number of requests in flight, and the live count
  the true current number, over every run of fewer than \<open>2 ^ 32\<close> events.
\<close>

lemma peak_is_max_concurrency:
  assumes "length evs < 2 ^ 32"
  shows "unat (t_peak (task_run rates evs (new_task cap share r))) = Max (set (0 # conc_levels 0 evs)) \<and>
    unat (t_live (task_run rates evs (new_task cap share r))) = last (0 # conc_levels 0 evs)"
proof -
  have "fold max xs 0 = Max (set (0 # xs))" for xs :: "nat list"
    by (metis Max.set_eq_fold)
  then show ?thesis
    using conc_run [of "new_task cap share r" evs rates] assms wf_new_task by (simp add: task_simps)
qed

lemma peak_is_max_concurrency_witness:
  "let a = declared_ref ''r'' (Some ''a'') None; b = declared_ref ''r'' (Some ''b'') None;
       evs = [Began a None, Began b None, Ended a usage_default True, Ended b usage_default True]
   in unat (t_peak (task_run (rate_from_base 3 15) evs (new_task None None ''r''))) = 2"
  using peak_is_max_concurrency
    [of "[Began (declared_ref ''r'' (Some ''a'') None) None, Began (declared_ref ''r'' (Some ''b'') None) None,
         Ended (declared_ref ''r'' (Some ''a'') None) usage_default True,
         Ended (declared_ref ''r'' (Some ''b'') None) usage_default True]"]
  by (simp add: Let_def)

section \<open>Stopping\<close>

lemma run_keeps_seal:
  assumes "capped cap t" "t_sealed t"
  shows "capped cap (task_run rates evs t) \<and> t_sealed (task_run rates evs t)"
  using assms
proof (induction evs arbitrary: t)
  case (Cons e evs)
  have "capped cap (task_step rates e t)"
    using Cons.prems(1) wf_task_step [of t rates e]
    by (cases e) (simp_all add: capped_def task_simps admit_at_ceiling)
  moreover have "t_sealed (task_step rates e t)"
    using Cons.prems node_gate.shut [OF Cons.prems] by (cases e) (simp_all add: task_simps)
  ultimately show ?case using Cons.IH by simp
qed simp

text \<open>
  C19. A sealed task stays sealed: whatever happens to it afterwards, every later request at any node
  is denied, with the amount spent and the ceiling in the denial.
\<close>

theorem sealed_denies_forever:
  assumes "task_wf t" "t_ceiling t = Some cap" "t_sealed t"
  shows "let t' = task_run rates evs t in snd (admit_at nd rates t') = Deny (spent t' rates) cap"
proof -
  have "capped cap t" using assms by (simp add: capped_def)
  from run_keeps_seal [OF this assms(3), of rates evs] show ?thesis
    by (auto simp: Let_def admit_at_def admit_def capped_def)
qed

theorem sealed_denies_forever_witness:
  "snd (admit_at (inferred_ref ''r'' 0) (rate_from_base 3 15)
    (fst (admit_at (inferred_ref ''r'' 0) (rate_from_base 3 15) (new_task (Some 0) None ''r'')))) = Deny 0 0"
proof -
  let ?t = "new_task (Some 0) None ''r''" and ?rates = "rate_from_base 3 15"
  have "capped 0 ?t" by (simp add: capped_def wf_new_task task_simps)
  moreover have "spent ?t ?rates = 0" by (simp add: spent_eq new_task_total)
  ultimately show ?thesis
    using sealed_denies_forever [of "fst (admit_at (inferred_ref ''r'' 0) ?rates ?t)" 0 ?rates "[]"]
      node_gate.crossing [of 0 ?t ?rates] admit_at_spent [of ?t _ ?rates ?rates]
    by (simp add: capped_def task_simps admit_at_wf admit_at_ceiling Let_def)
qed

fun stops :: "rate_card \<Rightarrow> task_event list \<Rightarrow> task \<Rightarrow> stop_style list" where
  "stops rates [] t = []"
| "stops rates (Stopped # evs) t = snd (take_stop t) # stops rates evs (fst (take_stop t))"
| "stops rates (e # evs) t = stops rates evs (task_step rates e t)"

lemma stops_sent:
  "t_synthetic_sent t \<Longrightarrow> \<exists>n. stops rates evs t = replicate n RetryableFalse429"
proof (induction rates evs t rule: stops.induct)
  case (2 rates evs t)
  then obtain n where "stops rates evs t = replicate n RetryableFalse429"
    by (auto simp: take_stop_def)
  with 2 show ?case by (intro exI [of _ "Suc n"]) (simp add: take_stop_def)
qed (simp_all add: task_simps)

lemma stops_unsent:
  "\<not> t_synthetic_sent t \<Longrightarrow>
    stops rates evs t = [] \<or> (\<exists>n. stops rates evs t = SyntheticEndTurn # replicate n RetryableFalse429)"
proof (induction rates evs t rule: stops.induct)
  case (2 rates evs t)
  then show ?case using stops_sent [of "t\<lparr>t_synthetic_sent := True\<rparr>" rates evs] by (simp add: take_stop_def)
qed (simp_all add: task_simps)

text \<open>
  Over any run of a task the first stop is the synthetic end of turn and all later ones are the
  429: no task is ended cleanly twice, and a stop is never the 402.
\<close>

lemma stop_sequence:
  "stops rates evs (new_task cap share r) = [] \<or>
   (\<exists>n. stops rates evs (new_task cap share r) = SyntheticEndTurn # replicate n RetryableFalse429)"
  by (rule stops_unsent) (simp add: task_simps)

section \<open>What lands past the ceiling\<close>

text \<open>
  One request as the proxy handles it: begin, then ask; a denied one is stopped and finished with no
  usage. \<open>f\<close> counts the requests in flight, at most \<open>w\<close>; each finish raises the metered spend by at
  most \<open>c\<close>.
\<close>

inductive budget_run :: "rate_card \<Rightarrow> u64 \<Rightarrow> nat \<Rightarrow> nat \<Rightarrow> task \<Rightarrow> nat \<Rightarrow> bool"
  for rates :: rate_card and cap :: u64 and c :: nat and w :: nat where
  start: "budget_run rates cap c w (new_task (Some cap) share r) 0"
| relay: "budget_run rates cap c w t f \<Longrightarrow> f < w \<Longrightarrow>
    admit_at nd rates (begin_request nd l t) = (t', ad) \<Longrightarrow> admitted ad \<Longrightarrow>
    budget_run rates cap c w t' (f + 1)"
| refuse: "budget_run rates cap c w t f \<Longrightarrow>
    admit_at nd rates (begin_request nd l t) = (t', Deny a b) \<Longrightarrow>
    budget_run rates cap c w (finish_request nd usage_default True (fst (take_stop t'))) f"
| settle: "budget_run rates cap c w t (f + 1) \<Longrightarrow>
    unat (spent (finish_request nd u ok t) rates) \<le> unat (spent t rates) + c \<Longrightarrow>
    budget_run rates cap c w (finish_request nd u ok t) f"

lemma begin_request_spent: "task_wf t \<Longrightarrow> spent (begin_request nd l t) rates = spent t rates"
  unfolding spent_eq by (rule begin_request_total) simp_all

lemma finish_nothing_spent:
  "task_wf t \<Longrightarrow> spent (finish_request nd usage_default ok t) rates = spent t rates"
  using finish_request_total [where g = "\<lambda>n. usage_micros (n_usage n) rates" and e = 0]
  by (simp add: spent_eq usage_merge_plus usage_default_zero)

lemma begin_request_capped: "capped cap t \<Longrightarrow> capped cap (begin_request nd l t)"
  by (simp add: capped_def wf_begin_request task_simps)

lemma admit_at_capped: "capped cap t \<Longrightarrow> capped cap (fst (admit_at nd rates t))"
  by (simp add: capped_def admit_at_wf admit_at_ceiling)

lemma take_stop_capped: "capped cap t \<Longrightarrow> capped cap (fst (take_stop t))"
  by (simp add: capped_def task_wf_def take_stop_def)

lemma finish_request_capped: "capped cap t \<Longrightarrow> capped cap (finish_request nd u ok t)"
  by (simp add: capped_def wf_finish_request task_simps)

lemmas capped_intros =
  begin_request_capped admit_at_capped take_stop_capped finish_request_capped

lemma budget_run_capped: "budget_run rates cap c w t f \<Longrightarrow> capped cap t"
proof (induction rule: budget_run.induct)
  case (start share r)
  show ?case by (simp add: capped_def wf_new_task task_simps)
next
  case (relay t f nd l t' ad)
  then show ?case using admit_at_capped [OF begin_request_capped, of cap t nd rates nd l] by simp
next
  case (refuse t f nd l t' a b)
  then show ?case
    using admit_at_capped [OF begin_request_capped, of cap t nd rates nd l] by (simp add: capped_intros)
next
  case (settle t f nd u ok)
  then show ?case by (simp add: capped_intros)
qed

lemma budget_run_in_budget:
  "budget_run rates cap c w t f \<Longrightarrow> node_gate.in_budget rates cap c w t f"
proof (induction rule: budget_run.induct)
  case (start share r)
  have "spent (new_task (Some cap) share r) rates = 0" by (simp add: spent_eq new_task_total)
  then show ?case by (simp add: node_gate.in_budget_def)
next
  case (relay t f nd l t' ad)
  let ?t = "begin_request nd l t"
  have t: "capped cap t" using budget_run_capped relay.hyps by blast
  have "node_gate.in_budget rates cap c w ?t f"
    using relay.IH t by (rule_tac node_gate.in_budget_idle) (auto simp: task_simps begin_request_spent capped_def)
  from node_gate.in_budget_ask [where rates = rates and c = c and r = nd,
      OF begin_request_capped [OF t] this relay.hyps(2)]
  show ?case using relay.hyps by simp
next
  case (refuse t f nd l t' a b)
  let ?t = "begin_request nd l t"
  have t: "capped cap t" using budget_run_capped refuse.hyps by blast
  have t': "t' = fst (admit_at nd rates ?t)" using refuse.hyps by simp
  have wf: "task_wf ?t" "task_wf t'" "task_wf (fst (take_stop t'))"
    using t admit_at_capped [OF begin_request_capped [OF t], of nd rates nd l] take_stop_capped [of cap t']
    by (simp_all add: capped_def wf_begin_request t')
  have "node_gate.in_budget rates cap c w ?t f"
    using refuse.IH t by (rule_tac node_gate.in_budget_idle) (auto simp: task_simps begin_request_spent capped_def)
  from node_gate.in_budget_refused [where rates = rates and c = c and r = nd,
      OF begin_request_capped [OF t] this]
  have "node_gate.in_budget rates cap c w t' f"
    using refuse.hyps by (simp add: admitted_def)
  then show ?case
    using wf by (rule_tac node_gate.in_budget_idle)
      (auto simp: task_simps finish_nothing_spent spent_cong [OF take_stop_simps(1)])
next
  case (settle t f nd u ok)
  then show ?case by (auto intro: node_gate.in_budget_settle simp: task_simps)
qed

text \<open>
  What a task can cost is bounded: with at most \<open>w\<close> requests in flight, each costing at most \<open>c\<close>
  micro-dollars as metered, the spend never exceeds the ceiling by more than \<open>w + 1\<close> requests,
  whatever nodes they come from, in every interleaving of arrivals and completions.
\<close>

lemma ceiling_overshoot_bounded:
  assumes "budget_run rates cap c w t f"
  shows "unat (spent t rates) \<le> unat cap - 1 + (w + 1) * c"
  by (rule node_gate.in_budget_bound [OF budget_run_in_budget [OF assms]])


definition seq_ref :: node_ref where
  "seq_ref = declared_ref ''r'' None None"

definition sixty :: usage where
  "sixty = usage_default\<lparr>u_input := 60\<rparr>"

definition seq_request :: "task \<Rightarrow> task" where
  "seq_request t =
    finish_request seq_ref sixty True
      (fst (admit_at seq_ref (rate_from_base 1000000 0) (begin_request seq_ref None t)))"


definition solo :: "u64 \<Rightarrow> u32 \<Rightarrow> u32 \<Rightarrow> bool \<Rightarrow> task" where
  "solo k n p sd =
    \<lparr>t_root = ''r'', t_nodes = [(''r'',
       \<lparr>n_id = ''r'', n_parent = None, n_label = None, n_usage = usage_default\<lparr>u_input := k\<rparr>,
        n_requests = n, n_incomplete = 0, n_depth = 0, n_allowance = Some 100, n_sealed = False\<rparr>)],
     t_order = [''r''], t_ceiling = Some 100, t_sealed = sd, t_peak = p, t_live = 0,
     t_voucher_share = None, t_synthetic_sent = False\<rparr>"

lemma sat_add_zero_left [simp]: "sat_add 0 a = a"
  using unsigned_less [of a] by (simp add: sat_add_def)

lemma solo_new: "new_task (Some 100) None ''r'' = solo 0 0 0 False"
  by (simp add: new_task_def solo_def task_new_def with_ceiling_micros_def update_node_def hm_insert_def
      hm_modify_def fresh_node_def usage_default_def Let_def)

lemma solo_begin: "begin_request seq_ref None (solo k n p sd) = (solo k n (max p 1) sd)\<lparr>t_live := 1\<rparr>"
  by (simp add: begin_request_def ensure_def hm_contains_def solo_def seq_ref_def declared_ref_def
      mint_voucher_def Let_def)

lemma solo_admit:
  assumes "usage_micros (usage_default\<lparr>u_input := k\<rparr>) rates = m"
  shows "admit_at seq_ref rates ((solo k n p False)\<lparr>t_live := 1\<rparr>) =
    ((solo k n p (100 \<le> m))\<lparr>t_live := 1\<rparr>, if 100 \<le> m then Last else Allow)"
  using assms
  by (simp add: admit_at_def admit_def Let_def solo_def seq_ref_def declared_ref_def spent_def hm_values_def
      allowance_of_def subtree_spent_def children_of_def map_filter_def)

lemma solo_finish:
  "finish_request seq_ref sixty True ((solo k n p sd)\<lparr>t_live := 1\<rparr>) = solo (k + 60) (n + 1) p sd"
  by (simp add: finish_request_def ensure_def hm_contains_def solo_def seq_ref_def declared_ref_def
      sixty_def update_node_def hm_modify_def usage_merge_def usage_default_def Let_def sat_sub_def)

lemma solo_micros:
  "usage_micros (usage_default\<lparr>u_input := k\<rparr>) (rate_from_base 1000000 0) = (k * 1000000) div 1000000"
  by (simp add: usage_micros_def usage_default_def rate_from_base_def)

lemma solo_spent: "spent (solo k n p sd) (rate_from_base 1000000 0) = (k * 1000000) div 1000000"
    "spent ((solo k n p sd)\<lparr>t_live := 1\<rparr>) (rate_from_base 1000000 0) = (k * 1000000) div 1000000"
  by (simp_all add: spent_def solo_def hm_values_def solo_micros)

lemma solo_step:
  assumes run: "budget_run (rate_from_base 1000000 0) 100 60 1 (solo k n p False) 0"
    and m: "(k * 1000000) div 1000000 = k" "((k + 60) * 1000000) div 1000000 = k + 60" "unat (k + 60) = unat k + 60"
  shows "budget_run (rate_from_base 1000000 0) 100 60 1 (solo (k + 60) (n + 1) (max p 1) (100 \<le> k)) 0"
proof -
  let ?rates = "rate_from_base 1000000 0"
  have "admit_at seq_ref ?rates (begin_request seq_ref None (solo k n p False)) =
      ((solo k n (max p 1) (100 \<le> k))\<lparr>t_live := 1\<rparr>, if 100 \<le> k then Last else Allow)"
    using solo_micros m(1) by (simp add: solo_begin solo_admit)
  from budget_run.relay [OF run _ this]
  have "budget_run ?rates 100 60 1 ((solo k n (max p 1) (100 \<le> k))\<lparr>t_live := 1\<rparr>) (0 + 1)"
    by (simp add: admitted_def)
  from budget_run.settle [OF this, of seq_ref sixty True] show ?thesis
    using m by (simp add: solo_finish solo_spent)
qed

lemma solo_run: "budget_run (rate_from_base 1000000 0) 100 60 1 (solo 180 3 1 True) 0"
proof -
  have "budget_run (rate_from_base 1000000 0) 100 60 1 (solo 0 0 0 False) 0"
    using budget_run.start [where cap = 100 and share = None and r = "''r''"] by (simp add: solo_new)
  from solo_step [OF this] have "budget_run (rate_from_base 1000000 0) 100 60 1 (solo 60 1 1 False) 0" by simp
  from solo_step [OF this] have "budget_run (rate_from_base 1000000 0) 100 60 1 (solo 120 2 1 False) 0" by simp
  from solo_step [OF this] show ?thesis by simp
qed

lemma ceiling_overshoot_bounded_witness:
  "unat (spent (solo 180 3 1 True) (rate_from_base 1000000 0)) \<le> unat (100 :: u64) - 1 + (1 + 1) * 60"
  by (rule ceiling_overshoot_bounded [OF solo_run])

text \<open>
  The bound of one request in flight that the documentation gives for the overshoot is exceeded:
  with requests strictly one after the other, each of 60 under a ceiling of 100, three requests land
  and the spend ends 80 past the ceiling, because the request that crosses is relayed as allowed and
  the one after it is relayed as the last.
\<close>

lemma two_requests_land_past_ceiling:
  "budget_run (rate_from_base 1000000 0) 100 60 1 (solo 180 3 1 True) 0 \<and>
   unat (spent (solo 180 3 1 True) (rate_from_base 1000000 0)) = 100 + 60 + 20"
  using solo_run by (simp add: solo_spent)

section \<open>What a finish can add to the spend\<close>

lemma div_add_bound: "(a + b) div m \<le> a div m + b div m + 1" for a b m :: nat
proof (cases "m = 0")
  case False
  then have "a mod m + b mod m < 2 * m" using mod_less_divisor [of m a] mod_less_divisor [of m b] by linarith
  then have "(a mod m + b mod m) div m < 2" by (rule less_mult_imp_div_less)
  then show ?thesis using div_add1_eq [of a b m] by linarith
qed simp

text \<open>
  Finishing a request never raises the metered spend by more than the request's own exact cost
  rounded down plus one micro-dollar, as long as nothing wraps; together with the bound on what
  lands past a ceiling this ties the ceiling to the real price of the requests.
\<close>

lemma finish_raises_spend_by_its_cost:
  assumes "task_wf t" "hm_get (t_nodes t) (nr_node nd) = Some n" "addable (n_usage n) u"
    "priced (usage_merge (n_usage n) u) rates"
    "unat (spent t rates) + exact_cost u rates div 1000000 + 1 < 2 ^ 64"
  shows "unat (spent (finish_request nd u ok t) rates) \<le> unat (spent t rates) + exact_cost u rates div 1000000 + 1"
proof -
  let ?g = "\<lambda>n. usage_micros (n_usage n) rates"
  let ?f = "\<lambda>n. n\<lparr>n_usage := usage_merge (n_usage n) u, n_requests := n_requests n + 1,
      n_incomplete := (if ok then n_incomplete n else n_incomplete n + 1)\<rparr>"
  define e where "e = ?g (?f n) - ?g n"
  have ens: "ensure (nr_node nd) p None t = t" for p
    using assms(2) by (simp add: ensure_def hm_contains_def)
  have sp: "spent (finish_request nd u ok t) rates = spent t rates + e"
    using hm.total_modify [OF task_wfD(1) [OF assms(1)] assms(2), of ?g ?f e]
    by (simp add: finish_request_def Let_def ens spent_eq task_simps e_def)
  have n: "priced (n_usage n) rates"
    using assms(3,4) by (simp add: priced_def exact_cost_merge)
  have "unat (?g n) \<le> unat (?g (?f n))" "unat (?g (?f n)) \<le> unat (?g n) + exact_cost u rates div 1000000 + 1"
    using assms(3,4) n by (simp_all add: usage_micros_exact exact_cost_merge div_le_mono div_add_bound)
  then have "unat e \<le> exact_cost u rates div 1000000 + 1"
    by (simp add: e_def unat_sub word_le_nat_alt)
  then show ?thesis using sp assms(5) by (subst sp, subst unat_add_bound) simp_all
qed

lemma finish_raises_spend_by_its_cost_witness:
  "unat (spent (finish_request seq_ref sixty True (solo 0 0 0 False)) (rate_from_base 1000000 0)) \<le> 61"
proof -
  have "hm_get (t_nodes (solo 0 0 0 False)) (nr_node seq_ref) =
      Some (\<lparr>n_id = ''r'', n_parent = None, n_label = None, n_usage = usage_default,
        n_requests = 0, n_incomplete = 0, n_depth = 0, n_allowance = Some 100, n_sealed = False\<rparr>)"
    by (simp add: solo_def seq_ref_def declared_ref_def usage_default_def)
  moreover have "addable usage_default sixty"
    "exact_cost (usage_merge usage_default sixty) (rate_from_base 1000000 0) = 60000000"
    "exact_cost sixty (rate_from_base 1000000 0) = 60000000"
    by (simp_all add: addable_def exact_cost_def sixty_def usage_merge_def usage_default_def rate_from_base_def)
  moreover have "spent (solo 0 0 0 False) (rate_from_base 1000000 0) = 0" by (simp add: solo_spent)
  moreover have "task_wf (solo 0 0 0 False)"
    using wf_new_task [of "Some 100" None "''r''"] by (simp add: solo_new)
  ultimately show ?thesis
    using finish_raises_spend_by_its_cost
      [of "solo 0 0 0 False" seq_ref _ sixty "rate_from_base 1000000 0" True]
    by (simp add: priced_def)
qed

end
