(* ===== verification/Tree_Tally.thy ===== *)
theory Tree_Tally
  imports Tree_Admit
begin

text \<open>
  What each node of a task has used (\<open>crates/tailfin-tree/src/lib.rs\<close>): its usage, requests and incomplete
  requests depend only on the requests that ended, in order, and not on what began, was asked or stopped
  in between. Two tasks in which the same requests ended agree on every roll-up.
\<close>

section \<open>The tally of a node\<close>

type_synonym tally = "usage \<times> u32 \<times> u32"

definition node_tally :: "task \<Rightarrow> string \<Rightarrow> tally" where
  "node_tally t k =
    (case hm_get (t_nodes t) k of
       Some n \<Rightarrow> (n_usage n, n_requests n, n_incomplete n)
     | None \<Rightarrow> (usage_default, 0, 0))"

definition tally_add :: "tally \<Rightarrow> usage \<Rightarrow> bool \<Rightarrow> tally" where
  "tally_add y u ok = (case y of (v, n, i) \<Rightarrow> (usage_merge v u, n + 1, if ok then i else i + 1))"

lemma tally_update_node:
  assumes "\<And>n. n_usage (f n) = n_usage n" "\<And>n. n_requests (f n) = n_requests n" "\<And>n. n_incomplete (f n) = n_incomplete n"
  shows "node_tally (update_node k f t) j = node_tally t j"
  using assms by (auto simp: node_tally_def task_simps hm_simps split: option.splits)

lemma tally_ensure: "node_tally (ensure k p l t) j = node_tally t j"
proof (cases "hm_contains (t_nodes t) k")
  case True
  then show ?thesis by (auto simp: ensure_def tally_update_node split: option.split)
next
  case False
  then show ?thesis
    by (auto simp: ensure_def node_tally_def fresh_node_def hm_simps hm_contains_def Let_def split: option.splits)
qed

lemma tally_mint: "node_tally (mint_voucher nd t) j = node_tally t j"
  by (auto simp: mint_voucher_def Let_def tally_update_node split: option.split)

lemma tally_cong: "t_nodes t' = t_nodes t \<Longrightarrow> node_tally t' j = node_tally t j"
  by (simp add: node_tally_def)

lemma tally_begin [task_simps]: "node_tally (begin_request nd l t) j = node_tally t j"
proof -
  have "node_tally (begin_request nd l t) j = node_tally (mint_voucher nd (ensure (nr_node nd) (nr_parent nd) l t)) j"
    by (rule tally_cong) (simp add: begin_request_def Let_def)
  then show ?thesis by (simp add: tally_mint tally_ensure)
qed

lemma tally_admit [task_simps]: "node_tally (fst (admit_at nd rates t)) j = node_tally t j"
  using admit_at_cases [of nd rates t] tally_cong [OF admit_nodes]
  by (auto simp: tally_update_node)

lemma tally_stop [task_simps]: "node_tally (fst (take_stop t)) j = node_tally t j"
  by (rule tally_cong) (simp add: task_simps)

lemma tally_finish [task_simps]:
  "node_tally (finish_request nd u ok t) j =
    (if j = nr_node nd then tally_add (node_tally t j) u ok else node_tally t j)"
proof -
  let ?t = "ensure (nr_node nd) (nr_parent nd) None t"
  obtain n where "hm_get (t_nodes ?t) (nr_node nd) = Some n" using ensure_get by fastforce
  then have "node_tally (finish_request nd u ok t) j =
      (if j = nr_node nd then tally_add (node_tally ?t j) u ok else node_tally ?t j)"
    by (simp add: finish_request_def Let_def node_tally_def tally_add_def task_simps hm_simps)
  then show ?thesis by (simp add: tally_ensure)
qed

section \<open>The requests that ended\<close>

fun ended_list :: "task_event list \<Rightarrow> (string \<times> usage \<times> bool) list" where
  "ended_list [] = []"
| "ended_list (Ended nd u ok # evs) = (nr_node nd, u, ok) # ended_list evs"
| "ended_list (e # evs) = ended_list evs"

lemma ended_list_append [simp]: "ended_list (a @ b) = ended_list a @ ended_list b"
  by (induction a rule: ended_list.induct) simp_all

definition tally_run :: "(string \<times> usage \<times> bool) list \<Rightarrow> (string \<Rightarrow> tally) \<Rightarrow> string \<Rightarrow> tally" where
  "tally_run es = fold (\<lambda>(k, u, ok) m. m(k := tally_add (m k) u ok)) es"

lemma task_run_tally: "node_tally (task_run rates evs t) = tally_run (ended_list evs) (node_tally t)"
proof (induction evs arbitrary: t)
  case (Cons e evs)
  have "node_tally (task_step rates e t) = tally_run (ended_list [e]) (node_tally t)"
    by (cases e) (auto simp: tally_run_def task_simps fun_eq_iff)
  moreover have "tally_run (ended_list (e # evs)) m = tally_run (ended_list evs) (tally_run (ended_list [e]) m)" for m
    by (cases e) (simp_all add: tally_run_def)
  ultimately show ?case using Cons by simp
qed (simp add: tally_run_def)

lemma new_task_tally: "node_tally (new_task cap share r) = (\<lambda>k. (usage_default, 0, 0))"
proof
  fix k
  have "node_tally (with_voucher_share s t) k = node_tally t k" for s t
    by (rule tally_cong) (simp add: with_voucher_share_def)
  moreover have "node_tally (with_ceiling_micros c t) k = node_tally t k" for c t
    using tally_cong [of "t\<lparr>t_ceiling := Some c\<rparr>" t] by (simp add: with_ceiling_micros_def tally_update_node)
  moreover have "node_tally (task_new r) k = (usage_default, 0, 0)"
    by (simp add: node_tally_def task_new_def fresh_node_def hm_simps)
  ultimately show "node_tally (new_task cap share r) k = (usage_default, 0, 0)"
    by (simp add: new_task_def Let_def split: option.split)
qed

section \<open>Roll-ups from the tallies\<close>

lemma total_by_keys:
  fixes g :: "node \<Rightarrow> 'a::comm_monoid_add"
  assumes "hm_wf m" "\<And>k n. hm_get m k = Some n \<Longrightarrow> g n = f k"
  shows "hm.total g m = (\<Sum>k \<in> set (hm_keys m). f k)"
  using assms
proof (induction m)
  case (Cons p m)
  obtain k n where p: "p = (k, n)" by (cases p)
  have wf: "hm_wf m" "k \<notin> set (hm_keys m)" using Cons.prems(1) p by (simp_all add: hm_wf_def hm_keys_def)
  have "g n' = f k'" if "hm_get m k' = Some n'" for k' n'
  proof -
    have "k' \<in> set (hm_keys m)" using that hm_get_in_keys [of m k'] by simp
    then have "k' \<noteq> k" using wf(2) by auto
    then have "hm_get (p # m) k' = Some n'" using that p by (simp add: hm_get_def)
    then show ?thesis by (rule Cons.prems(2))
  qed
  with Cons.IH wf(1) have "hm.total g m = (\<Sum>k \<in> set (hm_keys m). f k)" by blast
  moreover have "g n = f k" using Cons.prems(2) [of k n] p by (simp add: hm_get_def)
  moreover have "hm.total g (p # m) = g n + hm.total g m"
    unfolding hm_total_eq by (simp add: hm_values_def p)
  moreover have "set (hm_keys (p # m)) = insert k (set (hm_keys m))" by (simp add: hm_keys_def p)
  ultimately show ?case using wf(2) by simp
next
  case Nil
  show ?case unfolding hm_total_eq by (simp add: hm_values_def hm_keys_def)
qed

lemma total_by_tally:
  fixes h :: "tally \<Rightarrow> 'a::comm_monoid_add"
  assumes "task_wf t" "task_wf t'" "node_tally t = node_tally t'" "h (usage_default, 0, 0) = 0"
  shows "hm.total (\<lambda>n. h (n_usage n, n_requests n, n_incomplete n)) (t_nodes t) =
    hm.total (\<lambda>n. h (n_usage n, n_requests n, n_incomplete n)) (t_nodes t')"
proof -
  let ?g = "\<lambda>n. h (n_usage n, n_requests n, n_incomplete n)"
  let ?K = "set (hm_keys (t_nodes t))" and ?K' = "set (hm_keys (t_nodes t'))"
  have over: "hm.total ?g (t_nodes s) = (\<Sum>k \<in> ?K \<union> ?K'. h (node_tally s k))"
    if "task_wf s" "set (hm_keys (t_nodes s)) \<subseteq> ?K \<union> ?K'" for s
  proof -
    have "hm.total ?g (t_nodes s) = (\<Sum>k \<in> set (hm_keys (t_nodes s)). h (node_tally s k))"
      by (rule total_by_keys [OF task_wfD(1) [OF that(1)]]) (simp add: node_tally_def)
    also have "\<dots> = (\<Sum>k \<in> ?K \<union> ?K'. h (node_tally s k))"
    proof (rule sum.mono_neutral_left [OF _ that(2)])
      show "\<forall>k \<in> (?K \<union> ?K') - set (hm_keys (t_nodes s)). h (node_tally s k) = 0"
        using hm_get_in_keys [of "t_nodes s"] assms(4) by (fastforce simp: node_tally_def)
    qed simp
    finally show ?thesis .
  qed
  show ?thesis using over [OF assms(1)] over [OF assms(2)] assms(3) by simp
qed

lemma micros_nothing: "usage_micros usage_default rates = 0"
  by (simp add: usage_micros_def usage_default_def)

text \<open>What a report shows of a task depends only on the tallies of its nodes.\<close>

lemma same_tally_rollups:
  assumes "task_wf t" "task_wf t'" "node_tally t = node_tally t'" "t_root t = t_root t'"
  shows "total_usage t = total_usage t'" "incomplete_requests t = incomplete_requests t'"
    "spent t rates = spent t' rates" "fan_out_multiplier t = fan_out_multiplier t'"
proof -
  show total: "total_usage t = total_usage t'"
    using total_by_tally [OF assms(1-3), where h = fst] by (simp add: total_usage_eq usage_default_zero)
  show "incomplete_requests t = incomplete_requests t'"
    using total_by_tally [OF assms(1-3), where h = "\<lambda>(u, n, i). i"] by (simp add: incomplete_eq)
  show "spent t rates = spent t' rates"
    using total_by_tally [OF assms(1-3), where h = "\<lambda>(u, n, i). usage_micros u rates"]
    by (simp add: spent_eq micros_nothing)
  have "root_usage s = fst (node_tally s (t_root s))" for s
    by (simp add: root_usage_def node_tally_def split: option.split)
  then show "fan_out_multiplier t = fan_out_multiplier t'"
    using total assms(3,4) by (simp only: fan_out_multiplier_def)
qed

end
