(* ===== verification/Tree_Voucher.thy ===== *)
theory Tree_Voucher
  imports Tree_Admit Tree_Tally
begin

text \<open>
  Vouchers (\<open>crates/tailfin-tree/src/lib.rs\<close>: \<open>mint_voucher\<close>, \<open>allowance_of\<close>): what a subtree may
  spend. In runs where a request names a parent that was seen before, the children of a node never
  hold more than the node itself; without that, the sum is unbounded. The last two sections
  say exactly what an exhausted voucher stops, and what a voucher bounds: the gate it puts before its
  node is an interpretation of \<open>budget_gate\<close>.
\<close>

section \<open>What children hold\<close>

definition held :: "task \<Rightarrow> string \<Rightarrow> nat" where
  "held t c = (case Option.bind (hm_get (t_nodes t) c) n_allowance of Some a \<Rightarrow> unat a | None \<Rightarrow> 0)"

definition held_below :: "task \<Rightarrow> string \<Rightarrow> nat" where
  "held_below t p = (\<Sum>c\<leftarrow>children_of t p. held t c)"

text \<open>A reference the resolver gives for this task, with a parent the task has seen.\<close>

definition known_ref :: "task \<Rightarrow> node_ref \<Rightarrow> bool" where
  "known_ref t nd \<longleftrightarrow> nr_root nd = t_root t \<and>
    (is_root nd \<or> (\<exists>p. nr_parent nd = Some p \<and> p \<noteq> nr_node nd \<and> hm_contains (t_nodes t) p))"

inductive voucher_run :: "u64 \<Rightarrow> fp \<Rightarrow> task \<Rightarrow> bool" for cap :: u64 and share :: fp where
  start: "voucher_run cap share (new_task (Some cap) (Some share) r)"
| began: "voucher_run cap share t \<Longrightarrow> known_ref t nd \<Longrightarrow> voucher_run cap share (begin_request nd l t)"
| asked: "voucher_run cap share t \<Longrightarrow> voucher_run cap share (fst (admit_at nd rates t))"
| stopped: "voucher_run cap share t \<Longrightarrow> voucher_run cap share (fst (take_stop t))"
| ended: "voucher_run cap share t \<Longrightarrow> hm_contains (t_nodes t) (nr_node nd) \<Longrightarrow>
    voucher_run cap share (finish_request nd u ok t)"

section \<open>The invariant of a run\<close>

definition voucher_inv :: "u64 \<Rightarrow> task \<Rightarrow> bool" where
  "voucher_inv cap t \<longleftrightarrow> task_wf t \<and> t_ceiling t = Some cap \<and>
    (\<exists>s. t_voucher_share t = Some s \<and> is_share s) \<and>
    (\<forall>k n. hm_get (t_nodes t) k = Some n \<longrightarrow>
      (\<exists>a. n_allowance n = Some a \<and> unat a \<le> unat cap) \<and>
      (\<forall>p. n_parent n = Some p \<longrightarrow> hm_contains (t_nodes t) p) \<and>
      held_below t k \<le> unat (allowance_of t k))"

text \<open>Two tasks whose nodes agree on place and allowance hold the same vouchers.\<close>

definition same_vouchers :: "task \<Rightarrow> task \<Rightarrow> bool" where
  "same_vouchers t t' \<longleftrightarrow>
    t_order t' = t_order t \<and> t_ceiling t' = t_ceiling t \<and> t_root t' = t_root t \<and>
    t_voucher_share t' = t_voucher_share t \<and>
    (\<forall>k. rel_option (\<lambda>n n'. n_id n' = n_id n \<and> n_parent n' = n_parent n \<and> n_allowance n' = n_allowance n)
      (hm_get (t_nodes t) k) (hm_get (t_nodes t') k))"

lemma same_vouchers_children:
  assumes "same_vouchers t t'"
  shows "children_of t' q = children_of t q"
proof -
  have "map n_id (filter (\<lambda>n. n_parent n = Some q) (List.map_filter (hm_get (t_nodes t')) ks)) =
      map n_id (filter (\<lambda>n. n_parent n = Some q) (List.map_filter (hm_get (t_nodes t)) ks))" for ks
  proof (induction ks)
    case (Cons k ks)
    have "rel_option (\<lambda>n n'. n_id n' = n_id n \<and> n_parent n' = n_parent n \<and> n_allowance n' = n_allowance n)
      (hm_get (t_nodes t) k) (hm_get (t_nodes t') k)" using assms by (simp add: same_vouchers_def)
    then show ?case
      using Cons by (cases "hm_get (t_nodes t) k"; cases "hm_get (t_nodes t') k") (simp_all add: map_filter_def)
  qed (simp add: map_filter_def)
  then show ?thesis using assms by (simp add: children_of_def same_vouchers_def)
qed

lemma same_vouchers_bind:
  assumes "same_vouchers t t'"
  shows "Option.bind (hm_get (t_nodes t') k) n_allowance = Option.bind (hm_get (t_nodes t) k) n_allowance"
proof -
  have "rel_option (\<lambda>n n'. n_id n' = n_id n \<and> n_parent n' = n_parent n \<and> n_allowance n' = n_allowance n)
      (hm_get (t_nodes t) k) (hm_get (t_nodes t') k)" using assms by (simp add: same_vouchers_def)
  then show ?thesis by (cases "hm_get (t_nodes t) k"; cases "hm_get (t_nodes t') k") simp_all
qed

lemma same_vouchers_inv:
  assumes same: "same_vouchers t t'" and wf: "task_wf t'" and inv: "voucher_inv cap t"
  shows "voucher_inv cap t'"
proof -
  have held: "held_below t' q = held_below t q" "allowance_of t' q = allowance_of t q" for q
    using same same_vouchers_bind [OF same]
    by (simp_all add: held_below_def held_def allowance_of_def same_vouchers_children [OF same] same_vouchers_def
        cong: option.case_cong)
  have "(\<exists>a. n_allowance n' = Some a \<and> unat a \<le> unat cap) \<and>
      (\<forall>p. n_parent n' = Some p \<longrightarrow> hm_contains (t_nodes t') p) \<and>
      held_below t' k \<le> unat (allowance_of t' k)" if n': "hm_get (t_nodes t') k = Some n'" for k n'
  proof -
    have rel: "rel_option (\<lambda>n n'. n_id n' = n_id n \<and> n_parent n' = n_parent n \<and> n_allowance n' = n_allowance n)
      (hm_get (t_nodes t) q) (hm_get (t_nodes t') q)" for q using same by (simp add: same_vouchers_def)
    obtain n where n: "hm_get (t_nodes t) k = Some n" "n_parent n' = n_parent n" "n_allowance n' = n_allowance n"
      using rel [of k] n' by (cases "hm_get (t_nodes t) k") auto
    have "hm_contains (t_nodes t') p = hm_contains (t_nodes t) p" for p
      using rel [of p] by (auto simp: hm_contains_def option_rel_Some1 option_rel_Some2)
    then show ?thesis using inv n by (simp add: voucher_inv_def held)
  qed
  then show ?thesis using inv wf same by (auto simp: voucher_inv_def same_vouchers_def)
qed

lemma same_vouchers_update:
  "keeps_place f \<Longrightarrow> (\<And>n. n_allowance (f n) = n_allowance n) \<Longrightarrow> same_vouchers t (update_node k f t)"
  by (auto simp: same_vouchers_def task_simps hm_simps keeps_place_def option.rel_map option.rel_refl
      intro!: option.rel_refl)

section \<open>A new node\<close>

lemma held_update: "hm_get (t_nodes t) c = Some n \<Longrightarrow> (\<And>n. n_allowance (f n) = Some a) \<Longrightarrow>
    held (update_node c f t) c' = (if c' = c then unat a else held t c')"
  by (simp add: held_def task_simps hm_simps)

lemma map_filter_append_aux:
  "List.map_filter f (xs @ ys) = List.map_filter f xs @ List.map_filter f ys"
  by (simp add: map_filter_def)

lemma children_of_ensure_new:
  assumes wf: "task_wf t" and new: "\<not> hm_contains (t_nodes t) k"
  shows "children_of (ensure k (Some p) l t) q = children_of t q @ (if q = p then [k] else [])"
proof -
  have g: "hm_get (t_nodes (ensure k (Some p) l t)) x =
      (if x = k then Some (fresh_node k (Some p) l (case hm_get (t_nodes t) p of
         Some m \<Rightarrow> sat_add (n_depth m) 1 | None \<Rightarrow> 1)) else hm_get (t_nodes t) x)" for x
    using new by (simp add: ensure_def Let_def hm_simps)
  have o: "t_order (ensure k (Some p) l t) = t_order t @ [k]"
    using new by (simp add: ensure_def Let_def)
  have "k \<notin> set (t_order t)"
    using new task_wfD(2) [OF wf] hm_get_in_keys [of "t_nodes t" k] by (simp add: hm_contains_def)
  then have "List.map_filter (hm_get (t_nodes (ensure k (Some p) l t))) (t_order t) =
      List.map_filter (hm_get (t_nodes t)) (t_order t)"
    unfolding map_filter_def by (intro arg_cong2 [where f = map] filter_cong map_cong) (auto simp: g)
  then show ?thesis
    by (simp add: children_of_def o map_filter_append_aux g)
qed

lemma voucher_inv_wf: "voucher_inv cap t \<Longrightarrow> task_wf t"
  by (simp add: voucher_inv_def)

lemma voucher_inv_node:
  assumes "voucher_inv cap t" "hm_contains (t_nodes t) k"
  obtains n a where "hm_get (t_nodes t) k = Some n" "n_allowance n = Some a" "unat a \<le> unat cap"
    "allowance_of t k = a" "held_below t k \<le> unat a"
proof -
  obtain n where n: "hm_get (t_nodes t) k = Some n" using assms(2) by (auto simp: hm_contains_def)
  with assms(1) obtain a where a: "n_allowance n = Some a" "unat a \<le> unat cap"
    "held_below t k \<le> unat (allowance_of t k)" unfolding voucher_inv_def by blast
  have "allowance_of t k = a" using n a(1) by (simp add: allowance_of_def)
  with n a that show ?thesis by simp
qed

lemma children_of_update_node:
  assumes "keeps_place f"
  shows "children_of (update_node k f t) q = children_of t q"
proof -
  have "map n_id (filter (\<lambda>n. n_parent n = Some q) (List.map_filter (hm_get (hm_modify k f (t_nodes t))) ks)) =
      map n_id (filter (\<lambda>n. n_parent n = Some q) (List.map_filter (hm_get (t_nodes t)) ks))" for ks
  proof (induction ks)
    case (Cons x ks)
    then show ?case
      using assms by (cases "hm_get (t_nodes t) x"; cases "x = k") (simp_all add: map_filter_def hm_simps keeps_place_def)
  qed (simp add: map_filter_def)
  then show ?thesis by (simp add: children_of_def task_simps)
qed

lemma held_below_words:
  assumes "held_below t p < 2 ^ 64"
  shows "unat (\<Sum>a\<leftarrow>List.map_filter (\<lambda>c. Option.bind (hm_get (t_nodes t) c) n_allowance) (children_of t p). a) =
    held_below t p"
proof -
  have e: "(\<Sum>a\<leftarrow>List.map_filter (\<lambda>c. Option.bind (hm_get (t_nodes t) c) n_allowance) cs. unat a) =
      (\<Sum>c\<leftarrow>cs. held t c)" for cs
    by (induction cs) (simp_all add: map_filter_def held_def split: option.split)
  then show ?thesis
    using unat_sum_list_bound [of "\<lambda>a. a" "List.map_filter (\<lambda>c. Option.bind (hm_get (t_nodes t) c) n_allowance)
      (children_of t p)"] assms
    by (simp add: held_below_def)
qed

lemma begin_new_inv:
  assumes inv: "voucher_inv cap t" and cap: "unat cap < 2 ^ 53"
    and new: "\<not> hm_contains (t_nodes t) (nr_node nd)"
    and par: "nr_parent nd = Some p" "p \<noteq> nr_node nd" "hm_contains (t_nodes t) p"
    and nr: "\<not> is_root nd"
  shows "voucher_inv cap (mint_voucher nd (ensure (nr_node nd) (nr_parent nd) l t))"
proof -
  let ?k = "nr_node nd"
  let ?t1 = "ensure ?k (Some p) l t"
  obtain s where s: "t_voucher_share t = Some s" "is_share s" using inv by (auto simp: voucher_inv_def)
  have wf: "task_wf t" using inv by (simp add: voucher_inv_def)
  define d where "d = (case hm_get (t_nodes t) p of Some m \<Rightarrow> sat_add (n_depth m) 1 | None \<Rightarrow> 1)"
  have g: "hm_get (t_nodes ?t1) x =
      (if x = ?k then Some (fresh_node ?k (Some p) l d) else hm_get (t_nodes t) x)" for x
    using new by (simp add: ensure_def Let_def hm_simps d_def)
  have ch: "children_of ?t1 q = children_of t q @ (if q = p then [?k] else [])" for q
    by (rule children_of_ensure_new [OF wf new])
  have node_p: "\<And>c n q. hm_get (t_nodes t) c = Some n \<Longrightarrow> n_parent n = Some q \<Longrightarrow> q \<noteq> ?k"
    using inv new by (auto simp: voucher_inv_def)
  have in_t: "\<exists>n. hm_get (t_nodes t) c = Some n \<and> n_parent n = Some q" if "c \<in> set (children_of t q)" for c q
    using that child_iff [OF wf, of q c] by (simp add: child_def)
  then have not_k: "?k \<notin> set (children_of t q)" for q
    using new by (fastforce simp: hm_contains_def)
  have none: "children_of t ?k = []"
  proof (rule ccontr)
    assume "children_of t ?k \<noteq> []"
    then obtain c where "c \<in> set (children_of t ?k)" by (cases "children_of t ?k") auto
    then show False using in_t node_p by blast
  qed
  have allow: "allowance_of ?t1 q = allowance_of t q" if "q \<noteq> ?k" for q
    using that by (simp add: allowance_of_def g task_simps cong: option.case_cong)
  have below: "held_below t p \<le> unat (allowance_of t p)" "unat (allowance_of t p) \<le> unat cap"
    using voucher_inv_node [OF inv par(3)] by metis+
  define minted where "minted = (\<Sum>a\<leftarrow>List.map_filter (\<lambda>c. Option.bind (hm_get (t_nodes t) c) n_allowance)
      (children_of t p). a)"
  define allot where "allot = f64_scale_floor (sat_sub (allowance_of t p) minted) s"
  have minted: "unat minted = held_below t p"
    unfolding minted_def using below cap by (intro held_below_words) simp
  have "unat (sat_sub (allowance_of t p) minted) < 2 ^ 53"
    using below cap by (simp add: sat_simps)
  from f64_scale_floor_le [OF this s(2)]
  have allot: "unat allot + held_below t p \<le> unat (allowance_of t p)"
    using below by (simp add: allot_def sat_simps minted)
  have fl: "filter (\<lambda>c. c \<noteq> ?k) (children_of ?t1 p) = children_of t p"
    using not_k [of p] by (auto simp: ch filter_id_conv)
  have "List.map_filter (\<lambda>c. Option.bind (hm_get (t_nodes ?t1) c) n_allowance) (children_of t p) =
      List.map_filter (\<lambda>c. Option.bind (hm_get (t_nodes t) c) n_allowance) (children_of t p)"
    using not_k [of p] unfolding map_filter_def by (intro arg_cong2 [where f = map] filter_cong map_cong) (auto simp: g)
  then have mint: "mint_voucher nd ?t1 = update_node ?k (\<lambda>n. n\<lparr>n_allowance := Some allot\<rparr>) ?t1"
    using nr par s(1)
    by (simp add: mint_voucher_def task_simps g Let_def fl allow allot_def minted_def)
  let ?t2 = "mint_voucher nd ?t1"
  have g2: "hm_get (t_nodes ?t2) x =
      (if x = ?k then Some ((fresh_node ?k (Some p) l d)\<lparr>n_allowance := Some allot\<rparr>) else hm_get (t_nodes t) x)" for x
    by (simp add: mint task_simps hm_simps g)
  have ch2: "children_of ?t2 q = children_of t q @ (if q = p then [?k] else [])" for q
    unfolding mint by (subst children_of_update_node) (simp_all add: keeps_place_def ch)
  have held2: "(\<Sum>c\<leftarrow>children_of t q. held ?t2 c) = held_below t q" for q
    unfolding held_below_def using not_k [of q]
    by (intro arg_cong [where f = sum_list] map_cong) (auto simp: held_def g2)
  have below2: "held_below ?t2 q = held_below t q + (if q = p then unat allot else 0)" for q
    by (simp add: held_below_def [of ?t2] ch2 held2) (simp add: held_def g2)
  have allow2: "allowance_of ?t2 q = (if q = ?k then allot else allowance_of t q)" for q
    by (simp add: allowance_of_def g2 task_simps cong: option.case_cong)
  have "(\<exists>a. n_allowance m = Some a \<and> unat a \<le> unat cap) \<and>
      (\<forall>r. n_parent m = Some r \<longrightarrow> hm_contains (t_nodes ?t2) r) \<and>
      held_below ?t2 q \<le> unat (allowance_of ?t2 q)" if m: "hm_get (t_nodes ?t2) q = Some m" for q m
  proof (cases "q = ?k")
    case True
    have "held_below t ?k = 0" by (simp add: held_below_def none)
    then show ?thesis
      using True m allot below par by (auto simp: g2 below2 allow2 hm_contains_def)
  next
    case False
    with m have "hm_get (t_nodes t) q = Some m" by (simp add: g2)
    then show ?thesis
      using False inv allot by (auto simp: voucher_inv_def below2 allow2 hm_contains_def g2)
  qed
  moreover have "task_wf ?t2" by (intro wf_mint_voucher wf_ensure wf)
  ultimately show ?thesis
    using inv par(1) by (simp add: voucher_inv_def task_simps)
qed

lemma mint_known:
  assumes "voucher_inv cap t" "hm_contains (t_nodes t) (nr_node nd)"
  shows "mint_voucher nd t = t"
proof -
  obtain n a where "hm_get (t_nodes t) (nr_node nd) = Some n" "n_allowance n = Some a"
    using voucher_inv_node [OF assms] by blast
  then show ?thesis by (simp add: mint_voucher_def split: option.split)
qed

lemma same_vouchers_refl: "same_vouchers t t"
  by (simp add: same_vouchers_def option.rel_refl)

lemma ensure_known:
  assumes "hm_contains (t_nodes t) k"
  shows "same_vouchers t (ensure k p l t)"
proof (cases l)
  case None
  then show ?thesis using assms by (simp add: ensure_def same_vouchers_refl)
next
  case (Some x)
  have "same_vouchers t (update_node k
      (\<lambda>n. n\<lparr>n_label := (case n_label n of Some k \<Rightarrow> Some k | None \<Rightarrow> Some x)\<rparr>) t)"
    by (rule same_vouchers_update) (simp_all add: keeps_place_def)
  then show ?thesis using assms Some by (simp add: ensure_def)
qed

lemma same_vouchers_nodes:
  "t_nodes t' = t_nodes t \<Longrightarrow> t_order t' = t_order t \<Longrightarrow> t_ceiling t' = t_ceiling t \<Longrightarrow> t_root t' = t_root t \<Longrightarrow>
    t_voucher_share t' = t_voucher_share t \<Longrightarrow> same_vouchers t t'"
  by (simp add: same_vouchers_def option.rel_refl)

lemma admit_at_same_vouchers: "same_vouchers t (fst (admit_at nd rates t))"
proof -
  have "same_vouchers t (fst (admit rates t))"
    by (rule same_vouchers_nodes) (simp_all add: admit_def Let_def split: option.split)
  moreover have "same_vouchers t (update_node (nr_node nd) (\<lambda>n. n\<lparr>n_sealed := True\<rparr>) t)"
    by (rule same_vouchers_update) (simp_all add: keeps_place_def)
  ultimately show ?thesis
    using admit_at_cases [of nd rates t] same_vouchers_refl by (elim disjE conjE) simp_all
qed

lemma begin_inv:
  assumes inv: "voucher_inv cap t" and cap: "unat cap < 2 ^ 53" and nd: "known_ref t nd"
  shows "voucher_inv cap (begin_request nd l t)"
proof -
  let ?t1 = "ensure (nr_node nd) (nr_parent nd) l t"
  have "voucher_inv cap (mint_voucher nd ?t1)"
  proof (cases "hm_contains (t_nodes t) (nr_node nd)")
    case True
    have "voucher_inv cap ?t1"
      by (rule same_vouchers_inv [OF ensure_known [OF True] wf_ensure [OF voucher_inv_wf [OF inv]] inv])
    moreover have "hm_contains (t_nodes ?t1) (nr_node nd)" using ensure_get by (simp add: hm_contains_def)
    ultimately show ?thesis using mint_known by simp
  next
    case False
    have "hm_contains (t_nodes t) (t_root t)"
      using task_wfD(4) [OF voucher_inv_wf [OF inv]] by (auto simp: hm_contains_def)
    then have "\<not> is_root nd" using False nd by (auto simp: known_ref_def is_root_def)
    then show ?thesis using begin_new_inv [OF inv cap False] nd by (auto simp: known_ref_def)
  qed
  moreover have "same_vouchers (mint_voucher nd ?t1) (begin_request nd l t)"
    by (rule same_vouchers_nodes) (simp_all add: begin_request_def Let_def)
  ultimately show ?thesis
    using same_vouchers_inv wf_begin_request [OF voucher_inv_wf [OF inv]] by blast
qed

lemma finish_inv:
  assumes inv: "voucher_inv cap t" and k: "hm_contains (t_nodes t) (nr_node nd)"
  shows "voucher_inv cap (finish_request nd u ok t)"
proof -
  let ?f = "\<lambda>n. n\<lparr>n_usage := usage_merge (n_usage n) u, n_requests := n_requests n + 1,
      n_incomplete := (if ok then n_incomplete n else n_incomplete n + 1)\<rparr>"
  have "ensure (nr_node nd) (nr_parent nd) None t = t" using k by (simp add: ensure_def)
  then have "finish_request nd u ok t = (update_node (nr_node nd) ?f t)\<lparr>t_live := sat_sub (t_live t) 1\<rparr>"
    by (simp add: finish_request_def Let_def task_simps)
  then have "same_vouchers (update_node (nr_node nd) ?f t) (finish_request nd u ok t)"
    by (simp add: same_vouchers_nodes)
  moreover have "same_vouchers t (update_node (nr_node nd) ?f t)"
    by (rule same_vouchers_update) (simp_all add: keeps_place_def)
  then have "voucher_inv cap (update_node (nr_node nd) ?f t)"
    using same_vouchers_inv wf_update_node voucher_inv_wf [OF inv] inv by (simp add: keeps_place_def)
  ultimately show ?thesis
    using same_vouchers_inv wf_finish_request [OF voucher_inv_wf [OF inv]] by blast
qed

lemma new_task_inv: "voucher_inv cap (new_task (Some cap) (Some share) r)"
  by (auto simp: voucher_inv_def wf_new_task task_simps is_share_clamp hm_contains_def held_below_def children_of_def
      map_filter_def split: if_splits)

lemma voucher_run_inv: "voucher_run cap share t \<Longrightarrow> unat cap < 2 ^ 53 \<Longrightarrow> voucher_inv cap t"
proof (induction rule: voucher_run.induct)
  case (asked t nd rates)
  then show ?case
    using same_vouchers_inv [OF admit_at_same_vouchers admit_at_wf] voucher_inv_wf by blast
next
  case (stopped t)
  have "same_vouchers t (fst (take_stop t))"
    by (rule same_vouchers_nodes) (simp_all add: take_stop_def)
  moreover have "task_wf (fst (take_stop t))"
    using voucher_inv_wf [OF stopped.IH [OF stopped.prems]] by (simp add: take_stop_def task_wf_def)
  ultimately show ?case using same_vouchers_inv stopped by blast
qed (simp_all add: new_task_inv begin_inv finish_inv)

text \<open>
  C16. Vouchers cannot exceed their parent: under a ceiling below \<open>2 ^ 53\<close> micro-dollars, the whole numbers
  an \<open>f64\<close> holds exactly (nine thousand million dollars), in every run in which requests name a parent
  the task has already seen, the allowances of the children of any node add up to at most the node's own
  allowance, and no node holds more than the ceiling. Above it a voucher may round past its parent.
\<close>

theorem vouchers_within_parent:
  assumes "voucher_run cap share t" "unat cap < 2 ^ 53" "hm_contains (t_nodes t) p"
  shows "(\<Sum>c\<leftarrow>children_of t p. held t c) \<le> unat (allowance_of t p) \<and> held t p \<le> unat cap"
proof -
  obtain n a where "hm_get (t_nodes t) p = Some n" "n_allowance n = Some a" "unat a \<le> unat cap"
    "allowance_of t p = a" "held_below t p \<le> unat a"
    using voucher_inv_node [OF voucher_run_inv [OF assms(1,2)] assms(3)] by blast
  then show ?thesis by (simp add: held_below_def held_def)
qed

theorem vouchers_within_parent_witness:
  "let t = begin_request (declared_ref ''r'' (Some ''a'') None) None (new_task (Some 100) (Some (Fin 1)) ''r'')
   in (\<Sum>c\<leftarrow>children_of t ''r''. held t c) \<le> unat (allowance_of t ''r'')"
proof -
  let ?t = "new_task (Some 100) (Some (Fin 1)) ''r''"
  have "voucher_run 100 (Fin 1) (begin_request (declared_ref ''r'' (Some ''a'') None) None ?t)"
    by (intro voucher_run.intros)
      (simp add: known_ref_def declared_ref_def task_simps hm_contains_def is_root_def)
  moreover have "hm_contains (t_nodes (begin_request (declared_ref ''r'' (Some ''a'') None) None ?t)) ''r''"
    using task_wfD(4) [OF wf_begin_request [OF wf_new_task], of "declared_ref ''r'' (Some ''a'') None" None "Some 100" "Some (Fin 1)" "''r''"]
    by (auto simp: hm_contains_def task_simps)
  ultimately show ?thesis
    using vouchers_within_parent [of 100 "Fin 1" "begin_request (declared_ref ''r'' (Some ''a'') None) None ?t" "''r''"]
    by (simp add: Let_def)
qed

lemma map_filter_Nil: "List.map_filter f [] = []"
  by (simp add: map_filter_def)

lemma orphan_mint:
  assumes wf: "task_wf t" and t: "t_ceiling t = Some cap" "t_voucher_share t = Some s"
    and new: "\<not> hm_contains (t_nodes t) (nr_node nd)" and nr: "\<not> is_root nd"
    and par: "nr_parent nd = Some x" "x \<noteq> nr_node nd" "\<not> hm_contains (t_nodes t) x" "children_of t x = []"
  shows "held (begin_request nd l t) k = (if k = nr_node nd then unat (f64_scale_floor cap s) else held t k)"
    and "children_of (begin_request nd l t) y = children_of t y @ (if y = x then [nr_node nd] else [])"
    and "hm_contains (t_nodes (begin_request nd l t)) k \<longleftrightarrow> k = nr_node nd \<or> hm_contains (t_nodes t) k"
proof -
  let ?k = "nr_node nd"
  let ?t1 = "ensure ?k (Some x) l t"
  have g: "hm_get (t_nodes ?t1) z = (if z = ?k then Some (fresh_node ?k (Some x) l 1) else hm_get (t_nodes t) z)" for z
    using new par(3) by (simp add: ensure_def Let_def hm_simps hm_contains_def)
  have ch: "children_of ?t1 q = children_of t q @ (if q = x then [?k] else [])" for q
    by (rule children_of_ensure_new [OF wf new])
  have al: "allowance_of ?t1 x = cap"
    using par(2,3) t by (simp add: allowance_of_def g hm_contains_def task_simps)
  have fl: "filter (\<lambda>c. c \<noteq> ?k) (children_of ?t1 x) = []" by (simp add: ch par(4))
  have sh: "t_voucher_share ?t1 = Some s" using t(2) by (simp add: ensure_simps)
  have nb: "Option.bind (hm_get (t_nodes ?t1) ?k) n_allowance = None" by (simp add: g)
  have m: "mint_voucher nd ?t1 = update_node ?k (\<lambda>n. n\<lparr>n_allowance := Some (f64_scale_floor cap s)\<rparr>) ?t1"
    by (simp add: mint_voucher_def sh nr par(1) nb fl al map_filter_Nil)
  have b: "t_nodes (begin_request nd l t) = t_nodes (mint_voucher nd ?t1)"
      "children_of (begin_request nd l t) y = children_of (mint_voucher nd ?t1) y"
    using par(1) by (simp_all add: begin_request_def Let_def children_of_def)
  show "held (begin_request nd l t) k = (if k = ?k then unat (f64_scale_floor cap s) else held t k)"
    by (simp add: held_def b(1) m task_simps hm_simps g)
  show "children_of (begin_request nd l t) y = children_of t y @ (if y = x then [?k] else [])"
    unfolding b(2) m by (subst children_of_update_node) (simp_all add: keeps_place_def ch)
  show "hm_contains (t_nodes (begin_request nd l t)) k \<longleftrightarrow> k = ?k \<or> hm_contains (t_nodes t) k"
    by (simp add: hm_contains_def b(1) m task_simps hm_simps g)
qed

text \<open>The bound on the ceiling is needed: a voucher of the whole of one just above it is a micro-dollar more.\<close>

lemma scale_rounds_up: "f64_scale_floor 9007199254740995 (Fin 1) = 9007199254740996"
proof -
  have "ilog2 (9007199254740995 :: nat) = 53" "ilog2 (9007199254740996 :: nat) = 53"
    by (simp_all add: ilog2.simps)
  then have b: "binade 9007199254740995 = 53" "binade 9007199254740996 = 53" by (simp_all add: binade_def)
  have "\<lfloor>9007199254740995 / (2 :: rat)\<rfloor> = 4503599627370497" by (simp add: floor_eq_iff)
  then have "round_half_even (9007199254740995 / 2) = 4503599627370498" by (simp add: round_half_even_def)
  moreover have "round_half_even 4503599627370498 = 4503599627370498" by (simp add: round_half_even_def)
  ultimately have "fp_round_pos 53 (- 1022) 9007199254740995 = 9007199254740996"
    "fp_round_pos 53 (- 1022) 9007199254740996 = 9007199254740996"
    by (simp_all add: fp_round_pos_def fp_ulp_def b)
  then have "f64_round 9007199254740995 = Fin 9007199254740996" "f64_round 9007199254740996 = Fin 9007199254740996"
    by (simp_all add: f64_round_def fp_round_def b)
  then show ?thesis by (simp add: f64_scale_floor_def f64_of_u64_def)
qed

lemma rounding_mints_past_ceiling:
  "held (begin_request (declared_ref ''r'' (Some ''a'') None) None
      (new_task (Some 9007199254740995) (Some (Fin 1)) ''r'')) ''a'' = unat (9007199254740995 :: u64) + 1"
proof -
  let ?cap = "9007199254740995 :: u64"
  have "fp_clamp (Fin 1) (Fin 0) (Fin 1) = Fin 1" by (simp add: fp_clamp_def)
  then show ?thesis
    by (simp add: held_def scale_rounds_up begin_request_def ensure_def mint_voucher_def new_task_def task_new_def with_ceiling_micros_def
        with_voucher_share_def update_node_def declared_ref_def is_root_def fresh_node_def allowance_of_def
        children_of_def map_filter_def hm_contains_def hm_get_def hm_insert_def hm_modify_def sat_sub_def Let_def)
qed

text \<open>
  Where requests name parents the task has not seen, the arithmetic guarantee of the vouchers fails: two nodes that name parents the
  task never saw are minted the whole ceiling each, twice what the task may spend.
\<close>

lemma unseen_parents_mint_past_ceiling:
  "let a = declared_ref ''r'' (Some ''a'') (Some ''x''); b = declared_ref ''r'' (Some ''b'') (Some ''y'');
       t = begin_request b None (begin_request a None (new_task (Some 100) (Some (Fin 1)) ''r''))
   in held t ''a'' + held t ''b'' = 2 * unat (100 :: u64)"
proof -
  let ?a = "declared_ref ''r'' (Some ''a'') (Some ''x'')" and ?b = "declared_ref ''r'' (Some ''b'') (Some ''y'')"
  let ?t0 = "new_task (Some 100) (Some (Fin 1)) ''r''"
  let ?t1 = "begin_request ?a None ?t0"
  have fl: "f64_scale_floor 100 (Fin 1) = 100"
    using f64_scale_floor_exact [of 100 100 1] by simp
  have refs: "nr_node ?a = ''a''" "nr_node ?b = ''b''" "nr_parent ?a = Some ''x''" "nr_parent ?b = Some ''y''"
    "\<not> is_root ?a" "\<not> is_root ?b"
    by (simp_all add: declared_ref_def is_root_def)
  have t0: "t_ceiling ?t0 = Some 100" "t_voucher_share ?t0 = Some (Fin 1)" "\<And>k. hm_contains (t_nodes ?t0) k \<longleftrightarrow> k = ''r''"
    "\<And>x. children_of ?t0 x = []"
    by (simp_all add: task_simps fp_clamp_def hm_contains_def children_of_def map_filter_def)
  have a: "held ?t1 ''a'' = 100" "\<And>y. y \<noteq> ''x'' \<Longrightarrow> children_of ?t1 y = []"
    "\<And>k. hm_contains (t_nodes ?t1) k \<longleftrightarrow> k = ''a'' \<or> k = ''r''"
    using orphan_mint [OF wf_new_task t0(1,2), of ?a "''x''" None] fl by (simp_all add: refs t0(3,4))
  have t1: "t_ceiling ?t1 = Some 100" "t_voucher_share ?t1 = Some (Fin 1)"
    using t0(1,2) by (simp_all add: task_simps begin_request_def Let_def)
  have "held (begin_request ?b None ?t1) ''b'' = 100" "held (begin_request ?b None ?t1) ''a'' = held ?t1 ''a''"
    using orphan_mint(1) [OF wf_begin_request [OF wf_new_task] t1, of ?b "''y''" None] fl
    by (simp_all add: refs a(2,3))
  then show ?thesis using a(1) by (simp add: Let_def)
qed

section \<open>What a voucher stops\<close>

definition node_sealed :: "task \<Rightarrow> string \<Rightarrow> bool" where
  "node_sealed t k = (case hm_get (t_nodes t) k of Some n \<Rightarrow> n_sealed n | None \<Rightarrow> False)"

lemma begin_new_unsealed:
  assumes "\<not> hm_contains (t_nodes t) (nr_node nd)"
  shows "\<not> node_sealed (begin_request nd l t) (nr_node nd)"
proof -
  have "node_sealed (ensure (nr_node nd) (nr_parent nd) l t) (nr_node nd) = False"
    using assms by (simp add: node_sealed_def ensure_def Let_def hm_simps fresh_node_def)
  moreover have "node_sealed (mint_voucher nd u) k = node_sealed u k" for u k
    by (auto simp: node_sealed_def mint_voucher_def Let_def task_simps hm_simps split: option.splits)
  moreover have "node_sealed (begin_request nd l t) k =
      node_sealed (mint_voucher nd (ensure (nr_node nd) (nr_parent nd) l t)) k" for k
    by (simp add: node_sealed_def begin_request_def Let_def)
  ultimately show ?thesis by simp
qed

lemma admit_at_denies:
  assumes "t_ceiling t = Some cap"
  shows "\<not> admitted (snd (admit_at nd rates t)) \<longleftrightarrow>
    t_sealed t \<or> (spent t rates < cap \<and> node_sealed t (nr_node nd))"
  using assms by (auto simp: admit_at_def admit_def admitted_def node_sealed_def Let_def not_less split: option.splits)

text \<open>
  C17. What stops a request under a ceiling, exactly: the seal of the task, or, below the ceiling, the seal of
  the very node that asks. The seals of the nodes above it are not looked at: an agent that has used up its
  voucher goes on under any agent id the task has not seen, a subagent of its own among them, and when
  the task reaches its ceiling its own next request may be the last one let through.
\<close>

theorem admission_denies_exactly:
  assumes "t_ceiling t = Some cap"
  shows "(\<not> admitted (snd (admit_at nd rates t)) \<longleftrightarrow>
      t_sealed t \<or> (spent t rates < cap \<and> node_sealed t (nr_node nd))) \<and>
    (\<not> hm_contains (t_nodes t) (nr_node new) \<longrightarrow>
      (\<not> admitted (snd (admit_at new rates (begin_request new None t))) \<longleftrightarrow> t_sealed t))"
proof -
  have "t_ceiling (begin_request new None t) = Some cap" using assms by (simp add: task_simps)
  then show ?thesis
    using admit_at_denies [OF assms] admit_at_denies [of "begin_request new None t" cap new rates] begin_new_unsealed
    by (auto simp: task_simps)
qed

text \<open>An agent with a voucher of nothing, sealed by its first request, and the subagent it then starts.\<close>

definition spent_agent :: task where
  "spent_agent =
    (let a = declared_ref ''r'' (Some ''a'') None
     in fst (admit_at a (rate_from_base 3 15) (begin_request a None (new_task (Some 100) (Some (Fin 0)) ''r''))))"

lemma spent_agent_begun:
  "begin_request (declared_ref ''r'' (Some ''a'') None) None (new_task (Some 100) (Some (Fin 0)) ''r'') =
    \<lparr>t_root = ''r'',
     t_nodes = [(''r'', fresh_node ''r'' None None 0\<lparr>n_allowance := Some 100\<rparr>), (''a'', fresh_node ''a'' (Some ''r'') None 1\<lparr>n_allowance := Some 0\<rparr>)],
     t_order = [''r'', ''a''], t_ceiling = Some 100, t_sealed = False, t_peak = 1, t_live = 1,
     t_voucher_share = Some (Fin 0), t_synthetic_sent = False\<rparr>"
proof -
  have "f64_scale_floor 100 (Fin 0) = 0" using f64_scale_floor_exact [of 100 0 0] by simp
  then show ?thesis
    by (simp add: begin_request_def ensure_def mint_voucher_def new_task_def task_new_def with_ceiling_micros_def
        with_voucher_share_def update_node_def declared_ref_def is_root_def fresh_node_def fp_clamp_def allowance_of_def
        children_of_def map_filter_def hm_contains_def hm_get_def hm_insert_def hm_modify_def sat_sub_def Let_def)
qed

lemma spent_agent_facts:
  "t_ceiling spent_agent = Some 100" "\<not> t_sealed spent_agent" "spent spent_agent (rate_from_base 3 15) = 0"
  "node_sealed spent_agent ''a''" "\<not> hm_contains (t_nodes spent_agent) ''b''"
proof -
  let ?t = "begin_request (declared_ref ''r'' (Some ''a'') None) None (new_task (Some 100) (Some (Fin 0)) ''r'')"
  have "spent ?t (rate_from_base 3 15) = 0" 
    unfolding spent_agent_begun by (simp add: spent_def hm_values_def fresh_node_def usage_micros_def usage_default_def)
  moreover have "fst (admit_at (declared_ref ''r'' (Some ''a'') None) (rate_from_base 3 15) ?t) =
      update_node ''a'' (\<lambda>n. n\<lparr>n_sealed := True\<rparr>) ?t"
    using calculation unfolding spent_agent_begun
    by (simp add: admit_at_def admit_def allowance_of_def hm_get_def fresh_node_def declared_ref_def Let_def)
  ultimately show "t_ceiling spent_agent = Some 100" "\<not> t_sealed spent_agent" "spent spent_agent (rate_from_base 3 15) = 0"
    "node_sealed spent_agent ''a''" "\<not> hm_contains (t_nodes spent_agent) ''b''"
    unfolding spent_agent_def Let_def
    by (simp_all add: spent_update_node wf_begin_request wf_new_task)
      (simp_all add: spent_agent_begun node_sealed_def update_node_def hm_contains_def hm_get_def hm_modify_def)
qed

theorem admission_denies_exactly_witness:
  "let a = declared_ref ''r'' (Some ''a'') None; b = declared_ref ''r'' (Some ''b'') (Some ''a''); rates = rate_from_base 3 15
   in \<not> admitted (snd (admit_at a rates spent_agent)) \<and>
      admitted (snd (admit_at b rates (begin_request b None spent_agent)))"
  using admission_denies_exactly [OF spent_agent_facts(1), of "declared_ref ''r'' (Some ''a'') None" "rate_from_base 3 15"
      "declared_ref ''r'' (Some ''b'') (Some ''a'')"] spent_agent_facts(2-5)
  by (simp add: Let_def declared_ref_def)

section \<open>What a voucher bounds\<close>

text \<open>
  The gate that a request of node \<open>k\<close> meets bounds what \<open>k\<close> itself spends: over its voucher it is let
  through once as it is sealed, and once more if it is the request that seals the task.
\<close>

definition exceptions :: "string \<Rightarrow> task \<Rightarrow> nat" where
  "exceptions k t = (if node_sealed t k then 1 else 0) + (if t_sealed t then 1 else 0)"

definition holds_voucher :: "string \<Rightarrow> u64 \<Rightarrow> task \<Rightarrow> bool" where
  "holds_voucher k cap t \<longleftrightarrow> task_wf t \<and> t_ceiling t \<noteq> None \<and>
    (\<exists>n. hm_get (t_nodes t) k = Some n \<and> n_allowance n = Some cap)"

lemma node_micros_tally: "node_micros t rates k = usage_micros (fst (node_tally t k)) rates"
  by (simp add: node_micros_def node_tally_def micros_nothing split: option.split)

lemma node_sealed_cong: "t_nodes t' = t_nodes t \<Longrightarrow> node_sealed t' k = node_sealed t k"
  by (simp add: node_sealed_def)

lemma node_sealed_seal: "node_sealed t k \<Longrightarrow> node_sealed (update_node j (\<lambda>n. n\<lparr>n_sealed := True\<rparr>) t) k"
  by (auto simp: node_sealed_def task_simps hm_simps split: option.splits)

lemma admit_at_sealed:
  "node_sealed t k \<Longrightarrow> node_sealed (fst (admit_at nd rates t)) k"
  "t_sealed t \<Longrightarrow> t_sealed (fst (admit_at nd rates t))"
proof -
  note cases = admit_at_cases [of nd rates t]
  show "node_sealed t k \<Longrightarrow> node_sealed (fst (admit_at nd rates t)) k"
    using cases node_sealed_cong [OF admit_nodes] node_sealed_seal by auto
  have "t_sealed t \<Longrightarrow> t_sealed (fst (admit rates t))" by (simp add: admit_def Let_def split: option.split)
  then show "t_sealed t \<Longrightarrow> t_sealed (fst (admit_at nd rates t))" using cases by (auto simp: task_simps)
qed

lemma admit_at_exception:
  assumes "holds_voucher (nr_node nd) cap t" "cap \<le> subtree_spent t (nr_node nd) rates"
    and "admitted (snd (admit_at nd rates t))"
  shows "exceptions (nr_node nd) t < exceptions (nr_node nd) (fst (admit_at nd rates t))"
  using assms
  by (auto simp: holds_voucher_def exceptions_def admit_at_def admit_def admitted_def node_sealed_def allowance_of_def
      task_simps hm_simps Let_def split: if_splits)

interpretation voucher_gate: budget_gate "\<lambda>u::unit. admit_at nd rates"
  "\<lambda>t. unat (node_micros t rates (nr_node nd))" "exceptions (nr_node nd)" "holds_voucher (nr_node nd) cap" "unat cap" 2
proof unfold_locales
  fix t
  assume t: "holds_voucher (nr_node nd) cap t"
  show "unat cap \<le> unat (node_micros t rates (nr_node nd)) \<Longrightarrow> admitted (snd (admit_at nd rates t)) \<Longrightarrow>
      exceptions (nr_node nd) t < exceptions (nr_node nd) (fst (admit_at nd rates t))"
    using admit_at_exception [OF t] own_in_subtree [of t rates "nr_node nd"] by (simp add: word_le_nat_alt)
  show "exceptions (nr_node nd) t \<le> exceptions (nr_node nd) (fst (admit_at nd rates t))"
    using admit_at_sealed [of t] by (auto simp: exceptions_def)
  show "unat (node_micros (fst (admit_at nd rates t)) rates (nr_node nd)) = unat (node_micros t rates (nr_node nd))"
    by (simp add: node_micros_tally tally_admit)
qed (simp add: exceptions_def)

text \<open>
  Events that do not change what node \<open>k\<close> has spent or has in flight: anything that happens at other nodes,
  requests that begin, stops, and requests of \<open>k\<close> that end with nothing used.
\<close>

fun away :: "string \<Rightarrow> task_event \<Rightarrow> bool" where
  "away k (Asked nd) \<longleftrightarrow> nr_node nd \<noteq> k"
| "away k (Ended nd u ok) \<longleftrightarrow> nr_node nd \<noteq> k \<or> u = usage_default"
| "away k e \<longleftrightarrow> True"

text \<open>
  The life of a node from the moment its voucher of \<open>cap\<close> is minted: it has at most \<open>w\<close> requests in flight,
  \<open>f\<close> at the moment, and each adds at most \<open>c\<close> to its metered cost.
\<close>

inductive agent_run :: "rate_card \<Rightarrow> string \<Rightarrow> u64 \<Rightarrow> nat \<Rightarrow> nat \<Rightarrow> task \<Rightarrow> nat \<Rightarrow> bool"
  for rates k cap c w where
  minted: "holds_voucher k cap t \<Longrightarrow> fst (node_tally t k) = usage_default \<Longrightarrow> agent_run rates k cap c w t 0"
| elsewhere: "agent_run rates k cap c w t f \<Longrightarrow> away k e \<Longrightarrow> agent_run rates k cap c w (task_step rates e t) f"
| asked: "agent_run rates k cap c w t f \<Longrightarrow> nr_node nd = k \<Longrightarrow> admit_at nd rates t = (t', ad) \<Longrightarrow> f < w \<Longrightarrow>
    agent_run rates k cap c w t' (if admitted ad then f + 1 else f)"
| ended: "agent_run rates k cap c w t (f + 1) \<Longrightarrow> nr_node nd = k \<Longrightarrow>
    unat (node_micros (finish_request nd u ok t) rates k) \<le> unat (node_micros t rates k) + c \<Longrightarrow>
    agent_run rates k cap c w (finish_request nd u ok t) f"

lemma allowance_kept:
  assumes "hm_get (t_nodes t) k = Some n" "n_allowance n = Some a"
  shows "\<exists>n'. hm_get (t_nodes (task_step rates e t)) k = Some n' \<and> n_allowance n' = Some a \<and>
    (n_sealed n \<longrightarrow> n_sealed n')"
proof -
  have ensured: "\<exists>n'. hm_get (t_nodes (ensure j p l t)) k = Some n' \<and> n_allowance n' = Some a \<and> n_sealed n' = n_sealed n"
    for j p l
  proof (cases "hm_contains (t_nodes t) j")
    case True
    show ?thesis
    proof (cases l)
      case (Some l')
      then show ?thesis using assms True
        by (cases "j = k") (simp_all add: ensure_def task_simps hm_simps)
    qed (use assms True in \<open>simp add: ensure_def\<close>)
  next
    case False
    then have "j \<noteq> k" using assms by (auto simp: hm_contains_def)
    then show ?thesis using assms False by (simp add: ensure_def hm_simps Let_def)
  qed
  show ?thesis
  proof (cases e)
    case (Began nd l)
    obtain n1 where n1: "hm_get (t_nodes (ensure (nr_node nd) (nr_parent nd) l t)) k = Some n1" "n_allowance n1 = Some a"
      "n_sealed n1 = n_sealed n" using ensured by blast
    then have "hm_get (t_nodes (mint_voucher nd (ensure (nr_node nd) (nr_parent nd) l t))) k = Some n1"
      by (auto simp: mint_voucher_def task_simps hm_simps Let_def split: option.split)
    then show ?thesis using Began n1 by (simp add: begin_request_def Let_def)
  next
    case (Asked nd)
    then show ?thesis using assms admit_at_cases [of nd rates t] admit_nodes [of rates t]
      by (auto simp: task_simps hm_simps)
  next
    case Stopped
    then show ?thesis using assms by (simp add: task_simps)
  next
    case (Ended nd u ok)
    obtain n1 where n1: "hm_get (t_nodes (ensure (nr_node nd) (nr_parent nd) None t)) k = Some n1" "n_allowance n1 = Some a"
      "n_sealed n1 = n_sealed n" using ensured by blast
    then show ?thesis using Ended
      by (cases "k = nr_node nd") (simp_all add: finish_request_def task_simps hm_simps Let_def)
  qed
qed

lemma holds_voucher_step:
  assumes "holds_voucher k cap t"
  shows "holds_voucher k cap (task_step rates e t)" "exceptions k t \<le> exceptions k (task_step rates e t)"
proof -
  obtain top n where t: "task_wf t" "t_ceiling t = Some top" "hm_get (t_nodes t) k = Some n" "n_allowance n = Some cap"
    using assms by (auto simp: holds_voucher_def)
  obtain n' where n': "hm_get (t_nodes (task_step rates e t)) k = Some n'" "n_allowance n' = Some cap"
    "n_sealed n \<longrightarrow> n_sealed n'" using allowance_kept [OF t(3,4)] by blast
  have "t_ceiling (task_step rates e t) = t_ceiling t"
    by (cases e) (simp_all add: task_simps admit_at_ceiling)
  then show "holds_voucher k cap (task_step rates e t)"
    using n'(1,2) t(2) wf_task_step [OF t(1), of rates e] by (simp add: holds_voucher_def)
  have "t_sealed t \<Longrightarrow> t_sealed (task_step rates e t)"
    using run_keeps_seal [of top t rates "[e]"] t(1,2) by (simp add: capped_def)
  then show "exceptions k t \<le> exceptions k (task_step rates e t)"
    using t(3) n' by (auto simp: exceptions_def node_sealed_def)
qed

lemma away_micros: "away k e \<Longrightarrow> node_micros (task_step rates e t) rates k = node_micros t rates k"
  by (cases e) (auto simp: node_micros_tally task_simps tally_add_def usage_merge_plus usage_default_zero split: prod.split)

lemma admit_at_node: "nr_node a = nr_node b \<Longrightarrow> admit_at a rates t = admit_at b rates t"
  unfolding admit_at_def by (erule arg_cong)

lemma agent_run_in_budget:
  assumes "agent_run rates (nr_node me) cap c w t f"
  shows "holds_voucher (nr_node me) cap t \<and> voucher_gate.in_budget rates me cap c w t f"
  using assms
proof (induction rule: agent_run.induct)
  case (minted t)
  have "node_micros t rates (nr_node me) = 0" using minted.hyps by (simp add: node_micros_tally micros_nothing)
  then show ?case using minted.hyps by (simp add: voucher_gate.in_budget_def)
next
  case (elsewhere t f e)
  then have "voucher_gate.in_budget rates me cap c w (task_step rates e t) f"
    using voucher_gate.in_budget_idle [of rates me cap c w t f "task_step rates e t"]
      holds_voucher_step(2) [of "nr_node me" cap t rates e] by (simp add: away_micros)
  then show ?case using elsewhere holds_voucher_step(1) by blast
next
  case (asked t f nd t' ad)
  have eq: "admit_at me rates t = admit_at nd rates t" by (rule admit_at_node) (use asked.hyps in simp)
  have "holds_voucher (nr_node me) cap t'"
    using holds_voucher_step(1) [of "nr_node me" cap t rates "Asked nd"] asked by simp
  then show ?case
    using voucher_gate.in_budget_ask [where nd = me and rates = rates, OF conjunct1 [OF asked.IH] conjunct2 [OF asked.IH]]
      asked.hyps eq by simp
next
  case (ended t f nd u ok)
  have step: "holds_voucher (nr_node me) cap (finish_request nd u ok t)"
    "exceptions (nr_node me) t \<le> exceptions (nr_node me) (finish_request nd u ok t)"
    using holds_voucher_step [of "nr_node me" cap t rates "Ended nd u ok"] ended by simp_all
  then show ?case using voucher_gate.in_budget_settle ended by blast
qed

text \<open>
  C15. A voucher bounds what its agent spends: from the moment it is minted, in every interleaving of the
  requests of all nodes, a node that has at most \<open>w\<close> requests in flight, each costing at most \<open>c\<close>
  micro-dollars as metered, spends itself at most its voucher and \<open>w + 2\<close> requests: those in flight, the
  one that seals the node, and the one that seals the task.
\<close>

theorem voucher_bounds_its_agent:
  assumes "agent_run rates k cap c w t f"
  shows "unat (node_micros t rates k) \<le> unat cap - 1 + (w + 2) * c"
proof -
  let ?me = "declared_ref k None None"
  have "nr_node ?me = k" by (simp add: declared_ref_def)
  then have "voucher_gate.in_budget rates ?me cap c w t f"
    using agent_run_in_budget [of rates ?me cap c w t f] assms by simp
  then show ?thesis
    using voucher_gate.in_budget_bound [of rates ?me cap c w t f] \<open>nr_node ?me = k\<close> by simp
qed

text \<open>The agent with a voucher of nothing spends one request of 60.\<close>

theorem voucher_bounds_its_agent_witness:
  "let a = declared_ref ''r'' (Some ''a'') None; rates = rate_from_base 1000000 0;
       t = finish_request a sixty True (fst (admit_at a rates (begin_request a None (new_task (Some 100) (Some (Fin 0)) ''r''))))
   in agent_run rates ''a'' 0 60 1 t 0 \<and> unat (node_micros t rates ''a'') = 60 \<and> unat (node_micros t rates ''a'') \<le> 0 - 1 + 3 * 60"
proof -
  let ?a = "declared_ref ''r'' (Some ''a'') None" and ?r = "rate_from_base 1000000 0"
  let ?began = "begin_request ?a None (new_task (Some 100) (Some (Fin 0)) ''r'')"
  let ?asked = "fst (admit_at ?a ?r ?began)"
  let ?done = "finish_request ?a sixty True ?asked"
  have node: "nr_node ?a = ''a''" by (simp add: declared_ref_def)
  have "holds_voucher ''a'' 0 ?began"
    unfolding holds_voucher_def
  proof (intro conjI)
    show "task_wf ?began" by (rule wf_begin_request [OF wf_new_task])
  qed (simp_all add: spent_agent_begun hm_get_def)
  moreover have tally: "node_tally ?began ''a'' = (usage_default, 0, 0)" by (simp add: tally_begin new_task_tally)
  ultimately have r0: "agent_run ?r ''a'' 0 60 1 ?began 0" by (simp add: agent_run.minted)
  have "spent ?began ?r = 0"
    unfolding spent_agent_begun by (simp add: spent_def hm_values_def fresh_node_def usage_micros_def usage_default_def)
  then have last: "snd (admit_at ?a ?r ?began) = Last"
    unfolding spent_agent_begun by (simp add: admit_at_def admit_def allowance_of_def hm_get_def fresh_node_def declared_ref_def Let_def)
  have r1: "agent_run ?r ''a'' 0 60 1 ?asked 1"
    using agent_run.asked [OF r0 node prod.collapse [symmetric]] last by (simp add: admitted_def)
  have micros: "unat (node_micros ?asked ?r ''a'') = 0" "unat (node_micros ?done ?r ''a'') = 60"
    using tally by (simp_all add: node_micros_tally tally_finish tally_admit node tally_add_def micros_nothing)
      (simp add: usage_micros_def usage_merge_def usage_default_def sixty_def rate_from_base_def)
  have "agent_run ?r ''a'' 0 60 1 ?done 0"
    by (rule agent_run.ended [OF _ node]) (use r1 micros in simp_all)
  then show ?thesis
    using voucher_bounds_its_agent [of ?r "''a''" 0 60 1 ?done 0] micros(2) by (simp add: Let_def)
qed

end
