(* ===== verification/Tree_Arena.thy ===== *)
theory Tree_Arena
  imports Tree_Admit
begin

text \<open>
  All live tasks (\<open>crates/tailfin-tree/src/lib.rs\<close>: \<open>Arena\<close>). \<open>task_mut\<close> hands out a mutable
  reference to the task of a root, created on first use; here a use of it is the function applied
  through the reference.
\<close>

record arena =
  ar_tasks :: "(string, task) hmap"
  ar_default_ceiling :: "u64 option"
  ar_voucher_share :: "fp option"

definition arena_new :: arena where
  "arena_new = \<lparr>ar_tasks = [], ar_default_ceiling = None, ar_voucher_share = None\<rparr>"

definition with_default_ceiling_micros :: "u64 \<Rightarrow> arena \<Rightarrow> arena" where
  "with_default_ceiling_micros m a = a\<lparr>ar_default_ceiling := Some m\<rparr>"

definition arena_with_voucher_share :: "fp \<Rightarrow> arena \<Rightarrow> arena" where
  "arena_with_voucher_share share a = a\<lparr>ar_voucher_share := Some (fp_clamp share (Fin 0) (Fin 1))\<rparr>"

definition arena_get :: "arena \<Rightarrow> string \<Rightarrow> task option" where
  "arena_get a r = hm_get (ar_tasks a) r"

definition arena_task :: "arena \<Rightarrow> string \<Rightarrow> task" where
  "arena_task a r =
    (case arena_get a r of Some t \<Rightarrow> t | None \<Rightarrow> new_task (ar_default_ceiling a) (ar_voucher_share a) r)"

definition task_mut :: "string \<Rightarrow> (task \<Rightarrow> task \<times> 'b) \<Rightarrow> arena \<Rightarrow> arena \<times> 'b" where
  "task_mut r f a =
    (let (t, x) = f (arena_task a r) in (a\<lparr>ar_tasks := hm_insert r t (ar_tasks a)\<rparr>, x))"

definition arena_len :: "arena \<Rightarrow> nat" where
  "arena_len a = length (ar_tasks a)"

definition arena_is_empty :: "arena \<Rightarrow> bool" where
  "arena_is_empty a \<longleftrightarrow> ar_tasks a = []"

definition arena_roots :: "arena \<Rightarrow> task list" where
  "arena_roots a = hm_values (ar_tasks a)"

section \<open>Tasks do not interfere\<close>

lemma arena_get_new [simp]: "arena_get arena_new r = None"
  by (simp add: arena_get_def arena_new_def)

lemma task_mut_get [task_simps]:
  "arena_get (fst (task_mut r f a)) r' = (if r' = r then Some (fst (f (arena_task a r))) else arena_get a r')"
  by (simp add: task_mut_def arena_get_def hm_simps split: prod.split)

lemma task_mut_config [task_simps]:
  "ar_default_ceiling (fst (task_mut r f a)) = ar_default_ceiling a"
  "ar_voucher_share (fst (task_mut r f a)) = ar_voucher_share a"
  by (simp_all add: task_mut_def split: prod.split)

lemma task_mut_snd: "snd (task_mut r f a) = snd (f (arena_task a r))"
  by (simp add: task_mut_def split: prod.split)

definition arena_wf :: "arena \<Rightarrow> bool" where
  "arena_wf a \<longleftrightarrow> hm_wf (ar_tasks a) \<and>
    (\<forall>r t. arena_get a r = Some t \<longrightarrow> task_wf t \<and> t_root t = r)"

lemma arena_wf_new: "arena_wf arena_new"
  by (simp add: arena_wf_def) (simp add: arena_new_def hm_wf_def hm_keys_def)

lemma arena_task_wf: "arena_wf a \<Longrightarrow> task_wf (arena_task a r) \<and> t_root (arena_task a r) = r"
  by (auto simp: arena_wf_def arena_task_def wf_new_task task_simps split: option.split)

lemma arena_wf_task_mut:
  assumes "arena_wf a" "task_wf (fst (f (arena_task a r)))" "t_root (fst (f (arena_task a r))) = r"
  shows "arena_wf (fst (task_mut r f a))"
  using assms
  by (auto simp: arena_wf_def task_simps) (auto simp: task_mut_def hm_wf_insert split: prod.split)

end
