(* ===== verification/Ledger_Record.thy ===== *)
theory Ledger_Record
  imports Tree_Arena Tree_Tally
begin

text \<open>
  The ledger (\<open>crates/tailfin-ledger/src/lib.rs\<close>): one record per finished request, the JSONL file
  as a byte string, and the fold of records back into tasks. Serde's JSON for a record is the pair
  \<open>to_str\<close>, \<open>from_str\<close> of parameters; the clock is a parameter too. The file system is taken to
  succeed: what fails is serialisation, a line that is not UTF-8, or a line that is not a record.
\<close>

section \<open>Records\<close>

definition SCHEMA_VERSION :: u32 where
  "SCHEMA_VERSION = 1"

record ledger_record =
  lr_schema_version :: u32
  lr_task_id :: string
  lr_node :: string
  lr_parent :: "string option"
  lr_confidence :: fp
  lr_incomplete :: bool
  lr_input :: u64
  lr_output :: u64
  lr_cache_write_5m :: u64
  lr_cache_write_1h :: u64
  lr_cache_read :: u64
  lr_reasoning :: u64
  lr_peak :: u32
  lr_ts :: u64
  lr_capture_id :: "string option"

definition from_finish :: "node_ref \<Rightarrow> usage \<Rightarrow> bool \<Rightarrow> u32 \<Rightarrow> u64 \<Rightarrow> ledger_record" where
  "from_finish nd u incomplete peak now =
    \<lparr>lr_schema_version = SCHEMA_VERSION, lr_task_id = nr_root nd, lr_node = nr_node nd,
     lr_parent = nr_parent nd, lr_confidence = confidence (nr_source nd), lr_incomplete = incomplete,
     lr_input = u_input u, lr_output = u_output u, lr_cache_write_5m = u_cache_write_5m u,
     lr_cache_write_1h = u_cache_write_1h u, lr_cache_read = u_cache_read u,
     lr_reasoning = u_reasoning u, lr_peak = peak, lr_ts = now, lr_capture_id = None\<rparr>"

definition with_capture_id :: "string \<Rightarrow> ledger_record \<Rightarrow> ledger_record" where
  "with_capture_id cid r = r\<lparr>lr_capture_id := Some cid\<rparr>"

definition record_usage :: "ledger_record \<Rightarrow> usage" where
  "record_usage r =
    \<lparr>u_input = lr_input r, u_output = lr_output r, u_cache_write_5m = lr_cache_write_5m r,
     u_cache_write_1h = lr_cache_write_1h r, u_cache_read = lr_cache_read r,
     u_reasoning = lr_reasoning r\<rparr>"

section \<open>The file\<close>

datatype ledger_error = LedgerIo | LedgerJson

definition ledger_append ::
  "(ledger_record \<Rightarrow> string option) \<Rightarrow> ledger_record \<Rightarrow> string \<Rightarrow> ledger_error + string" where
  "ledger_append to_str r file =
    (case to_str r of None \<Rightarrow> Inl LedgerJson | Some line \<Rightarrow> Inr (file @ line @ [CHR 0x0A]))"

text \<open>\<open>BufRead::lines\<close>: a terminated line loses \<open>\n\<close> or \<open>\r\n\<close>, an empty rest is no line.\<close>

definition buf_lines :: "string \<Rightarrow> string list" where
  "buf_lines s =
    (let ps = split_on (CHR 0x0A) s
     in map (\<lambda>l. if l \<noteq> [] \<and> last l = CHR 0x0D then butlast l else l) (butlast ps) @
        (if last ps = [] then [] else [last ps]))"

fun prepend :: "'a list \<Rightarrow> 'e + 'a list \<Rightarrow> 'e + 'a list" where
  "prepend xs (Inl e) = Inl e"
| "prepend xs (Inr ys) = Inr (xs @ ys)"

lemma prepend_Nil [simp]: "prepend [] y = y"
  by (cases y) simp_all

lemma prepend_prepend [simp]: "prepend a (prepend b y) = prepend (a @ b) y"
  by (cases y) simp_all

fun read_lines :: "(string \<Rightarrow> ledger_record option) \<Rightarrow> string list \<Rightarrow> ledger_error + ledger_record list" where
  "read_lines from_str [] = Inr []"
| "read_lines from_str (line # ls) =
    (if \<not> utf8_valid line then Inl LedgerIo
     else if trim line = [] then read_lines from_str ls
     else case from_str line of
       None \<Rightarrow> Inl LedgerJson
     | Some r \<Rightarrow> prepend [r] (read_lines from_str ls))"

text \<open>\<open>None\<close> is a file that does not exist.\<close>

text \<open>Opening for appending keeps what the file holds, and creates it when there is none.\<close>

definition ledger_open :: "string option \<Rightarrow> string" where
  "ledger_open file = (case file of Some s \<Rightarrow> s | None \<Rightarrow> [])"

definition read_all ::
  "(string \<Rightarrow> ledger_record option) \<Rightarrow> string option \<Rightarrow> ledger_error + ledger_record list" where
  "read_all from_str file =
    (case file of None \<Rightarrow> Inr [] | Some s \<Rightarrow> read_lines from_str (buf_lines s))"

section \<open>Folding records into tasks\<close>

definition record_ref :: "ledger_record \<Rightarrow> node_ref" where
  "record_ref r =
    \<lparr>nr_root = lr_task_id r, nr_node = lr_node r, nr_parent = lr_parent r,
     nr_source = Declared (lr_task_id r) (Some (lr_node r)) (lr_parent r)\<rparr>"

definition fold_record :: "ledger_record \<Rightarrow> arena \<Rightarrow> arena" where
  "fold_record r a =
    fst (task_mut (lr_task_id r)
      (\<lambda>t. (finish_request (record_ref r) (record_usage r) (\<not> lr_incomplete r)
              (begin_request (record_ref r) None t), ())) a)"

definition tasks_from_records :: "ledger_record list \<Rightarrow> task list" where
  "tasks_from_records rs =
    sort_by (\<lambda>a b. \<not> bytes_less (t_root b) (t_root a)) (arena_roots (fold fold_record rs arena_new))"

definition peak_for_task :: "ledger_record list \<Rightarrow> string \<Rightarrow> u32" where
  "peak_for_task rs r = fold max (map lr_peak (filter (\<lambda>x. lr_task_id x = r) rs)) 0"

section \<open>What the file keeps\<close>

text \<open>What the ledger relies on of serde's JSON for a record.\<close>

definition json_line :: "(ledger_record \<Rightarrow> string option) \<Rightarrow> (string \<Rightarrow> ledger_record option) \<Rightarrow> ledger_record \<Rightarrow> bool" where
  "json_line to_str from_str r \<longleftrightarrow>
    (\<exists>s. to_str r = Some s \<and> from_str s = Some r \<and> CHR 0x0A \<notin> set s \<and> utf8_valid s \<and>
      trim s \<noteq> [] \<and> last s \<noteq> CHR 0x0D)"

fun append_all :: "(ledger_record \<Rightarrow> string option) \<Rightarrow> ledger_record list \<Rightarrow> string \<Rightarrow> ledger_error + string" where
  "append_all to_str [] file = Inr file"
| "append_all to_str (r # rs) file =
    (case ledger_append to_str r file of Inl e \<Rightarrow> Inl e | Inr file' \<Rightarrow> append_all to_str rs file')"

lemma buf_lines_line:
  assumes "CHR 0x0A \<notin> set s" "last s \<noteq> CHR 0x0D"
  shows "buf_lines (s @ CHR 0x0A # t) = s # buf_lines t"
  using assms by (simp add: buf_lines_def split_on_append Let_def)

text \<open>
  A file that holds whole records: its lines read as \<open>rs\<close>, whatever is appended later.
\<close>

definition ledger_holds :: "(string \<Rightarrow> ledger_record option) \<Rightarrow> ledger_record list \<Rightarrow> string \<Rightarrow> bool" where
  "ledger_holds from_str rs file \<longleftrightarrow>
    (\<forall>rest. read_lines from_str (buf_lines (file @ rest)) = prepend rs (read_lines from_str (buf_lines rest)))"

lemma ledger_holds_Nil: "ledger_holds from_str [] []"
  by (simp add: ledger_holds_def)

lemma ledger_holds_read: "ledger_holds from_str rs file \<Longrightarrow> read_all from_str (Some file) = Inr rs"
  unfolding ledger_holds_def by (drule spec [of _ "[]"]) (simp add: read_all_def buf_lines_def)

lemma ledger_append_holds:
  assumes "json_line to_str from_str r" "ledger_holds from_str rs file"
  shows "\<exists>file'. ledger_append to_str r file = Inr file' \<and> ledger_holds from_str (rs @ [r]) file'"
proof -
  obtain s where "to_str r = Some s" "from_str s = Some r" "CHR 0x0A \<notin> set s" "utf8_valid s"
    "trim s \<noteq> []" "last s \<noteq> CHR 0x0D" using assms(1) by (auto simp: json_line_def)
  then show ?thesis
    using assms(2) by (simp add: ledger_append_def ledger_holds_def buf_lines_line)
qed

lemma append_all_holds:
  assumes "\<forall>r \<in> set rs. json_line to_str from_str r" "ledger_holds from_str rs0 fl"
  shows "\<exists>file'. append_all to_str rs fl = Inr file' \<and> ledger_holds from_str (rs0 @ rs) file'"
  using assms
proof (induction rs arbitrary: rs0 fl)
  case (Cons r rs)
  obtain fl1 where "ledger_append to_str r fl = Inr fl1" "ledger_holds from_str (rs0 @ [r]) fl1"
    using ledger_append_holds [of to_str from_str r rs0 fl] Cons.prems by auto
  then show ?case using Cons.IH [of "rs0 @ [r]" fl1] Cons.prems(1) by auto
qed auto

text \<open>
  What the proxy appends the report reads back: the ledger file holds every record, in the order
  of the appends, whatever the records contain.
\<close>

lemma ledger_roundtrip:
  assumes "\<forall>r \<in> set rs. json_line to_str from_str r"
  shows "\<exists>file. append_all to_str rs [] = Inr file \<and> read_all from_str (Some file) = Inr rs"
  using append_all_holds [OF assms ledger_holds_Nil] ledger_holds_read by fastforce

text \<open>
  A line the report cannot take: bytes that are no text, or a line that is not blank and no record. A
  blank line is skipped, and any other line is a record.
\<close>

definition no_record :: "(string \<Rightarrow> ledger_record option) \<Rightarrow> string \<Rightarrow> bool" where
  "no_record from_str l \<longleftrightarrow> \<not> utf8_valid l \<or> (trim l \<noteq> [] \<and> from_str l = None)"

definition line_record :: "(string \<Rightarrow> ledger_record option) \<Rightarrow> string \<Rightarrow> ledger_record option" where
  "line_record from_str l = (if trim l = [] then None else from_str l)"

lemma read_lines_spec:
  "read_lines from_str ls =
    (case find (no_record from_str) ls of
       None \<Rightarrow> Inr (List.map_filter (line_record from_str) ls)
     | Some l \<Rightarrow> Inl (if utf8_valid l then LedgerJson else LedgerIo))"
  by (induction ls) (auto simp: no_record_def line_record_def map_filter_def split: option.splits)

lemma read_lines_bad:
  "no_record from_str l \<Longrightarrow> l \<in> set ls \<Longrightarrow> \<exists>e. read_lines from_str ls = Inl e"
  by (auto simp: read_lines_spec find_None_iff split: option.splits)

lemma ledger_holds_bad:
  assumes "ledger_holds from_str rs fl" "no_record from_str l" "l \<in> set (buf_lines rest)"
  shows "\<exists>e. read_all from_str (Some (fl @ rest)) = Inl e"
  using assms read_lines_bad [OF assms(2,3)] by (auto simp: ledger_holds_def read_all_def)

lemma buf_lines_unfinished: "CHR 0x0A \<notin> set l \<Longrightarrow> l \<noteq> [] \<Longrightarrow> buf_lines l = [l]"
  by (simp add: buf_lines_def split_on_id Let_def)

lemma append_all_total:
  "\<forall>r \<in> set rs. json_line to_str from_str r \<Longrightarrow> \<exists>file. append_all to_str rs fl = Inr file"
proof (induction rs arbitrary: fl)
  case (Cons r rs)
  obtain s where "to_str r = Some s" using Cons.prems by (auto simp: json_line_def)
  then show ?case using Cons by (simp add: ledger_append_def)
qed simp

lemma append_all_appends:
  "append_all to_str rs fl = Inr file \<Longrightarrow> \<exists>t. file = fl @ t"
proof (induction rs arbitrary: fl)
  case (Cons r rs)
  then show ?case by (fastforce simp: ledger_append_def split: option.splits sum.splits)
qed simp

text \<open>
  C37. One bad line, wherever it stands, loses the whole ledger. Of any file the report reads the records
  of all its lines, the blank ones skipped, exactly when every line is text and blank or a record; the
  first line that is not decides the error, and no record is returned. So a record cut short by a crash
  makes the ledger unreadable, and a proxy started on the same file does not mend it: its first record
  continues the torn line, and whatever it records afterwards is unreadable as well.
\<close>

theorem torn_line_loses_the_ledger:
  assumes "\<forall>r \<in> set (before @ r # after). json_line to_str from_str r" "to_str r = Some s"
    and "CHR 0x0A \<notin> set torn" "no_record from_str torn" "no_record from_str (torn @ s)"
  shows "(\<forall>fl. read_all from_str (Some fl) =
      (case find (no_record from_str) (buf_lines fl) of
         None \<Rightarrow> Inr (List.map_filter (line_record from_str) (buf_lines fl))
       | Some l \<Rightarrow> Inl (if utf8_valid l then LedgerJson else LedgerIo))) \<and>
    (\<exists>fl fl' e e'. append_all to_str before [] = Inr fl \<and> read_all from_str (Some fl) = Inr before \<and>
      read_all from_str (Some (fl @ torn)) = Inl e \<and>
      append_all to_str (r # after) (ledger_open (Some (fl @ torn))) = Inr fl' \<and>
      read_all from_str (Some fl') = Inl e')"
proof (rule conjI)
  show "\<forall>fl. read_all from_str (Some fl) =
      (case find (no_record from_str) (buf_lines fl) of
         None \<Rightarrow> Inr (List.map_filter (line_record from_str) (buf_lines fl))
       | Some l \<Rightarrow> Inl (if utf8_valid l then LedgerJson else LedgerIo))"
    by (simp add: read_all_def read_lines_spec)
next
  obtain fl where fl: "append_all to_str before [] = Inr fl" "ledger_holds from_str before fl"
    using append_all_holds [OF _ ledger_holds_Nil, of before to_str from_str] assms(1) by auto
  have "torn \<noteq> []" using assms(4) is_ascii_valid [of "[]"] by (auto simp: no_record_def is_ascii_def)
  then have "torn \<in> set (buf_lines torn)" using buf_lines_unfinished [OF assms(3)] by simp
  from ledger_holds_bad [OF fl(2) assms(4) this] obtain e where
    torn: "read_all from_str (Some (fl @ torn)) = Inl e" by blast
  have s: "CHR 0x0A \<notin> set s" "last s \<noteq> CHR 0x0D" "s \<noteq> []"
    using assms(1,2) by (auto simp: json_line_def)
  obtain f2 where "append_all to_str after (fl @ torn @ s @ [CHR 0x0A]) = Inr f2"
    using append_all_total [of after to_str from_str] assms(1) by auto
  with append_all_appends [OF this] obtain t where
    t: "append_all to_str after (fl @ torn @ s @ [CHR 0x0A]) = Inr (fl @ torn @ s @ CHR 0x0A # t)" by auto
  have "torn @ s \<in> set (buf_lines (torn @ s @ CHR 0x0A # t))"
    using buf_lines_line [of "torn @ s" t] assms(3) s by simp
  from ledger_holds_bad [OF fl(2) assms(5) this] obtain e' where
    "read_all from_str (Some (fl @ torn @ s @ CHR 0x0A # t)) = Inl e'" by auto
  moreover have "append_all to_str (r # after) (ledger_open (Some (fl @ torn))) = Inr (fl @ torn @ s @ CHR 0x0A # t)"
    using t assms(2) by (simp add: ledger_append_def ledger_open_def)
  ultimately show "\<exists>fl fl' e e'. append_all to_str before [] = Inr fl \<and> read_all from_str (Some fl) = Inr before \<and>
      read_all from_str (Some (fl @ torn)) = Inl e \<and>
      append_all to_str (r # after) (ledger_open (Some (fl @ torn))) = Inr fl' \<and>
      read_all from_str (Some fl') = Inl e'"
    using fl torn ledger_holds_read [OF fl(2)] by blast
qed

definition sample_record :: ledger_record where
  "sample_record =
    from_finish (declared_ref ''s'' (Some ''a'') None) (usage_default\<lparr>u_input := 7\<rparr>) False 1 0"

definition sample_to_str :: "ledger_record \<Rightarrow> string option" where
  "sample_to_str r = Some ''{}''"

definition sample_from_str :: "string \<Rightarrow> ledger_record option" where
  "sample_from_str s = (if s = ''{}'' then Some sample_record else None)"

lemma sample_json_line: "json_line sample_to_str sample_from_str sample_record"
proof -
  have "trim ''{}'' = ''{}''"
    by (rule trim_trimmed) (simp add: trimmed_def ws_first_def ws_last_def white_space_def)
  moreover have "utf8_valid ''{}''" by (rule is_ascii_valid) (simp add: is_ascii_def)
  ultimately show ?thesis by (simp add: json_line_def sample_to_str_def sample_from_str_def)
qed

lemma ledger_roundtrip_witness:
  "\<exists>file. append_all sample_to_str [sample_record, sample_record] [] = Inr file \<and>
    read_all sample_from_str (Some file) = Inr [sample_record, sample_record]"
  by (rule ledger_roundtrip) (simp add: sample_json_line)

text \<open>A crash in the middle of the second record, and a restart that records one more.\<close>

theorem torn_line_loses_the_ledger_witness:
  "\<exists>fl fl' e e'. append_all sample_to_str [sample_record] [] = Inr fl \<and>
    read_all sample_from_str (Some fl) = Inr [sample_record] \<and>
    read_all sample_from_str (Some (fl @ ''{'')) = Inl e \<and>
    append_all sample_to_str [sample_record] (ledger_open (Some (fl @ ''{''))) = Inr fl' \<and>
    read_all sample_from_str (Some fl') = Inl e'"
proof (rule conjunct2 [OF torn_line_loses_the_ledger])
  have "trim ''{'' = ''{''" "trim ''{{}'' = ''{{}''"
    by (rule trim_trimmed, simp add: trimmed_def ws_first_def ws_last_def white_space_def)+
  then show "no_record sample_from_str ''{''" "no_record sample_from_str (''{'' @ ''{}'')"
    by (simp_all add: no_record_def sample_from_str_def)
qed (simp_all add: sample_json_line sample_to_str_def)

section \<open>What the fold keeps\<close>

definition record_events :: "ledger_record \<Rightarrow> task_event list" where
  "record_events r =
    [Began (record_ref r) None, Ended (record_ref r) (record_usage r) (\<not> lr_incomplete r)]"

definition records_of :: "string \<Rightarrow> ledger_record list \<Rightarrow> ledger_record list" where
  "records_of k rs = filter (\<lambda>r. lr_task_id r = k) rs"

definition replayed :: "ledger_record list \<Rightarrow> string \<Rightarrow> task" where
  "replayed rs k = task_run (rate_from_base 0 0) (concat (map record_events (records_of k rs))) (new_task None None k)"

lemma task_run_append: "task_run rates (a @ b) t = task_run rates b (task_run rates a t)"
  by (simp add: task_run_def)

lemma fold_record_get:
  assumes "ar_default_ceiling a = None" "ar_voucher_share a = None"
    and "\<And>k. arena_get a k = (if records_of k rs = [] then None else Some (replayed rs k))"
  shows "arena_get (fold_record r a) k =
    (if records_of k (rs @ [r]) = [] then None else Some (replayed (rs @ [r]) k))"
proof -
  have "arena_task a (lr_task_id r) = replayed rs (lr_task_id r)"
    using assms by (simp add: arena_task_def replayed_def)
  then show ?thesis
    using assms(3) by (auto simp: fold_record_def task_simps records_of_def replayed_def record_events_def
        task_run_append)
qed

lemma fold_records_get:
  "arena_get (fold fold_record rs arena_new) k =
      (if records_of k rs = [] then None else Some (replayed rs k)) \<and>
    ar_default_ceiling (fold fold_record rs arena_new) = None \<and>
    ar_voucher_share (fold fold_record rs arena_new) = None"
proof (induction rs arbitrary: k rule: rev_induct)
  case Nil
  then show ?case by (simp add: records_of_def) (simp add: arena_new_def)
next
  case (snoc r rs)
  have "ar_default_ceiling (fold_record r a) = ar_default_ceiling a"
    "ar_voucher_share (fold_record r a) = ar_voucher_share a" for a
    by (simp_all add: fold_record_def task_simps)
  then show ?case
    using snoc fold_record_get [of "fold fold_record rs arena_new" rs r k] by simp
qed

lemma task_step_root: "t_root (task_step rates e t) = t_root t"
  by (cases e) (simp_all add: task_simps)

lemma task_run_root: "t_root (task_run rates evs t) = t_root t"
  by (induction evs arbitrary: t) (simp_all add: task_step_root)

lemma replayed_root: "t_root (replayed rs k) = k"
  by (simp add: replayed_def task_run_root task_simps)

lemma fold_records_wf: "hm_wf (ar_tasks (fold fold_record rs arena_new))"
  by (induction rs rule: rev_induct)
    (simp_all add: fold_record_def task_mut_def hm_wf_insert, simp add: arena_new_def hm_wf_def hm_keys_def)

lemma replayed_usage: "total_usage (replayed rs k) = (\<Sum>r\<leftarrow>records_of k rs. record_usage r)"
proof -
  have "(\<Sum>e\<leftarrow>concat (map record_events xs). ended_usage e) = (\<Sum>r\<leftarrow>xs. record_usage r)" for xs
    by (induction xs) (simp_all add: record_events_def)
  then show ?thesis by (simp add: replayed_def task_totals)
qed

text \<open>The end of a request that a record tells of.\<close>

definition record_end :: "ledger_record \<Rightarrow> string \<times> usage \<times> bool" where
  "record_end r = (lr_node r, record_usage r, \<not> lr_incomplete r)"

lemma replayed_wf: "task_wf (replayed rs k)"
  unfolding replayed_def by (rule wf_task_run [OF wf_new_task])

text \<open>A task in which the requests of the records ended has the tallies of the one the report rebuilds.\<close>

lemma replayed_tally:
  assumes "ended_list evs = map record_end (records_of k rs)"
  shows "node_tally (task_run rates evs (new_task cap share k)) = node_tally (replayed rs k)"
proof -
  have "ended_list (concat (map record_events xs)) = map record_end xs" for xs
    by (induction xs) (simp_all add: record_events_def record_end_def record_ref_def)
  then show ?thesis by (simp add: replayed_def task_run_tally new_task_tally assms)
qed

lemma replayed_nothing: "records_of k rs = [] \<Longrightarrow> node_tally (replayed rs k) = (\<lambda>j. (usage_default, 0, 0))"
  by (simp add: replayed_def new_task_tally)

lemma arena_roots_records:
  "set (map t_root (arena_roots (fold fold_record rs arena_new))) = set (map lr_task_id rs) \<and>
   distinct (map t_root (arena_roots (fold fold_record rs arena_new))) \<and>
   (\<forall>t \<in> set (arena_roots (fold fold_record rs arena_new)). t = replayed rs (t_root t))"
proof -
  let ?a = "fold fold_record rs arena_new"
  have get: "hm_get (ar_tasks ?a) k = (if records_of k rs = [] then None else Some (replayed rs k))" for k
    using fold_records_get [of rs k] by (simp add: arena_get_def)
  have mem: "t = replayed rs k" if "(k, t) \<in> set (ar_tasks ?a)" for k t
    using hm_get_mem [OF fold_records_wf that] get [of k] by (simp split: if_splits)
  then have keys: "map t_root (arena_roots ?a) = hm_keys (ar_tasks ?a)"
    using replayed_root by (fastforce simp: arena_roots_def hm_values_def hm_keys_def)
  have "set (hm_keys (ar_tasks ?a)) = set (map lr_task_id rs)"
    by (auto simp: get records_of_def filter_empty_conv image_iff simp flip: hm_get_in_keys split: if_splits)
  moreover have "t = replayed rs (t_root t)" if "t \<in> set (arena_roots ?a)" for t
    using that mem replayed_root by (fastforce simp: arena_roots_def hm_values_def)
  ultimately show ?thesis using keys fold_records_wf by (simp add: hm_wf_def)
qed

lemma replayed_in_tasks:
  assumes "k \<in> set (map lr_task_id rs)"
  shows "replayed rs k \<in> set (tasks_from_records rs)"
proof -
  let ?roots = "arena_roots (fold fold_record rs arena_new)"
  have "k \<in> set (map t_root ?roots)" using assms arena_roots_records [of rs] by simp
  then obtain t where t: "t \<in> set ?roots" "t_root t = k" by auto
  then have "t = replayed rs k" using arena_roots_records [of rs] by blast
  moreover have "set (tasks_from_records rs) = set ?roots"
    by (rule mset_eq_setD) (simp add: tasks_from_records_def mset_sort_by)
  ultimately show ?thesis using t by simp
qed

lemma task_is_replayed:
  assumes "t \<in> set (tasks_from_records rs)"
  shows "t = replayed rs (t_root t)"
proof -
  have "t \<in> set (arena_roots (fold fold_record rs arena_new))"
    using assms by (simp add: tasks_from_records_def mset_eq_setD [OF mset_sort_by])
  then show ?thesis using arena_roots_records [of rs] by blast
qed

lemma no_task_no_records: "r \<notin> t_root ` set (tasks_from_records rs) \<Longrightarrow> records_of r rs = []"
  using replayed_in_tasks [of r rs] replayed_root [of rs r]
  by (fastforce simp: records_of_def filter_empty_conv image_iff)

lemma bytes_less_irrefl: "\<not> bytes_less a a"
  by (induction a) simp_all

lemma sorted_distinct_strict:
  "sorted_wrt (\<lambda>a b. \<not> bytes_less (f b) (f a)) xs \<Longrightarrow> distinct (map f xs) \<Longrightarrow>
    sorted_wrt (\<lambda>a b. bytes_less (f a) (f b)) xs"
proof (induction xs)
  case (Cons x xs)
  have "bytes_less (f x) (f y)" if "y \<in> set xs" for y
  proof -
    have "f x \<noteq> f y" using Cons.prems(2) that by auto
    moreover have "\<not> bytes_less (f y) (f x)" using Cons.prems(1) that by simp
    ultimately show ?thesis using bytes_less_total [of "f x" "f y"] by blast
  qed
  then show ?case using Cons by simp
qed simp

lemma bytes_le_total: "\<not> bytes_less b a \<or> \<not> bytes_less a b"
  using bytes_less_trans [of a b a] bytes_less_irrefl [of a] by blast

lemma bytes_le_trans: "\<not> bytes_less b a \<Longrightarrow> \<not> bytes_less c b \<Longrightarrow> \<not> bytes_less c a"
  using bytes_less_total [of a b] bytes_less_trans [of c a b] by blast

text \<open>
  The report rebuilds exactly the tasks of the ledger: one task per task id, in the order of the
  ids, and the usage of each is the sum of the usages of its records, whatever the order in which
  requests of different tasks were recorded.
\<close>

lemma report_tasks_conserve_usage:
  "set (map t_root (tasks_from_records rs)) = set (map lr_task_id rs) \<and>
   distinct (map t_root (tasks_from_records rs)) \<and>
   sorted_wrt (\<lambda>a b. bytes_less (t_root a) (t_root b)) (tasks_from_records rs) \<and>
   (\<forall>t \<in> set (tasks_from_records rs). total_usage t = (\<Sum>r\<leftarrow>records_of (t_root t) rs. record_usage r))"
proof -
  let ?le = "\<lambda>a b. \<not> bytes_less (t_root b) (t_root a)"
  let ?ts = "tasks_from_records rs" and ?roots = "arena_roots (fold fold_record rs arena_new)"
  have perm: "mset ?ts = mset ?roots" by (simp add: tasks_from_records_def mset_sort_by)
  then have set: "set ?ts = set ?roots" by (rule mset_eq_setD)
  have "mset (map t_root ?ts) = mset (map t_root ?roots)" by (simp add: perm)
  then have dist: "distinct (map t_root ?ts)"
    using arena_roots_records [of rs] mset_eq_imp_distinct_iff by blast
  have "sorted_wrt ?le ?ts"
    unfolding tasks_from_records_def
    by (rule sorted_sort_by) (rule bytes_le_total, rule bytes_le_trans)
  then have "sorted_wrt (\<lambda>a b. bytes_less (t_root a) (t_root b)) ?ts"
    using dist by (rule sorted_distinct_strict)
  moreover have "total_usage t = (\<Sum>r\<leftarrow>records_of (t_root t) rs. record_usage r)" if "t \<in> set ?ts" for t
  proof -
    have "t = replayed rs (t_root t)" using that set arena_roots_records [of rs] by blast
    then show ?thesis by (metis replayed_usage)
  qed
  ultimately show ?thesis using arena_roots_records [of rs] dist set by simp
qed

end
