(* ===== verification/Ledger_Report.thy ===== *)
theory Ledger_Report
  imports Ledger_Record
begin

text \<open>
  The fan-out report (\<open>crates/tailfin-ledger/src/lib.rs\<close>: \<open>render\<close>, \<open>render_task\<close>, \<open>node_usage\<close>,
  \<open>trunc\<close>). Text is UTF-8 bytes; \<open>format!\<close> pads to a number of characters. Slicing a string inside
  a character panics, so rendering returns an option.
\<close>

section \<open>Text\<close>

definition char_count :: "string \<Rightarrow> nat" where
  "char_count s = length (filter (\<lambda>c. \<not> is_cont c) s)"

definition pad_right_chars :: "nat \<Rightarrow> string \<Rightarrow> string" where
  "pad_right_chars w s = s @ replicate (w - char_count s) (CHR '' '')"

definition is_char_boundary :: "string \<Rightarrow> nat \<Rightarrow> bool" where
  "is_char_boundary s i \<longleftrightarrow> i = 0 \<or> i = length s \<or> (i < length s \<and> \<not> is_cont (s ! i))"

definition slice_to :: "string \<Rightarrow> nat \<Rightarrow> string option" where
  "slice_to s i = (if is_char_boundary s i then Some (take i s) else None)"

definition ellipsis :: string where
  "ellipsis = [CHR 0xE2, CHR 0x80, CHR 0xA6]"

definition trunc :: "string \<Rightarrow> nat \<Rightarrow> string option" where
  "trunc s n = (if length s \<le> n then Some s else map_option (\<lambda>p. p @ ellipsis) (slice_to s (n - 1)))"

definition nl :: string where
  "nl = [CHR 0x0A]"

definition show_word :: "'a::len word \<Rightarrow> string" where
  "show_word w = show_nat (unat w)"

definition dollars :: "u64 \<Rightarrow> string" where
  "dollars m = fmt_fixed 4 (f64_div (f64_of_u64 m) (Fin 1000000))"

section \<open>Rows\<close>

definition node_usage :: "task \<Rightarrow> string \<Rightarrow> usage option" where
  "node_usage t k =
    map_option rep_usage (find (\<lambda>n. rep_id n = k) (by_cost t (rate_from_base 1 1)))"

type_synonym report_row = "string \<times> bool \<times> usage \<times> u64 option"

definition row_le :: "report_row \<Rightarrow> report_row \<Rightarrow> bool" where
  "row_le a b \<longleftrightarrow>
    (let ta = usage_total (fst (snd (snd a))); tb = usage_total (fst (snd (snd b)))
     in tb < ta \<or> (ta = tb \<and> \<not> bytes_less (fst b) (fst a)))"

definition report_rows :: "rate_card option \<Rightarrow> task \<Rightarrow> report_row list" where
  "report_rows rates t =
    (case rates of
       Some r \<Rightarrow>
         map (\<lambda>n. (rep_id n, rep_is_root n, rep_usage n, Some (rep_micros n))) (by_cost t r)
     | None \<Rightarrow>
         sort_by row_le
           (List.map_filter
             (\<lambda>(k, _). map_option (\<lambda>u. (k, k = t_root t, u, None)) (node_usage t k)) (walk t)))"

fun render_rows :: "rate_card option \<Rightarrow> bool \<Rightarrow> u32 \<Rightarrow> report_row list \<Rightarrow> string option" where
  "render_rows rates share sub_n [] = Some []"
| "render_rows rates share sub_n ((k, root_row, u, micros) # rows) =
    (let sub_n' = (if share \<and> \<not> root_row then sub_n + 1 else sub_n);
         label = (if share then
                    (let l = (if root_row then ''main'' else ''sub '' @ show_word sub_n')
                     in Some (''  '' @ pad_right_chars 33 l))
                  else
                    map_option
                      (\<lambda>t. ''  '' @ (if root_row then ''main'' else ''sub '') @ '' '' @ pad_right_chars 28 t)
                      (trunc k 28));
         money = (case (rates, micros) of
                    (Some _, Some m) \<Rightarrow> ''  $'' @ dollars m
                  | _ \<Rightarrow> [])
     in case label of
          None \<Rightarrow> None
        | Some l \<Rightarrow>
            map_option
              (\<lambda>rest. l @ '' '' @ pad_left (CHR '' '') 7 (show_word (usage_total u)) @ money @ nl @ rest)
              (render_rows rates share sub_n' rows))"

section \<open>A task and the report\<close>

definition render_head ::
  "task \<Rightarrow> ledger_record list \<Rightarrow> rate_card option \<Rightarrow> bool \<Rightarrow> nat \<Rightarrow> string" where
  "render_head t rs rates share index =
    (let total = total_usage t; main = root_usage t; sub = subagent_usage t;
         tok = (\<lambda>u. show_word (usage_total u))
     in (if share then ''task '' @ show_nat (index + 1) @ nl else ''task '' @ t_root t @ nl) @
        (if share then ''  tokens    '' @ tok total @ ''  (main '' @ tok main @ '', sub '' @ tok sub @ '')'' @ nl
         else ''  tokens    '' @ tok total @ ''  (main '' @ tok main @ '' / sub '' @ tok sub @ '')'' @ nl) @
        (case fan_out_multiplier t of
           Some f \<Rightarrow> ''  fan-out   '' @ fmt_fixed 2 f @ ''x'' @ nl
         | None \<Rightarrow> if share then ''  fan-out   none'' @ nl else ''  fan-out   n/a'' @ nl) @
        (case rates of
           Some r \<Rightarrow>
             ''  cost      $'' @ dollars (spent t r) @ ''  (subagent share '' @
             fmt_fixed 0 (f64_mul (case subagent_share t r of Some x \<Rightarrow> x | None \<Rightarrow> Fin 0) (Fin 100)) @
             ''%)'' @ nl
         | None \<Rightarrow> []) @
        ''  peak conc '' @ show_word (peak_for_task rs (t_root t)) @ nl @
        ''  incomplete '' @ show_word (incomplete_requests t) @ nl @
        (case cache_read_write_ratio total of
           Some r \<Rightarrow> ''  cache r:w '' @ fmt_fixed 2 r @ nl
         | None \<Rightarrow> if share then ''  cache r:w none'' @ nl else ''  cache r:w n/a'' @ nl) @
        (if share then ''  role                             tokens''
         else ''  node                             tokens'') @
        (if rates \<noteq> None then ''        $'' else []) @ nl)"

definition render_task ::
  "task \<Rightarrow> ledger_record list \<Rightarrow> rate_card option \<Rightarrow> bool \<Rightarrow> nat \<Rightarrow> string option" where
  "render_task t rs rates share index =
    map_option (\<lambda>rows. render_head t rs rates share index @ rows)
      (render_rows rates share 0 (report_rows rates t))"

fun render_tasks ::
  "task list \<Rightarrow> ledger_record list \<Rightarrow> rate_card option \<Rightarrow> bool \<Rightarrow> nat \<Rightarrow> string option" where
  "render_tasks [] rs rates share i = Some []"
| "render_tasks (t # ts) rs rates share i =
    Option.bind (render_task t rs rates share i)
      (\<lambda>s. map_option (\<lambda>rest. s @ nl @ rest) (render_tasks ts rs rates share (i + 1)))"

definition render :: "ledger_record list \<Rightarrow> rate_card option \<Rightarrow> bool \<Rightarrow> string option" where
  "render rs rates share =
    (if rs = [] then Some (''no records'' @ nl)
     else map_option
       (\<lambda>body. (if rates = None then ''no rate card; token counts only (no dollars)'' @ nl else []) @ body)
       (render_tasks (tasks_from_records rs) rs rates share 0))"

section \<open>What the rows show\<close>

lemma node_usage_Some:
  assumes "task_wf t" "hm_contains (t_nodes t) k"
  shows "\<exists>u. node_usage t k = Some u"
proof -
  have "k \<in> set (hm_keys (t_nodes t))" using assms(2) hm_get_in_keys unfolding hm_contains_def by metis
  moreover have "mset (map rep_id (by_cost t (rate_from_base 1 1))) = mset (hm_keys (t_nodes t))"
    by (rule by_cost_ids [OF assms(1)])
  then have "set (map rep_id (by_cost t (rate_from_base 1 1))) = set (hm_keys (t_nodes t))"
    by (rule mset_eq_setD)
  ultimately have "\<exists>n \<in> set (by_cost t (rate_from_base 1 1)). rep_id n = k"
    by (metis (no_types) imageE list.set_map)
  then have "find (\<lambda>n. rep_id n = k) (by_cost t (rate_from_base 1 1)) \<noteq> None"
    by (auto simp: find_None_iff)
  then show ?thesis by (auto simp: node_usage_def)
qed

lemma rated_rows:
  assumes "task_wf t"
  shows "mset (map fst (report_rows (Some rates) t)) = mset (hm_keys (t_nodes t))"
proof -
  have "map fst (map (\<lambda>n. (rep_id n, rep_is_root n, rep_usage n, Some (rep_micros n))) (by_cost t rates)) =
      map rep_id (by_cost t rates)" by simp
  then show ?thesis by (simp only: report_rows_def option.case by_cost_ids [OF assms])
qed

lemma unrated_rows:
  assumes "task_wf t"
  shows "mset (map fst (report_rows None t)) = mset (map fst (walk t))"
proof -
  have seen: "hm_contains (t_nodes t) k" if "(k, d) \<in> set (walk t)" for k d
    using that walk_nodes [OF assms] by (fastforce simp: hm_contains_def)
  have "map fst (List.map_filter
        (\<lambda>(k, _). map_option (\<lambda>u. (k, k = t_root t, u, None)) (node_usage t k)) ws) = map fst ws"
    if "set ws \<subseteq> set (walk t)" for ws
    using that
  proof (induction ws)
    case (Cons w ws)
    obtain k d where w: "w = (k, d)" by (cases w)
    then obtain u where "node_usage t k = Some u"
      using node_usage_Some [OF assms seen, of k d] Cons.prems by auto
    with Cons w show ?case by (simp add: map_filter_def)
  qed (simp add: map_filter_def)
  from arg_cong [OF this [of "walk t"], of mset] show ?thesis
    by (simp add: report_rows_def mset_sort_by)
qed

text \<open>
  C35. With a rate card the report has one row for every node of the task; without one it has a row
  only for the nodes that the declared parents connect to the root.
\<close>

theorem report_rows_cover:
  assumes "task_wf t"
  shows "mset (map fst (report_rows (Some rates) t)) = mset (hm_keys (t_nodes t)) \<and>
    mset (map fst (report_rows None t)) = mset (map fst (walk t)) \<and>
    set (map fst (report_rows None t)) = {k. descendant t (t_root t) k}"
  using rated_rows [OF assms] unrated_rows [OF assms] walk_ids [OF assms] by (metis mset_eq_setD)

theorem report_rows_cover_witness:
  "set (map fst (report_rows None (new_task None None ''r''))) = {k. descendant (new_task None None ''r'') ''r'' k}"
  using report_rows_cover [OF wf_new_task, of "rate_from_base 1 1" None None "''r''"] by (simp add: task_simps)

lemma trunc_None: "trunc k 28 = None \<longleftrightarrow> 28 < length k \<and> is_cont (k ! 27)"
  by (auto simp: trunc_def slice_to_def is_char_boundary_def)

text \<open>
  C36. The report fails (the slice in \<open>trunc\<close> panics) exactly when some id is longer than 28 bytes
  and its 28th byte lies inside a character; the shareable report never fails.
\<close>

theorem report_panics_exactly:
  "(render_rows rates False n rows = None \<longleftrightarrow>
      (\<exists>k \<in> set (map fst rows). 28 < length k \<and> is_cont (k ! 27))) \<and>
   render_rows rates True n rows \<noteq> None"
proof (induction rows arbitrary: n)
  case (Cons row rows)
  obtain k b u m where "row = (k, b, u, m)" by (cases row) auto
  then show ?case using Cons trunc_None [of k] by (auto simp: Let_def split: option.split)
qed simp

text \<open>
  The shareable report gives no id away: its rows depend only on which row is the root and on the
  amounts, in order.
\<close>

lemma share_rows_hide_ids:
  "map snd rows = map snd rows' \<Longrightarrow> render_rows rates True n rows = render_rows rates True n rows'"
proof (induction rows arbitrary: rows' n)
  case (Cons row rows)
  obtain k b u m where "row = (k, b, u, m)" by (cases row) auto
  moreover obtain k' rows'' where "rows' = (k', b, u, m) # rows''" "map snd rows'' = map snd rows"
    using Cons.prems calculation by (cases rows') auto
  ultimately show ?case using Cons.IH [of rows''] by (simp add: Let_def)
qed simp

lemma share_rows_hide_ids_witness:
  "render_rows None True 0 [(''secret'', False, 0, None)] = render_rows None True 0 [(''other'', False, 0, None)]"
  by (rule share_rows_hide_ids) simp

definition orphan_record :: ledger_record where
  "orphan_record = from_finish (declared_ref ''s'' (Some ''b'') (Some ''x'')) (usage_default\<lparr>u_input := 7\<rparr>) False 1 0"

lemma distinct_singleton_list: "distinct xs \<Longrightarrow> set xs = {a} \<Longrightarrow> xs = [a]"
  by (cases xs; cases "tl xs") auto

lemma mset_single_list: "mset xs = {#a#} \<Longrightarrow> xs = [a]"
  by (cases xs; cases "tl xs") auto

lemma orphan_places:
  "map (\<lambda>(k, n). (k, n_parent n)) (t_nodes (replayed [orphan_record] ''s'')) = [(''s'', None), (''b'', Some ''x'')]"
  by (simp add: replayed_def orphan_record_def records_of_def record_events_def record_ref_def from_finish_def
      declared_ref_def begin_request_def finish_request_def ensure_def hm_contains_def mint_voucher_def
      hm_insert_def hm_modify_def update_node_def Let_def task_simps)

lemma orphan_keys: "hm_keys (t_nodes (replayed [orphan_record] ''s'')) = [''s'', ''b'']"
  using arg_cong [OF orphan_places, of "map fst"] by (simp add: hm_keys_def o_def case_prod_unfold)

lemma orphan_walk: "map fst (walk (replayed [orphan_record] ''s'')) = [''s'']"
proof -
  let ?t = "replayed [orphan_record] ''s''"
  have "n_parent n \<noteq> Some ''s''" if "hm_get (t_nodes ?t) k = Some n" for k n
  proof -
    have "(k, n_parent n) \<in> set (map (\<lambda>(k, n). (k, n_parent n)) (t_nodes ?t))"
      using map_of_SomeD [OF that [unfolded hm_get_def]] by (force simp: image_iff)
    then show ?thesis unfolding orphan_places by auto
  qed
  then have "\<not> child ?t ''s'' b" for b by (auto simp: child_iff [OF replayed_wf])
  then have "{k. descendant ?t ''s'' k} = {''s''}"
    by (auto elim: converse_rtranclpE)
  then have "set (map fst (walk ?t)) = {''s''}" "distinct (map fst (walk ?t))"
    using walk_descendants [OF replayed_wf [of "[orphan_record]" "''s''"]] by (simp_all add: replayed_root)
  then show ?thesis by (metis (no_types) distinct_singleton_list)
qed

text \<open>
  Without a rate card the rows do not add up to the total of the task: a node whose declared
  parent was never seen is counted in the total but has no row.
\<close>

lemma unrated_report_drops_orphans:
  "let t = replayed [orphan_record] ''s'' in
     t \<in> set (tasks_from_records [orphan_record]) \<and> usage_total (total_usage t) = 7 \<and>
     map fst (report_rows None t) = [''s''] \<and>
     set (map fst (report_rows (Some (rate_from_base 1 1)) t)) = {''s'', ''b''}"
proof -
  let ?t = "replayed [orphan_record] ''s''"
  have "?t \<in> set (tasks_from_records [orphan_record])"
    by (rule replayed_in_tasks) (simp add: orphan_record_def from_finish_def declared_ref_def)
  moreover have "usage_total (total_usage ?t) = 7"
    by (simp add: replayed_usage records_of_def orphan_record_def from_finish_def declared_ref_def record_usage_def
        usage_default_def usage_total_def)
  moreover have "set (map fst (report_rows (Some (rate_from_base 1 1)) ?t)) = {''s'', ''b''}"
    using mset_eq_setD [OF rated_rows [OF replayed_wf, of "rate_from_base 1 1" "[orphan_record]" "''s''"]] orphan_keys by simp
  moreover have "mset (map fst (report_rows None ?t)) = {#''s''#}"
    using unrated_rows [OF replayed_wf, of "[orphan_record]" "''s''"] orphan_walk by simp
  then have "map fst (report_rows None ?t) = [''s'']" by (metis mset_single_list)
  ultimately show ?thesis by (simp add: Let_def)
qed

end
