(* ===== verification/Ledger_Capture.thy ===== *)
theory Ledger_Capture
  imports Ledger_Report Wire_Meter
begin

text \<open>
  Request-body capture (\<open>crates/tailfin-ledger/src/capture.rs\<close>). A store is its directory tree: a
  map from a directory and a file name below the root to the file's bytes, a directory \<open>[]\<close> being
  the root itself. Serde's JSON for a record is a pair of parameters; the clock is an argument.
  Failing system calls are left out: what fails is a file that is not UTF-8 or not a record.
\<close>

section \<open>Records\<close>

definition CAPTURE_SCHEMA :: u32 where
  "CAPTURE_SCHEMA = 1"

text \<open>Durations are whole seconds here: the program builds no other.\<close>

definition DEFAULT_RETENTION :: u64 where
  "DEFAULT_RETENTION = 7 * 24 * 3600"

record capture_record =
  cr_schema_version :: u32
  cr_capture_id :: string
  cr_task_id :: string
  cr_node :: string
  cr_parent :: "string option"
  cr_ts :: u64
  cr_method :: string
  cr_path :: string
  cr_model :: "string option"
  cr_message_count :: u32
  cr_tool_calls :: u32
  cr_body :: string

definition shape :: "capture_record \<Rightarrow> string" where
  "shape r =
    (let b = to_ascii_lowercase (cr_body r) in
     if contains b ''#[test]'' \<or> contains b ''cargo test'' then ''test-generation''
     else if contains b ''fn main'' \<or> contains b ''cargo build'' then ''code-compile''
     else if 0 < cr_tool_calls r \<or> contains b (CHR 0x22 # ''tools'' @ [CHR 0x22]) then ''tool-use''
     else if 8 \<le> cr_message_count r then ''long-context''
     else ''chat'')"

definition parse_retention :: "string \<Rightarrow> string + u64" where
  "parse_retention s0 =
    (let s = trim s0;
         i = (case find_pred s is_ascii_alphabetic of Some i \<Rightarrow> i | None \<Rightarrow> length s);
         unit = drop i s
     in case parse_u64 (take i s) of
          None \<Rightarrow> Inl (''bad retention: '' @ s)
        | Some n \<Rightarrow>
            if unit = ''s'' then Inr n
            else if unit = ''m'' then Inr (n * 60)
            else if unit = ''h'' then Inr (n * 3600)
            else if unit = ''d'' \<or> unit = [] then Inr (n * 86400)
            else Inl (''bad retention unit in '' @ s))"

definition body_meta :: "'v serde_json \<Rightarrow> string \<Rightarrow> string option \<times> u32 \<times> u32" where
  "body_meta J body =
    (let v = js_from_str J body;
         get = (\<lambda>k. Option.bind v (\<lambda>x. js_get J x k));
         model = Option.bind (get ''model'') (js_as_str J);
         msgs = Option.bind (get ''messages'') (js_as_array J);
         message_count = (case msgs of Some a \<Rightarrow> of_nat (length a) | None \<Rightarrow> 0);
         tools = (case Option.bind (get ''tools'') (js_as_array J) of Some a \<Rightarrow> of_nat (length a) | None \<Rightarrow> 0);
         tool_calls = (case msgs of
            None \<Rightarrow> tools
          | Some ms \<Rightarrow> foldl (\<lambda>n m. let s = js_to_string J m in
                if contains s ''tool_use'' \<or> contains s ''tool_result'' then n + 1 else n) tools ms)
     in (model, message_count, tool_calls))"

section \<open>The store\<close>

definition safe_id :: "string \<Rightarrow> string" where
  "safe_id s =
    take 80 (map (\<lambda>c. if is_ascii_alphanumeric c \<or> c = CHR ''-'' then c else CHR ''_'')
      (filter (\<lambda>c. \<not> is_cont c) s))"

record capture_store =
  cs_files :: "(string \<times> string, string) hmap"
  cs_retention :: u64

definition capture_open :: "(string \<times> string, string) hmap \<Rightarrow> u64 \<Rightarrow> capture_store" where
  "capture_open files retention = \<lparr>cs_files = files, cs_retention = retention\<rparr>"

definition capture_file :: "capture_record \<Rightarrow> string \<times> string" where
  "capture_file r = (safe_id (cr_task_id r), safe_id (cr_capture_id r) @ ''.json'')"

definition capture_save ::
  "(capture_record \<Rightarrow> string option) \<Rightarrow> capture_record \<Rightarrow> capture_store \<Rightarrow> capture_store option" where
  "capture_save to_str r s =
    (case to_str r of
       None \<Rightarrow> None
     | Some line \<Rightarrow> Some (s\<lparr>cs_files := hm_insert (capture_file r) (line @ [CHR 0x0A]) (cs_files s)\<rparr>))"

text \<open>\<open>Path::extension\<close> of a file name.\<close>

definition file_extension :: "string \<Rightarrow> string option" where
  "file_extension name =
    (let ext = rev (takeWhile (\<lambda>c. c \<noteq> CHR ''.'') (rev name));
         stem = rev (drop 1 (dropWhile (\<lambda>c. c \<noteq> CHR ''.'') (rev name)))
     in if CHR ''.'' \<notin> set name \<or> stem = [] \<or> name = ''..'' then None else Some ext)"

datatype capture_error = CaptureIo | CaptureJson

fun load_files ::
  "(string \<Rightarrow> capture_record option) \<Rightarrow> ((string \<times> string) \<times> string) list \<Rightarrow>
    capture_error + capture_record list" where
  "load_files from_str [] = Inr []"
| "load_files from_str (((d, f), raw) # fs) =
    (if d = [] \<or> file_extension f \<noteq> Some ''json'' then load_files from_str fs
     else if \<not> utf8_valid raw then Inl CaptureIo
     else case from_str (trim raw) of
       None \<Rightarrow> Inl CaptureJson
     | Some r \<Rightarrow> prepend [r] (load_files from_str fs))"

definition capture_le :: "capture_record \<Rightarrow> capture_record \<Rightarrow> bool" where
  "capture_le a b \<longleftrightarrow>
    cr_ts a < cr_ts b \<or> (cr_ts a = cr_ts b \<and> \<not> bytes_less (cr_capture_id b) (cr_capture_id a))"

definition load_all ::
  "(string \<Rightarrow> capture_record option) \<Rightarrow> capture_store \<Rightarrow> capture_error + capture_record list" where
  "load_all from_str s = map_sum id (sort_by capture_le) (load_files from_str (cs_files s))"

definition stale :: "(string \<Rightarrow> capture_record option) \<Rightarrow> u64 \<Rightarrow> string \<times> string \<Rightarrow> string \<Rightarrow> bool" where
  "stale from_str cutoff name raw \<longleftrightarrow> fst name \<noteq> [] \<and> utf8_valid raw \<and>
    (case from_str (trim raw) of Some r \<Rightarrow> cr_ts r < cutoff | None \<Rightarrow> False)"

definition prune ::
  "(string \<Rightarrow> capture_record option) \<Rightarrow> u64 \<Rightarrow> capture_store \<Rightarrow> capture_store \<times> nat" where
  "prune from_str now s =
    (let cutoff = sat_sub now (of_nat (unat (cs_retention s) * 1000));
         gone = filter (\<lambda>(name, raw). stale from_str cutoff name raw) (cs_files s)
     in (s\<lparr>cs_files := filter (\<lambda>(name, raw). \<not> stale from_str cutoff name raw) (cs_files s)\<rparr>, length gone))"

text \<open>\<open>Path::parent\<close> gives \<open>None\<close> for a path that ends in a root or is empty.\<close>

definition default_capture_dir :: "string option \<Rightarrow> (string \<Rightarrow> string \<Rightarrow> string) \<Rightarrow> string" where
  "default_capture_dir ledger_parent join_path =
    (case ledger_parent of
       Some p \<Rightarrow> if p \<noteq> [] then join_path p ''tailfin-capture'' else ''tailfin-capture''
     | None \<Rightarrow> ''tailfin-capture'')"

section \<open>What the store keeps\<close>

definition capture_json ::
  "(capture_record \<Rightarrow> string option) \<Rightarrow> (string \<Rightarrow> capture_record option) \<Rightarrow> capture_record \<Rightarrow> bool" where
  "capture_json to_str from_str r \<longleftrightarrow>
    (\<exists>s. to_str r = Some s \<and> from_str s = Some r \<and> trim (s @ [CHR 0x0A]) = s \<and> utf8_valid (s @ [CHR 0x0A]))"

fun capture_save_all ::
  "(capture_record \<Rightarrow> string option) \<Rightarrow> capture_record list \<Rightarrow> capture_store \<Rightarrow> capture_store option" where
  "capture_save_all to_str [] s = Some s"
| "capture_save_all to_str (r # rs) s =
    Option.bind (capture_save to_str r s) (capture_save_all to_str rs)"

definition loaded :: "(string \<Rightarrow> capture_record option) \<Rightarrow> (string \<times> string) \<times> string \<Rightarrow> capture_record option" where
  "loaded from_str x =
    (case x of ((d, f), raw) \<Rightarrow>
      if d = [] \<or> file_extension f \<noteq> Some ''json'' \<or> \<not> utf8_valid raw then None else from_str (trim raw))"

definition skipped :: "(string \<times> string) \<times> string \<Rightarrow> bool" where
  "skipped x \<longleftrightarrow> fst (fst x) = [] \<or> file_extension (snd (fst x)) \<noteq> Some ''json''"

lemma load_files_skip: "skipped x \<Longrightarrow> load_files from_str (x # fs) = load_files from_str fs"
  by (cases x; cases "fst x") (auto simp: skipped_def)

lemma load_files_fail:
  "\<not> skipped x \<Longrightarrow> loaded from_str x = None \<Longrightarrow> \<exists>e. load_files from_str (x # fs) = Inl e"
  by (cases x; cases "fst x") (auto simp: skipped_def loaded_def split: if_splits option.splits)

lemma load_files_read:
  "loaded from_str x = Some r \<Longrightarrow> load_files from_str (x # fs) = prepend [r] (load_files from_str fs)"
  by (cases x; cases "fst x") (auto simp: loaded_def split: if_splits option.splits)

lemma loaded_skipped: "skipped x \<Longrightarrow> loaded from_str x = None"
  by (cases x; cases "fst x") (auto simp: skipped_def loaded_def)

lemma prepend_Inr: "prepend a y = Inr zs \<longleftrightarrow> (\<exists>ys. y = Inr ys \<and> zs = a @ ys)"
  by (cases y) auto

lemma load_files_iff:
  "load_files from_str fs = Inr rs \<longleftrightarrow>
    (\<forall>x \<in> set fs. skipped x \<or> loaded from_str x \<noteq> None) \<and> rs = List.map_filter (loaded from_str) fs"
proof (induction fs arbitrary: rs)
  case (Cons x fs)
  show ?case
  proof (cases "loaded from_str x")
    case None
    then show ?thesis
      using Cons load_files_skip [of x from_str fs] load_files_fail [of x from_str fs]
      by (cases "skipped x") (auto simp: map_filter_def)
  next
    case (Some r)
    then show ?thesis
      using Cons load_files_read [OF Some, of fs] by (auto simp: map_filter_def prepend_Inr)
  qed
qed (auto simp: map_filter_def)

lemma capture_le_total: "capture_le a b \<or> capture_le b a"
  using bytes_le_total by (fastforce simp: capture_le_def)

lemma capture_le_trans: "capture_le a b \<Longrightarrow> capture_le b c \<Longrightarrow> capture_le a c"
  using bytes_le_trans [of "cr_capture_id b" "cr_capture_id a" "cr_capture_id c"]
  by (auto simp: capture_le_def)

lemma filter_insert_by:
  assumes "\<And>a b c. le a b \<Longrightarrow> le b c \<Longrightarrow> le a c" "sorted_wrt le ys"
  shows "filter P (insert_by le x ys) = (if P x then insert_by le x (filter P ys) else filter P ys)"
  using assms(2)
proof (induction ys)
  case (Cons y ys)
  show ?case
  proof (cases "le x y")
    case True
    have "insert_by le x zs = x # zs" if "\<forall>z \<in> set zs. le x z" for zs
      using that by (cases zs) simp_all
    moreover have "\<forall>z \<in> set (filter P (y # ys)). le x z"
      using Cons.prems assms(1) True by auto
    ultimately show ?thesis using True by auto
  qed (use Cons in auto)
qed simp

lemma filter_sort_by:
  assumes "\<And>a b. le a b \<or> le b a" "\<And>a b c. le a b \<Longrightarrow> le b c \<Longrightarrow> le a c"
  shows "filter P (sort_by le xs) = sort_by le (filter P xs)"
proof (induction xs)
  case (Cons x xs)
  have "sorted_wrt le (sort_by le xs)" by (rule sorted_sort_by [OF assms])
  with Cons filter_insert_by [OF assms(2), where P = P and x = x] show ?case by (simp add: sort_by_def)
qed (simp add: sort_by_def)

lemma filter_map_filter:
  assumes "\<And>x r. f x = Some r \<Longrightarrow> P x = Q r"
  shows "List.map_filter f (filter P xs) = filter Q (List.map_filter f xs)"
proof (induction xs)
  case (Cons x xs)
  then show ?case using assms [of x] by (cases "f x") (auto simp: map_filter_def)
qed (simp add: map_filter_def)

text \<open>
  C40. Pruning removes exactly the captures older than the retention: if the store can be loaded, then
  after a prune it loads to the captures that are recent enough, in the same order.
\<close>

theorem prune_keeps_recent:
  assumes "load_all from_str s = Inr rs"
  shows "load_all from_str (fst (prune from_str now s)) =
    Inr (filter (\<lambda>r. sat_sub now (of_nat (unat (cs_retention s) * 1000)) \<le> cr_ts r) rs)"
proof -
  define cutoff where "cutoff = sat_sub now (of_nat (unat (cs_retention s) * 1000))"
  let ?fresh = "\<lambda>(name, raw). \<not> stale from_str cutoff name raw"
  obtain qs where qs: "load_files from_str (cs_files s) = Inr qs" "rs = sort_by capture_le qs"
    using assms by (cases "load_files from_str (cs_files s)") (auto simp: load_all_def)
  then have all: "\<forall>x \<in> set (cs_files s). skipped x \<or> loaded from_str x \<noteq> None"
    and q: "qs = List.map_filter (loaded from_str) (cs_files s)"
    by (auto simp: load_files_iff)
  have "?fresh x \<longleftrightarrow> cutoff \<le> cr_ts r" if "loaded from_str x = Some r" for x r
    using that by (cases x; cases "fst x") (auto simp: loaded_def stale_def not_less split: if_splits)
  then have "List.map_filter (loaded from_str) (filter ?fresh fs) =
      filter (\<lambda>r. cutoff \<le> cr_ts r) (List.map_filter (loaded from_str) fs)" for fs
    by (rule filter_map_filter)
  then have "load_files from_str (filter ?fresh (cs_files s)) = Inr (filter (\<lambda>r. cutoff \<le> cr_ts r) qs)"
    using all by (auto simp: load_files_iff q)
  moreover have "cs_files (fst (prune from_str now s)) = filter ?fresh (cs_files s)"
    by (simp add: prune_def Let_def cutoff_def)
  ultimately have "load_all from_str (fst (prune from_str now s)) = Inr (filter (\<lambda>r. cutoff \<le> cr_ts r) rs)"
    by (simp add: load_all_def qs filter_sort_by [OF capture_le_total capture_le_trans])
  then show ?thesis by (simp only: cutoff_def)
qed

definition sample_capture :: "string \<Rightarrow> u64 \<Rightarrow> capture_record" where
  "sample_capture cid ts =
    \<lparr>cr_schema_version = CAPTURE_SCHEMA, cr_capture_id = cid, cr_task_id = ''s'', cr_node = ''s'',
     cr_parent = None, cr_ts = ts, cr_method = ''POST'', cr_path = ''/v1/messages'', cr_model = None,
     cr_message_count = 1, cr_tool_calls = 0, cr_body = ''x''\<rparr>"

definition cap_to_str :: "capture_record \<Rightarrow> string option" where
  "cap_to_str r = Some (if cr_ts r = 0 then ''a'' else ''b'')"

definition cap_from_str :: "string \<Rightarrow> capture_record option" where
  "cap_from_str s =
    (if s = ''a'' then Some (sample_capture ''x'' 0) else if s = ''b'' then Some (sample_capture ''y'' 5000)
     else None)"

theorem prune_keeps_recent_witness:
  "load_all cap_from_str
      (fst (prune cap_from_str 8000
        \<lparr>cs_files = [((''s'', ''x.json''), ''a''), ((''s'', ''y.json''), ''b'')], cs_retention = 5\<rparr>)) =
    Inr [sample_capture ''y'' 5000]"
proof -
  let ?s = "\<lparr>cs_files = [((''s'', ''x.json''), ''a''), ((''s'', ''y.json''), ''b'')], cs_retention = 5\<rparr>"
  have "load_all cap_from_str ?s = Inr [sample_capture ''x'' 0, sample_capture ''y'' 5000]" by code_simp
  from prune_keeps_recent [OF this, of 8000] show ?thesis
    by (simp add: sample_capture_def sat_sub_def)
qed

section \<open>What is saved is loaded\<close>

definition capture_ids :: "capture_record \<Rightarrow> bool" where
  "capture_ids r \<longleftrightarrow> safe_id (cr_task_id r) \<noteq> [] \<and> safe_id (cr_capture_id r) \<noteq> []"

lemma file_extension_json: "n \<noteq> [] \<Longrightarrow> file_extension (n @ ''.json'') = Some ''json''"
  by (auto simp: file_extension_def)

lemma loaded_saved:
  "capture_json to_str from_str r \<Longrightarrow> capture_ids r \<Longrightarrow> to_str r = Some line \<Longrightarrow>
    loaded from_str (capture_file r, line @ [CHR 0x0A]) = Some r"
  by (auto simp: capture_json_def loaded_def capture_file_def capture_ids_def file_extension_json)

lemma not_loaded: "\<not> capture_ids r \<Longrightarrow> skipped (capture_file r, raw)"
  by (auto simp: skipped_def capture_file_def capture_ids_def file_extension_def)

text \<open>The captures that no later one overwrites.\<close>

fun last_saved :: "capture_record list \<Rightarrow> capture_record list" where
  "last_saved [] = []"
| "last_saved (r # rs) = (if capture_file r \<in> capture_file ` set rs then last_saved rs else r # last_saved rs)"

lemma set_last_saved: "set (last_saved rs) \<subseteq> set rs"
  by (induction rs) auto

text \<open>The files a save replaces are gone, the others stay.\<close>

definition other_files :: "capture_record list \<Rightarrow> capture_store \<Rightarrow> ((string \<times> string) \<times> string) list" where
  "other_files rs s = filter (\<lambda>x. fst x \<notin> capture_file ` set rs) (cs_files s)"

lemma mset_hm_insert:
  "hm_wf m \<Longrightarrow> mset (hm_insert k v m) = add_mset (k, v) (mset (filter (\<lambda>x. fst x \<noteq> k) m))"
proof (induction m)
  case (Cons x m)
  have "filter (\<lambda>x. fst x \<noteq> k) m = m" if "fst x = k"
    using Cons.prems that by (intro filter_True) (auto simp: hm_wf_def hm_keys_def image_iff)
  then show ?case
    using Cons by (cases x) (auto simp: hm_wf_def hm_keys_def hm_insert_def simp del: mset_filter)
qed (simp add: hm_insert_def)

definition saved_file :: "(capture_record \<Rightarrow> string option) \<Rightarrow> capture_record \<Rightarrow> (string \<times> string) \<times> string" where
  "saved_file to_str r = (capture_file r, unwrap_or [] (to_str r) @ [CHR 0x0A])"

lemma capture_save_all_files:
  assumes "\<And>r. r \<in> set rs \<Longrightarrow> capture_json to_str from_str r" "hm_wf (cs_files s)"
  shows "\<exists>s'. capture_save_all to_str rs s = Some s' \<and> hm_wf (cs_files s') \<and>
    mset (cs_files s') = mset (map (saved_file to_str) (last_saved rs) @ other_files rs s)"
  using assms
proof (induction rs arbitrary: s)
  case (Cons r rs)
  obtain line where line: "to_str r = Some line"
    using Cons.prems(1) [of r] by (auto simp: capture_json_def)
  let ?s = "s\<lparr>cs_files := hm_insert (capture_file r) (line @ [CHR 0x0A]) (cs_files s)\<rparr>"
  have "\<exists>s'. capture_save_all to_str rs ?s = Some s' \<and> hm_wf (cs_files s') \<and>
      mset (cs_files s') = mset (map (saved_file to_str) (last_saved rs) @ other_files rs ?s)"
    using Cons.prems by (intro Cons.IH) (simp_all add: hm_wf_insert)
  moreover have "mset (other_files rs ?s) =
      (if capture_file r \<in> capture_file ` set rs then {#} else {#saved_file to_str r#}) +
      mset (other_files (r # rs) s)"
    using mset_hm_insert [OF Cons.prems(2), of "capture_file r" "line @ [CHR 0x0A]"] line
    by (auto simp: other_files_def saved_file_def filter_filter_mset conj_commute intro!: filter_mset_cong)
  ultimately show ?case using line by (auto simp: capture_save_def)
qed (simp add: other_files_def)

lemma mset_map_filter: "mset xs = mset ys \<Longrightarrow> mset (List.map_filter f xs) = mset (List.map_filter f ys)"
  by (simp add: List.map_filter_def)

text \<open>
  C38. What is captured is what replay reads. Saving captures into a store that loads, whatever it holds,
  succeeds and gives a store that loads, oldest capture first and by id at equal times. It loads to the
  captures it had, but for those whose file was written again, and to the saved ones that no later save
  overwrote; of these, a capture whose task id or capture id is empty is written and never read again.
\<close>

theorem captures_roundtrip:
  assumes "\<And>r. r \<in> set rs \<Longrightarrow> capture_json to_str from_str r"
    and "hm_wf (cs_files s)" "load_all from_str s = Inr qs"
  shows "\<exists>s' qs'. capture_save_all to_str rs s = Some s' \<and> load_all from_str s' = Inr qs' \<and>
    sorted_wrt capture_le qs' \<and>
    mset qs' = mset (filter capture_ids (last_saved rs)) +
      mset (List.map_filter (loaded from_str) (other_files rs s))"
proof -
  let ?fs = "map (saved_file to_str) (last_saved rs) @ other_files rs s"
  obtain s' where s': "capture_save_all to_str rs s = Some s'" "mset (cs_files s') = mset ?fs"
    using capture_save_all_files [OF assms(1,2)] by blast
  have saved: "(capture_ids r \<longrightarrow> loaded from_str (saved_file to_str r) = Some r) \<and>
      (\<not> capture_ids r \<longrightarrow> skipped (saved_file to_str r))" if "r \<in> set (last_saved rs)" for r
  proof -
    have "capture_json to_str from_str r" using that assms(1) set_last_saved by blast
    moreover from this obtain line where "to_str r = Some line" by (auto simp: capture_json_def)
    ultimately show ?thesis using loaded_saved not_loaded by (simp add: saved_file_def)
  qed
  have "List.map_filter (loaded from_str) (map (saved_file to_str) rs') = filter capture_ids rs'"
    if "set rs' \<subseteq> set (last_saved rs)" for rs'
    using that saved loaded_skipped by (induction rs') (auto simp: map_filter_def)
  then have "List.map_filter (loaded from_str) ?fs =
      filter capture_ids (last_saved rs) @ List.map_filter (loaded from_str) (other_files rs s)"
    by (simp add: map_filter_def)
  note read = this
  obtain rs0 where "load_files from_str (cs_files s) = Inr rs0"
    using assms(3) by (cases "load_files from_str (cs_files s)") (auto simp: load_all_def)
  then have "\<forall>x \<in> set (other_files rs s). skipped x \<or> loaded from_str x \<noteq> None"
    by (simp add: load_files_iff other_files_def)
  moreover have "skipped (saved_file to_str r) \<or> loaded from_str (saved_file to_str r) \<noteq> None"
    if "r \<in> set (last_saved rs)" for r
    using saved [OF that] by (cases "capture_ids r") simp_all
  ultimately have "\<forall>x \<in> set (cs_files s'). skipped x \<or> loaded from_str x \<noteq> None"
    unfolding mset_eq_setD [OF s'(2)] set_append set_map by blast
  then have load: "load_files from_str (cs_files s') = Inr (List.map_filter (loaded from_str) (cs_files s'))"
    by (auto simp: load_files_iff)
  show ?thesis
    using read load s'(1) mset_map_filter [OF s'(2), of "loaded from_str"]
      sorted_sort_by [of capture_le, OF capture_le_total capture_le_trans]
    by (auto simp: load_all_def mset_sort_by)
qed

lemma capture_jsonI:
  "to_str r = Some s \<Longrightarrow> from_str s = Some r \<Longrightarrow> trim (s @ [CHR 0x0A]) = s \<Longrightarrow> utf8_valid (s @ [CHR 0x0A]) \<Longrightarrow>
    capture_json to_str from_str r"
  by (auto simp: capture_json_def)

lemma sample_captures_ok:
  "capture_json cap_to_str cap_from_str (sample_capture ''x'' 0)"
  "capture_json cap_to_str cap_from_str (sample_capture ''y'' 5000)"
  by (rule capture_jsonI [of _ _ "''a''"];
      (code_simp | simp add: cap_to_str_def cap_from_str_def sample_capture_def; fail))
    (rule capture_jsonI [of _ _ "''b''"];
      (code_simp | simp add: cap_to_str_def cap_from_str_def sample_capture_def; fail))

text \<open>A store with one capture, whose file the first of three saves replaces, and the third again.\<close>

theorem captures_roundtrip_witness:
  "\<exists>s' qs'. capture_save_all cap_to_str [sample_capture ''x'' 0, sample_capture ''y'' 5000, sample_capture ''x'' 0]
      \<lparr>cs_files = [((''s'', ''x.json''), ''b''), ((''t'', ''z.json''), ''b'')], cs_retention = 5\<rparr> = Some s' \<and>
    load_all cap_from_str s' = Inr qs' \<and> sorted_wrt capture_le qs' \<and>
    mset qs' = {#sample_capture ''x'' 0, sample_capture ''y'' 5000, sample_capture ''y'' 5000#}"
proof -
  let ?rs = "[sample_capture ''x'' 0, sample_capture ''y'' 5000, sample_capture ''x'' 0]"
  let ?s = "\<lparr>cs_files = [((''s'', ''x.json''), ''b''), ((''t'', ''z.json''), ''b'')], cs_retention = 5\<rparr>"
  have "filter capture_ids (last_saved ?rs) = [sample_capture ''y'' 5000, sample_capture ''x'' 0]"
    "List.map_filter (loaded cap_from_str) (other_files ?rs ?s) = [sample_capture ''y'' 5000]"
    "hm_wf (cs_files ?s)"
    "load_all cap_from_str ?s = Inr [sample_capture ''y'' 5000, sample_capture ''y'' 5000]"
    by code_simp+
  moreover have "\<exists>s' qs'. capture_save_all cap_to_str ?rs ?s = Some s' \<and> load_all cap_from_str s' = Inr qs' \<and>
      sorted_wrt capture_le qs' \<and> mset qs' = mset (filter capture_ids (last_saved ?rs)) +
        mset (List.map_filter (loaded cap_from_str) (other_files ?rs ?s))"
    by (rule captures_roundtrip) (use calculation(3,4) sample_captures_ok in auto)
  ultimately show ?thesis by (simp add: add_mset_commute)
qed

text \<open>
  A session whose id is empty is captured into the root of the store, where loading does not look: its
  captures are written, and replay never sees them.
\<close>

lemma empty_session_captures_are_unread:
  assumes "capture_json to_str from_str r" "cr_task_id r = []"
  shows "\<exists>s. capture_save_all to_str [r] \<lparr>cs_files = [], cs_retention = ret\<rparr> = Some s \<and>
    cs_files s \<noteq> [] \<and> load_all from_str s = Inr []"
proof -
  obtain line where "to_str r = Some line" using assms(1) by (auto simp: capture_json_def)
  then show ?thesis
    using assms(2) by (simp add: capture_save_def hm_insert_def load_all_def capture_file_def safe_id_def sort_by_def)
qed

text \<open>
  Two captures whose task and capture ids agree once made safe for a file name share a file: the
  second save destroys the first, and only the second is ever loaded.
\<close>

lemma colliding_capture_is_lost:
  assumes "capture_file a = capture_file b" "capture_json to_str from_str a"
    "capture_json to_str from_str b" "capture_ids b"
  shows "\<exists>s. capture_save_all to_str [a, b] \<lparr>cs_files = [], cs_retention = ret\<rparr> = Some s \<and>
    load_all from_str s = Inr [b]"
proof -
  obtain x y where "to_str a = Some x" and y: "to_str b = Some y"
    using assms(2,3) by (auto simp: capture_json_def)
  moreover have "load_files from_str [(capture_file b, y @ [CHR 0x0A])] = Inr [b]"
    using loaded_saved [OF assms(3,4) y] by (simp add: load_files_iff map_filter_def)
  ultimately show ?thesis
    using assms(1) by (simp add: capture_save_def hm_insert_def load_all_def sort_by_def)
qed

text \<open>Ids that differ only in a byte the file name cannot hold.\<close>

definition clash_capture :: "string \<Rightarrow> capture_record" where
  "clash_capture cid = (sample_capture cid 7)\<lparr>cr_task_id := ''t''\<rparr>"

definition clash_to_str :: "capture_record \<Rightarrow> string option" where
  "clash_to_str r = Some (cr_capture_id r)"

definition clash_from_str :: "string \<Rightarrow> capture_record option" where
  "clash_from_str s = Some (clash_capture s)"

lemma colliding_capture_is_lost_witness:
  "clash_capture ''a.b'' \<noteq> clash_capture ''a/b'' \<and>
    (\<exists>s. capture_save_all clash_to_str [clash_capture ''a.b'', clash_capture ''a/b'']
        \<lparr>cs_files = [], cs_retention = 5\<rparr> = Some s \<and>
      load_all clash_from_str s = Inr [clash_capture ''a/b''])"
proof -
  have "capture_file (clash_capture ''a.b'') = capture_file (clash_capture ''a/b'')" by code_simp
  moreover have "capture_json clash_to_str clash_from_str (clash_capture c)" if "c \<in> {''a.b'', ''a/b''}" for c
  proof -
    have "trim (c @ [CHR 0x0A]) = c" "utf8_valid (c @ [CHR 0x0A])"
      using that by (elim insertE emptyE; clarsimp; code_simp)+
    then show ?thesis
      by (simp add: capture_json_def clash_to_str_def clash_from_str_def clash_capture_def sample_capture_def)
  qed
  moreover have "capture_ids (clash_capture ''a/b'')" by code_simp
  moreover have "clash_capture ''a.b'' \<noteq> clash_capture ''a/b''"
    by (simp add: clash_capture_def sample_capture_def)
  ultimately show ?thesis
    using colliding_capture_is_lost [of "clash_capture ''a.b''" "clash_capture ''a/b''" clash_to_str
        clash_from_str 5] by blast
qed

section \<open>The retention option\<close>

lemma digit_not_alphabetic: "is_ascii_digit c \<Longrightarrow> \<not> is_ascii_alphabetic c"
  by (auto simp: is_ascii_digit_def is_ascii_alphabetic_def Let_def)

lemma ws_not_alphanumeric: "ws_first c \<or> ws_last c \<Longrightarrow> \<not> is_ascii_alphanumeric c"
  by (auto simp: ws_first_def ws_last_def white_space_def is_ascii_alphanumeric_def is_ascii_alphabetic_def
      is_ascii_digit_def)

lemma alphanumeric_trimmed: "list_all is_ascii_alphanumeric s \<Longrightarrow> trimmed s"
  using ws_not_alphanumeric [of "hd s"] ws_not_alphanumeric [of "last s"] hd_in_set [of s] last_in_set [of s]
  by (auto simp: trimmed_def list_all_iff)

text \<open>A number of seconds, minutes, hours or days, days when no unit is written, wrapped to 64 bits.\<close>

lemma parse_retention_unit:
  assumes "n < 2 ^ 64" "(u, k) \<in> {(''s'', 1), (''m'', 60), (''h'', 3600), (''d'', 86400), ([], 86400)}"
  shows "parse_retention (show_nat n @ u) = Inr (of_nat n * k)"
proof -
  have digits: "\<forall>c \<in> set (show_nat n). \<not> is_ascii_alphabetic c"
    using show_nat_digits [of n] digit_not_alphabetic by (auto simp: list_all_iff)
  have u: "list_all is_ascii_alphabetic u" using assms(2) by (auto simp: is_ascii_alphabetic_def Let_def)
  have "list_all is_ascii_alphanumeric (show_nat n @ u)"
    using show_nat_digits [of n] u by (auto simp: list_all_iff is_ascii_alphanumeric_def)
  then have "trim (show_nat n @ u) = show_nat n @ u" by (intro trim_trimmed alphanumeric_trimmed)
  moreover have "(case find_pred (show_nat n @ u) is_ascii_alphabetic of Some i \<Rightarrow> i
      | None \<Rightarrow> length (show_nat n @ u)) = length (show_nat n)"
    using digits u by (cases u) (auto simp: find_pred_append find_pred_None [THEN iffD2])
  ultimately show ?thesis
    using parse_show_u64 [OF assms(1)] assms(2) by (auto simp: parse_retention_def Let_def)
qed

end
