(* ===== verification/Ledger_Replay.thy ===== *)
theory Ledger_Replay
  imports Ledger_Capture
begin

text \<open>
  Shadow replay (\<open>crates/tailfin-ledger/src/replay.rs\<close>): sampling captures, submitting them to a
  batch transport, scoring the outputs and collapsing the rows into a table by shape and model. The
  transport is a parameter, as the trait \<open>BatchSink\<close> makes it; \<open>StubBatch\<close> is the one in the file.
  Counts of rows and of samples (\<open>usize\<close>) count elements in memory and are \<open>nat\<close>.
\<close>

section \<open>BTreeMap\<close>

text \<open>
  A \<open>BTreeMap\<close> is an association list sorted by key. \<open>bt_entry\<close> is
  \<open>entry(k).and_modify(f).or_insert(v)\<close>.
\<close>

fun bt_entry :: "('k \<Rightarrow> 'k \<Rightarrow> bool) \<Rightarrow> 'k \<Rightarrow> ('v \<Rightarrow> 'v) \<Rightarrow> 'v \<Rightarrow> ('k \<times> 'v) list \<Rightarrow> ('k \<times> 'v) list" where
  "bt_entry lt k f v [] = [(k, v)]"
| "bt_entry lt k f v ((k', v') # m) =
    (if k' = k then (k', f v') # m
     else if lt k k' then (k, v) # (k', v') # m
     else (k', v') # bt_entry lt k f v m)"

text \<open>What a map with ordered keys promises for a strict total order of the keys.\<close>

locale btree_map =
  fixes lt :: "'k \<Rightarrow> 'k \<Rightarrow> bool"
  assumes lt_irrefl: "\<not> lt a a"
    and lt_trans: "lt a b \<Longrightarrow> lt b c \<Longrightarrow> lt a c"
    and lt_total: "a = b \<or> lt a b \<or> lt b a"
begin

definition bt_wf :: "('k \<times> 'v) list \<Rightarrow> bool" where
  "bt_wf m \<longleftrightarrow> sorted_wrt lt (map fst m)"

lemma bt_wf_Nil: "bt_wf []"
  by (simp add: bt_wf_def)

lemma bt_entry_keys: "fst ` set (bt_entry lt k f v m) = insert k (fst ` set m)"
proof (induction m)
  case (Cons p m)
  then show ?case by (cases p) (simp add: insert_commute)
qed simp

lemma bt_wf_entry: "bt_wf m \<Longrightarrow> bt_wf (bt_entry lt k f v m)"
proof (induction m)
  case (Cons p m)
  obtain k' v' where p: "p = (k', v')" by (cases p)
  consider "k' = k" | "k' \<noteq> k" "lt k k'" | "k' \<noteq> k" "\<not> lt k k'" "lt k' k" using lt_total by blast
  then show ?case
  proof cases
    case 3
    have "bt_wf m" using Cons.prems by (simp add: bt_wf_def p)
    then have "bt_wf (bt_entry lt k f v m)" by (rule Cons.IH)
    moreover have "\<forall>x \<in> set (map fst (bt_entry lt k f v m)). lt k' x"
      using Cons.prems 3 bt_entry_keys [of k f v m] by (auto simp: bt_wf_def p)
    ultimately show ?thesis using 3 by (simp add: bt_wf_def p)
  qed (use Cons.prems lt_trans in \<open>auto simp: bt_wf_def p\<close>)
qed (simp add: bt_wf_def)

lemma bt_get_entry:
  "bt_wf m \<Longrightarrow>
    map_of (bt_entry lt k f v m) k' =
      (if k' = k then Some (case map_of m k of Some w \<Rightarrow> f w | None \<Rightarrow> v) else map_of m k')"
proof (induction m)
  case (Cons p m)
  obtain k1 v1 where p: "p = (k1, v1)" by (cases p)
  have absent: "map_of m k = None" if "lt k k1"
  proof -
    have "lt k x" if "x \<in> fst ` set m" for x
      using Cons.prems that lt_trans [OF \<open>lt k k1\<close>] by (auto simp: bt_wf_def p)
    then show ?thesis using lt_irrefl by (auto simp: map_of_eq_None_iff)
  qed
  show ?case using Cons absent by (auto simp: p bt_wf_def)
qed simp

lemma bt_wf_distinct: "bt_wf m \<Longrightarrow> distinct (map fst m)"
  unfolding bt_wf_def using lt_irrefl by (induction m) auto

lemma bt_in_set: "bt_wf m \<Longrightarrow> (k, v) \<in> set m \<longleftrightarrow> map_of m k = Some v"
  using bt_wf_distinct by fastforce

end

interpretation text_keys: btree_map bytes_less
  by unfold_locales (use bytes_less_irrefl bytes_less_trans bytes_less_total in blast)+

text \<open>A row's key: the pair of its shape and its model, ordered by components.\<close>

definition key_less :: "string \<times> string \<Rightarrow> string \<times> string \<Rightarrow> bool" where
  "key_less a b \<longleftrightarrow> bytes_less (fst a) (fst b) \<or> (fst a = fst b \<and> bytes_less (snd a) (snd b))"

interpretation row_keys: btree_map key_less
proof
  show "\<not> key_less a a" for a by (simp add: key_less_def bytes_less_irrefl)
  show "key_less a b \<Longrightarrow> key_less b c \<Longrightarrow> key_less a c" for a b c
    using bytes_less_trans by (auto simp: key_less_def)
  show "a = b \<or> key_less a b \<or> key_less b a" for a b
    using bytes_less_total by (cases a; cases b) (auto simp: key_less_def)
qed

section \<open>Scores\<close>

datatype score = Native bool string | Judge string

fun survival_cell :: "score \<Rightarrow> string" where
  "survival_cell (Native True c) = ''survived''"
| "survival_cell (Native False c) = ''died''"
| "survival_cell (Judge b) = ''unscored''"

fun confidence_cell :: "score \<Rightarrow> string" where
  "confidence_cell (Native True c) = ''high ('' @ c @ '')''"
| "confidence_cell (Native False c) = ''low ('' @ c @ '')''"
| "confidence_cell (Judge b) = b"

definition detect_native :: "string \<Rightarrow> string option" where
  "detect_native body =
    (let b = to_ascii_lowercase body in
     if contains b ''#[test]'' \<or> contains b ''cargo test'' then Some ''tests pass''
     else if contains b ''fn main'' \<or> contains b ''cargo build'' then Some ''compiles''
     else if contains b ''diff --git'' \<or> contains b ''```diff'' then Some ''diff applies''
     else None)"

definition score_output :: "string \<Rightarrow> string \<Rightarrow> score" where
  "score_output body output =
    (case detect_native body of
       Some check \<Rightarrow>
         Native
           (if check = ''tests pass'' then
              contains output ''test result: ok'' \<or>
              (contains output ''ok'' \<and> \<not> contains (to_ascii_uppercase output) ''FAILED'')
            else if check = ''compiles'' then
              \<not> contains (to_ascii_lowercase output) ''error:'' \<and>
              (contains output ''fn '' \<or> contains output ''compiled'')
            else if check = ''diff applies'' then contains output ''diff'' \<or> contains output ''@@''
            else False) check
     | None \<Rightarrow>
         Judge
           (if trim output = [] then ''judge disagreement''
            else if 20 < length output then ''judge agreement''
            else ''judge weak agreement''))"

section \<open>Replay\<close>

record replay_opts =
  ro_sample :: nat
  ro_models :: "string list"
  ro_since_ms :: "u64 option"

definition replay_opts_default :: replay_opts where
  "replay_opts_default = \<lparr>ro_sample = 20, ro_models = [''haiku''], ro_since_ms = None\<rparr>"

record replay_output =
  ro_text :: string
  ro_cost_micros :: u64

record replay_row =
  rr_shape :: string
  rr_n :: nat
  rr_model :: string
  rr_cost_micros :: u64
  rr_score :: score

type_synonym batch_sink = "string \<Rightarrow> string \<Rightarrow> string + replay_output"

record stub_batch =
  sb_text_for_model :: "(string \<times> string) list"
  sb_cost_micros :: u64

definition stub_batch_default :: stub_batch where
  "stub_batch_default =
    \<lparr>sb_text_for_model =
       bt_entry bytes_less ''sonnet'' (\<lambda>_. ''fn main() { println!('' @ [CHR 0x22] @ ''ok'' @ [CHR 0x22] @ ''); }'' @ nl)
         (''fn main() { println!('' @ [CHR 0x22] @ ''ok'' @ [CHR 0x22] @ ''); }'' @ nl)
         (bt_entry bytes_less ''haiku'' (\<lambda>_. ''fn main() {}'' @ nl) (''fn main() {}'' @ nl) []),
     sb_cost_micros = 1000\<rparr>"

definition stub_submit :: "stub_batch \<Rightarrow> batch_sink" where
  "stub_submit b model body =
    Inr \<lparr>ro_text = (case map_of (sb_text_for_model b) model of
            Some text \<Rightarrow> text | None \<Rightarrow> ''(stub '' @ model @ '')''),
         ro_cost_micros = sb_cost_micros b\<rparr>"

definition sample_captures :: "capture_record list \<Rightarrow> replay_opts \<Rightarrow> capture_record list" where
  "sample_captures recs opts =
    take (ro_sample opts)
      (sort_by (\<lambda>a b. cr_ts b \<le> cr_ts a)
        (filter (\<lambda>r. case ro_since_ms opts of Some s \<Rightarrow> s \<le> cr_ts r | None \<Rightarrow> True) recs))"

definition replay_one :: "batch_sink \<Rightarrow> capture_record \<Rightarrow> string \<Rightarrow> replay_row" where
  "replay_one batch r model =
    (case batch model (cr_body r) of
       Inr out \<Rightarrow>
         \<lparr>rr_shape = shape r, rr_n = 1, rr_model = model, rr_cost_micros = ro_cost_micros out,
          rr_score = score_output (cr_body r) (ro_text out)\<rparr>
     | Inl e \<Rightarrow>
         \<lparr>rr_shape = shape r, rr_n = 1, rr_model = model, rr_cost_micros = 0,
          rr_score = Judge (''judge disagreement ('' @ e @ '')'')\<rparr>)"

definition replay_rows :: "capture_record list \<Rightarrow> replay_opts \<Rightarrow> batch_sink \<Rightarrow> replay_row list" where
  "replay_rows recs opts batch =
    concat (map (\<lambda>r. map (replay_one batch r) (ro_models opts)) (sample_captures recs opts))"

definition row_key :: "replay_row \<Rightarrow> string \<times> string" where
  "row_key r = (rr_shape r, rr_model r)"

definition merge_row :: "replay_row \<Rightarrow> replay_row \<Rightarrow> replay_row" where
  "merge_row row e =
    e\<lparr>rr_n := rr_n e + 1, rr_cost_micros := sat_add (rr_cost_micros e) (rr_cost_micros row)\<rparr>"

definition collapse_map :: "replay_row list \<Rightarrow> ((string \<times> string) \<times> replay_row) list" where
  "collapse_map rows = fold (\<lambda>row. bt_entry key_less (row_key row) (merge_row row) row) rows []"

definition collapse :: "replay_row list \<Rightarrow> replay_row list" where
  "collapse rows = map snd (collapse_map rows)"

definition replay :: "capture_record list \<Rightarrow> replay_opts \<Rightarrow> batch_sink \<Rightarrow> replay_row list" where
  "replay recs opts batch = collapse (replay_rows recs opts batch)"

definition render_table :: "replay_row list \<Rightarrow> string" where
  "render_table rows =
    ''shape            n  model            cost      survival  confidence'' @ nl @
    (if rows = [] then ''(no captured tasks)'' @ nl
     else concat (map (\<lambda>r.
       pad_right_chars 16 (rr_shape r) @ '' '' @ pad_left (CHR '' '') 2 (show_nat (rr_n r)) @ ''  '' @
       pad_right_chars 16 (rr_model r) @ '' $'' @ pad_right_chars 8 (dollars (rr_cost_micros r)) @ '' '' @
       pad_right_chars 9 (survival_cell (rr_score r)) @ '' '' @ confidence_cell (rr_score r) @ nl) rows))"

section \<open>What the table says\<close>

lemma row_key_merge [simp]: "row_key (merge_row r e) = row_key e"
  by (simp add: row_key_def merge_row_def)

definition rows_of :: "string \<times> string \<Rightarrow> replay_row list \<Rightarrow> replay_row list" where
  "rows_of k rows = filter (\<lambda>r. row_key r = k) rows"

definition merged :: "replay_row list \<Rightarrow> replay_row option" where
  "merged rows =
    (case rows of [] \<Rightarrow> None
     | r # rs \<Rightarrow> Some (r\<lparr>rr_n := rr_n r + length rs,
         rr_cost_micros := foldl sat_add (rr_cost_micros r) (map rr_cost_micros rs)\<rparr>))"

lemma merged_snoc:
  "merged (rows @ [r]) = Some (case merged rows of Some e \<Rightarrow> merge_row r e | None \<Rightarrow> r)"
  by (cases rows) (simp_all add: merged_def merge_row_def)

lemma collapse_map_snoc:
  "collapse_map (rows @ [r]) = bt_entry key_less (row_key r) (merge_row r) r (collapse_map rows)"
  by (simp add: collapse_map_def)

lemma collapse_map_wf: "row_keys.bt_wf (collapse_map rows)"
  by (induction rows rule: rev_induct)
    (simp_all add: collapse_map_snoc row_keys.bt_wf_entry, simp add: collapse_map_def row_keys.bt_wf_Nil)

lemma collapse_map_get: "map_of (collapse_map rows) k = merged (rows_of k rows)"
proof (induction rows rule: rev_induct)
  case Nil
  show ?case by (simp add: collapse_map_def rows_of_def merged_def)
next
  case (snoc r rows)
  then show ?case
    by (cases "row_key r = k")
      (auto simp: collapse_map_snoc row_keys.bt_get_entry [OF collapse_map_wf] rows_of_def merged_snoc)
qed

lemma merged_key: "merged (rows_of k rows) = Some e \<Longrightarrow> row_key e = k"
  by (cases "rows_of k rows") (auto simp: merged_def row_key_def rows_of_def filter_eq_Cons_iff)

lemma collapse_map_keyed: "(k, e) \<in> set (collapse_map rows) \<Longrightarrow> row_key e = k"
  using row_keys.bt_in_set [OF collapse_map_wf] merged_key by (simp add: collapse_map_get)

lemma collapse_keys: "map row_key (collapse rows) = map fst (collapse_map rows)"
  using collapse_map_keyed by (auto simp: collapse_def)

lemma collapse_distinct: "distinct (collapse rows)"
  using row_keys.bt_wf_distinct [OF collapse_map_wf [of rows]] distinct_map [of row_key]
  by (simp flip: collapse_keys)

text \<open>
  The table has one row for every shape and model that was replayed, in the order of the keys.
  The row counts the outcomes of that shape and model and adds up their costs, saturating, but its
  score is the score of the first of them alone.
\<close>

lemma collapse_rows:
  "sorted_wrt (\<lambda>a b. key_less (row_key a) (row_key b)) (collapse rows) \<and>
    (\<forall>e. e \<in> set (collapse rows) \<longleftrightarrow> merged (rows_of (row_key e) rows) = Some e)"
proof
  show "sorted_wrt (\<lambda>a b. key_less (row_key a) (row_key b)) (collapse rows)"
    using collapse_map_wf [of rows] by (simp add: row_keys.bt_wf_def sorted_wrt_map flip: collapse_keys)
  have "e \<in> set (collapse rows) \<longleftrightarrow> (row_key e, e) \<in> set (collapse_map rows)" for e
    using collapse_map_keyed by (force simp: collapse_def)
  then show "\<forall>e. e \<in> set (collapse rows) \<longleftrightarrow> merged (rows_of (row_key e) rows) = Some e"
    by (simp add: row_keys.bt_in_set [OF collapse_map_wf] collapse_map_get)
qed

lemma sort_by_sorted: "sorted_wrt le xs \<Longrightarrow> sort_by le xs = xs"
proof (induction xs)
  case (Cons x xs)
  then show ?case by (cases xs) (auto simp: sort_by_def)
qed (simp add: sort_by_def)

text \<open>
  The sample is the most recent captures: at most \<open>sample\<close> of those since the given time, newest
  first, none of them older than one left out.
\<close>

lemma sample_is_most_recent:
  fixes recs opts
  defines "recent \<equiv> filter (\<lambda>r. case ro_since_ms opts of Some s \<Rightarrow> s \<le> cr_ts r | None \<Rightarrow> True) recs"
  shows "\<exists>rest. mset (sample_captures recs opts) + mset rest = mset recent \<and>
    sorted_wrt (\<lambda>a b. cr_ts b \<le> cr_ts a) (sample_captures recs opts @ rest) \<and>
    length (sample_captures recs opts) = min (ro_sample opts) (length recent)"
proof -
  let ?le = "\<lambda>a b. cr_ts b \<le> cr_ts a"
  let ?s = "sort_by ?le recent"
  have "sample_captures recs opts @ drop (ro_sample opts) ?s = ?s"
    by (simp add: sample_captures_def recent_def)
  moreover have "sorted_wrt ?le ?s" by (rule sorted_sort_by) auto
  moreover have "mset (sample_captures recs opts) + mset (drop (ro_sample opts) ?s) = mset recent"
    using calculation(1) by (metis mset_append mset_sort_by)
  moreover have "length ?s = length recent" by (metis mset_sort_by size_mset)
  then have "length (sample_captures recs opts) = min (ro_sample opts) (length recent)"
    by (simp add: sample_captures_def recent_def min.commute)
  ultimately show ?thesis by (intro exI [of _ "drop (ro_sample opts) ?s"]) auto
qed

lemma groups_cover:
  assumes "distinct ks" "f ` set xs \<subseteq> set ks"
  shows "(\<Sum>k\<leftarrow>ks. length (filter (\<lambda>x. f x = k) xs)) = length xs"
  using assms(2)
proof (induction xs)
  case (Cons x xs)
  have "(\<Sum>k\<leftarrow>ks. length (filter (\<lambda>y. f y = k) (x # xs))) =
      (\<Sum>k\<leftarrow>ks. if k = f x then 1 else 0) + (\<Sum>k\<leftarrow>ks. length (filter (\<lambda>y. f y = k) xs))"
    unfolding sum_list_addf [symmetric] by (intro arg_cong [where f = sum_list] map_cong) auto
  moreover have "(\<Sum>k\<leftarrow>ks. if k = f x then 1 else 0) = (1 :: nat)"
    using Cons.prems assms(1) by (simp add: sum_list_distinct_conv_sum_set)
  ultimately show ?case using Cons by simp
qed simp

lemma merged_own:
  assumes "merged own = Some e" "\<forall>s \<in> set own. rr_n s = 1"
  shows "rr_n e = length own \<and> unat (rr_cost_micros e) = min (\<Sum>s\<leftarrow>own. unat (rr_cost_micros s)) (2 ^ 64 - 1) \<and>
    rr_score e = rr_score (hd own)"
  using assms by (cases own) (auto simp: merged_def foldl_sat_add comp_def)

lemma collapse_covers: "row_key ` set (collapse rows) = row_key ` set rows"
proof -
  have "k \<in> row_key ` set (collapse rows) \<longleftrightarrow> merged (rows_of k rows) \<noteq> None" for k
  proof
    assume "k \<in> row_key ` set (collapse rows)"
    then show "merged (rows_of k rows) \<noteq> None" using collapse_rows [of rows] by auto
  next
    assume "merged (rows_of k rows) \<noteq> None"
    then obtain e where "merged (rows_of k rows) = Some e" by blast
    moreover from this have "row_key e = k" by (rule merged_key)
    ultimately show "k \<in> row_key ` set (collapse rows)" using collapse_rows [of rows] by blast
  qed
  moreover have "merged (rows_of k rows) \<noteq> None \<longleftrightarrow> k \<in> row_key ` set rows" for k
    by (cases "rows_of k rows") (auto simp: merged_def rows_of_def filter_empty_conv dest!: filter_eq_ConsD)
  ultimately show ?thesis by blast
qed

lemma replay_one_key: "row_key (replay_one batch r m) = (shape r, m)"
  by (simp add: row_key_def replay_one_def split: sum.split)

text \<open>The first submission for a key is of the newest sampled capture of its shape.\<close>

lemma first_submission_newest:
  assumes "sorted_wrt (\<lambda>a b. cr_ts b \<le> cr_ts a) rs" "k \<in> row_key ` set [replay_one batch r m. r \<leftarrow> rs, m \<leftarrow> ms]"
  shows "\<exists>r \<in> set rs. shape r = fst k \<and> (\<forall>r' \<in> set rs. shape r' = fst k \<longrightarrow> cr_ts r' \<le> cr_ts r) \<and>
    hd (filter (\<lambda>s. row_key s = k) [replay_one batch r m. r \<leftarrow> rs, m \<leftarrow> ms]) = replay_one batch r (snd k)"
  using assms
proof (induction rs)
  case (Cons r rs)
  let ?own = "filter (\<lambda>s. row_key s = k) (map (replay_one batch r) ms)"
  have model: "snd k \<in> set ms" using Cons.prems(2) by (auto simp: replay_one_key)
  show ?case
  proof (cases "shape r = fst k")
    case True
    have "?own = replicate (length ?own) (replay_one batch r (snd k))"
      by (rule replicate_length_same [symmetric]) (auto simp: replay_one_key)
    moreover have "?own \<noteq> []" using True model by (cases k) (auto simp: filter_empty_conv replay_one_key)
    ultimately have "hd ?own = replay_one batch r (snd k)" by (metis hd_replicate length_0_conv)
    then show ?thesis using True Cons.prems(1) \<open>?own \<noteq> []\<close> by auto
  next
    case False
    then have "?own = []" by (auto simp: filter_empty_conv replay_one_key)
    moreover have "k \<in> row_key ` set [replay_one batch r m. r \<leftarrow> rs, m \<leftarrow> ms]"
      using Cons.prems(2) False by (auto simp: replay_one_key image_iff)
    ultimately show ?thesis using Cons.IH Cons.prems(1) False by auto
  qed
qed simp

text \<open>
  C39. The table of a replay accounts for every submission: one row for each shape and model that was
  submitted, in the order of the keys; the rows count all pairs of a sampled capture and a model, each
  row those of its key, and add up their costs, saturating. The sample is the most recent captures of
  the window, as many as were asked for. The score of a row is that of one submission alone, the one of
  the newest sampled capture of its shape.
\<close>

theorem replay_counts_every_submission:
  "let sample = sample_captures recs opts;
       recent = filter (\<lambda>r. case ro_since_ms opts of Some s \<Rightarrow> s \<le> cr_ts r | None \<Rightarrow> True) recs;
       subs = [replay_one batch r m. r \<leftarrow> sample, m \<leftarrow> ro_models opts];
       table = replay recs opts batch
   in sorted_wrt (\<lambda>a b. key_less (row_key a) (row_key b)) table \<and>
      row_key ` set table = row_key ` set subs \<and>
      (\<Sum>e\<leftarrow>table. rr_n e) = length sample * length (ro_models opts) \<and>
      length sample = min (ro_sample opts) (length recent) \<and>
      (\<exists>rest. mset (sample @ rest) = mset recent \<and> sorted_wrt (\<lambda>a b. cr_ts b \<le> cr_ts a) (sample @ rest)) \<and>
      (\<forall>e \<in> set table. let own = filter (\<lambda>s. row_key s = row_key e) subs in
        rr_n e = length own \<and> unat (rr_cost_micros e) = min (\<Sum>s\<leftarrow>own. unat (rr_cost_micros s)) (2 ^ 64 - 1) \<and>
        rr_score e = rr_score (hd own) \<and>
        (\<exists>r \<in> set sample. shape r = fst (row_key e) \<and>
          (\<forall>r' \<in> set sample. shape r' = fst (row_key e) \<longrightarrow> cr_ts r' \<le> cr_ts r) \<and>
          hd own = replay_one batch r (snd (row_key e))))"
proof -
  let ?subs = "[replay_one batch r m. r \<leftarrow> sample_captures recs opts, m \<leftarrow> ro_models opts]"
  let ?table = "replay recs opts batch"
  have table: "?table = collapse ?subs" by (simp add: replay_def replay_rows_def)
  have "\<forall>s \<in> set ?subs. rr_n s = 1" by (auto simp: replay_one_def split: sum.split)
  then have row: "rr_n e = length (rows_of (row_key e) ?subs) \<and>
      unat (rr_cost_micros e) = min (\<Sum>s\<leftarrow>rows_of (row_key e) ?subs. unat (rr_cost_micros s)) (2 ^ 64 - 1) \<and>
      rr_score e = rr_score (hd (rows_of (row_key e) ?subs))" if "e \<in> set ?table" for e
    using that collapse_rows [of ?subs] by (intro merged_own) (auto simp: table rows_of_def)
  have "distinct (map row_key ?table)"
    using row_keys.bt_wf_distinct [OF collapse_map_wf [of ?subs]] by (simp add: table collapse_keys)
  then have "(\<Sum>k\<leftarrow>map row_key ?table. length (filter (\<lambda>s. row_key s = k) ?subs)) = length ?subs"
    by (rule groups_cover) (simp add: table collapse_covers)
  moreover have "map rr_n ?table = map (\<lambda>k. length (filter (\<lambda>s. row_key s = k) ?subs)) (map row_key ?table)"
    using row by (simp add: rows_of_def)
  moreover have "length [replay_one batch r m. r \<leftarrow> rs, m \<leftarrow> ro_models opts] = length rs * length (ro_models opts)" for rs
    by (induction rs) simp_all
  ultimately have total: "(\<Sum>e\<leftarrow>?table. rr_n e) = length (sample_captures recs opts) * length (ro_models opts)"
    by (simp only:)
  let ?newer = "\<lambda>a b. cr_ts b \<le> cr_ts a"
  let ?recent = "filter (\<lambda>r. case ro_since_ms opts of Some s \<Rightarrow> s \<le> cr_ts r | None \<Rightarrow> True) recs"
  have sample: "length (sample_captures recs opts) = min (ro_sample opts) (length ?recent)"
    "\<exists>rest. mset (sample_captures recs opts @ rest) = mset ?recent \<and>
      sorted_wrt ?newer (sample_captures recs opts @ rest)"
    using sample_is_most_recent [of recs opts] by auto
  then have sorted: "sorted_wrt ?newer (sample_captures recs opts)" by (auto simp: sorted_wrt_append)
  have covers: "row_key ` set ?table = row_key ` set ?subs" by (simp only: table collapse_covers)
  then have newest: "\<exists>r \<in> set (sample_captures recs opts). shape r = fst (row_key e) \<and>
      (\<forall>r' \<in> set (sample_captures recs opts). shape r' = fst (row_key e) \<longrightarrow> cr_ts r' \<le> cr_ts r) \<and>
      hd (filter (\<lambda>s. row_key s = row_key e) ?subs) = replay_one batch r (snd (row_key e))"
    if "e \<in> set ?table" for e
    using that by (intro first_submission_newest [OF sorted]) (simp only: flip: covers, rule imageI)
  have "sorted_wrt (\<lambda>a b. key_less (row_key a) (row_key b)) ?table"
    using collapse_rows [of ?subs] by (simp only: table)
  then show ?thesis
    unfolding Let_def
    by (intro conjI ballI)
      (assumption | rule covers total sample | erule newest row [THEN conjunct1, unfolded rows_of_def]
        row [THEN conjunct2, THEN conjunct1, unfolded rows_of_def]
        row [THEN conjunct2, THEN conjunct2, unfolded rows_of_def])+
qed

text \<open>A capture of a body that asks for a program, and a transport that compiles only the newest.\<close>

definition build_capture :: "string \<Rightarrow> u64 \<Rightarrow> capture_record" where
  "build_capture extra ts = (sample_capture ''c'' ts)\<lparr>cr_body := ''cargo build'' @ extra\<rparr>"

definition newest_only :: batch_sink where
  "newest_only model body =
    Inr \<lparr>ro_text = (if body = ''cargo build!'' then ''fn main() {}'' else ''error: no''), ro_cost_micros = 5\<rparr>"

lemma merged_replicate:
  "rr_cost_micros old = c \<Longrightarrow>
    merged (r # replicate n old) =
      Some (r\<lparr>rr_n := rr_n r + n, rr_cost_micros := foldl sat_add (rr_cost_micros r) (replicate n c)\<rparr>)"
  by (simp add: merged_def)

text \<open>
  One replay that survives, if it is of the newest capture, is reported as the survival of all: the
  row counts every replay and says \<open>survived\<close> with high confidence although all the others died.
\<close>

lemma newest_score_speaks_for_all:
  "\<exists>cost. replay (build_capture ''!'' 2 # replicate n (build_capture [] 1))
      \<lparr>ro_sample = Suc n, ro_models = [''m''], ro_since_ms = None\<rparr> newest_only =
    [\<lparr>rr_shape = ''code-compile'', rr_n = Suc n, rr_model = ''m'', rr_cost_micros = cost,
      rr_score = Native True ''compiles''\<rparr>] \<and>
    rr_score (replay_one newest_only (build_capture [] 1) ''m'') = Native False ''compiles''"
proof -
  let ?new = "replay_one newest_only (build_capture ''!'' 2) ''m''"
  let ?old = "replay_one newest_only (build_capture [] 1) ''m''"
  let ?recs = "build_capture ''!'' 2 # replicate n (build_capture [] 1)"
  let ?opts = "\<lparr>ro_sample = Suc n, ro_models = [''m''], ro_since_ms = None\<rparr>"
  have new: "?new = \<lparr>rr_shape = ''code-compile'', rr_n = 1, rr_model = ''m'', rr_cost_micros = 5,
      rr_score = Native True ''compiles''\<rparr>" by code_simp
  have old: "?old = \<lparr>rr_shape = ''code-compile'', rr_n = 1, rr_model = ''m'', rr_cost_micros = 5,
      rr_score = Native False ''compiles''\<rparr>" by code_simp
  have "sorted_wrt (\<lambda>a b. cr_ts b \<le> cr_ts a) ?recs"
    by (auto simp: build_capture_def sample_capture_def sorted_wrt_iff_nth_less nth_Cons split: nat.splits)
  then have "sample_captures ?recs ?opts = ?recs" by (simp add: sample_captures_def sort_by_sorted)
  then have rows: "replay_rows ?recs ?opts newest_only = ?new # replicate n ?old"
    by (simp add: replay_rows_def map_replicate_const)
  let ?e = "?new\<lparr>rr_n := Suc n, rr_cost_micros := foldl sat_add 5 (replicate n 5)\<rparr>"
  have key: "row_key ?new = (''code-compile'', ''m'')" "row_key ?old = (''code-compile'', ''m'')"
    by (simp_all add: new old row_key_def)
  have "set (collapse (?new # replicate n ?old)) = {?e}"
  proof (rule set_eqI)
    fix e
    have "rows_of k (?new # replicate n ?old) = (if k = row_key ?new then ?new # replicate n ?old else [])" for k
      by (auto simp: rows_of_def key)
    moreover have "merged (?new # replicate n ?old) = Some ?e"
      by (subst merged_replicate [where c = 5]) (simp_all add: old, simp add: new)
    moreover have "row_key ?e = row_key ?new" by (simp add: row_key_def)
    ultimately show "e \<in> set (collapse (?new # replicate n ?old)) \<longleftrightarrow> e \<in> {?e}"
      using collapse_rows [of "?new # replicate n ?old"] by (auto simp: merged_def)
  qed
  moreover have "distinct (collapse (?new # replicate n ?old))"
    by (rule collapse_distinct)
  ultimately have "collapse (?new # replicate n ?old) = [?e]"
    by (cases "collapse (?new # replicate n ?old)" rule: list.exhaust; cases "tl (collapse (?new # replicate n ?old))") auto
  then show ?thesis using rows new old by (simp add: replay_def)
qed

text \<open>Two captures and two models, one of them refused: two rows of two submissions.\<close>

theorem replay_counts_every_submission_witness:
  "let table = replay [build_capture ''!'' 2, build_capture [] 1]
      \<lparr>ro_sample = 9, ro_models = [''m'', ''x''], ro_since_ms = None\<rparr>
      (\<lambda>m b. if m = ''x'' then Inl ''refused'' else newest_only m b)
   in map rr_n table = [2, 2] \<and> (\<Sum>e\<leftarrow>table. rr_n e) = 4 \<and>
      map rr_score table = [Native True ''compiles'', Judge ''judge disagreement (refused)'']"
proof -
  let ?recs = "[build_capture ''!'' 2, build_capture [] 1]"
  let ?opts = "\<lparr>ro_sample = 9, ro_models = [''m'', ''x''], ro_since_ms = None\<rparr>"
  let ?sink = "\<lambda>m b. if m = ''x'' then Inl ''refused'' else newest_only m b"
  let ?no = "Judge ''judge disagreement (refused)''"
  let ?row = "\<lambda>n m c sc. \<lparr>rr_shape = ''code-compile'', rr_n = n, rr_model = m, rr_cost_micros = c, rr_score = sc\<rparr>"
  have "(\<Sum>e\<leftarrow>replay ?recs ?opts ?sink. rr_n e) = length (sample_captures ?recs ?opts) * length (ro_models ?opts)"
    using replay_counts_every_submission [where batch = ?sink and recs = ?recs and opts = ?opts] unfolding Let_def by blast
  moreover have "length (sample_captures ?recs ?opts) = 2" by code_simp
  moreover have table: "replay ?recs ?opts ?sink = [?row 2 ''m'' 10 (Native True ''compiles''), ?row 2 ''x'' 0 ?no]"
  proof -
    have "sorted_wrt (\<lambda>a b. cr_ts b \<le> cr_ts a) ?recs" by (simp add: build_capture_def sample_capture_def)
    then have "sample_captures ?recs ?opts = ?recs" by (simp add: sample_captures_def sort_by_sorted)
    moreover have "replay_one ?sink (build_capture ''!'' 2) ''m'' = ?row 1 ''m'' 5 (Native True ''compiles'')"
      "replay_one ?sink (build_capture ''!'' 2) ''x'' = ?row 1 ''x'' 0 ?no"
      "replay_one ?sink (build_capture [] 1) ''m'' = ?row 1 ''m'' 5 (Native False ''compiles'')"
      "replay_one ?sink (build_capture [] 1) ''x'' = ?row 1 ''x'' 0 ?no" by code_simp+
    ultimately have "replay_rows ?recs ?opts ?sink = [?row 1 ''m'' 5 (Native True ''compiles''), ?row 1 ''x'' 0 ?no,
        ?row 1 ''m'' 5 (Native False ''compiles''), ?row 1 ''x'' 0 ?no]" by (simp add: replay_rows_def)
    moreover have "collapse [?row 1 ''m'' 5 (Native True ''compiles''), ?row 1 ''x'' 0 ?no,
        ?row 1 ''m'' 5 (Native False ''compiles''), ?row 1 ''x'' 0 ?no] =
      [?row 2 ''m'' 10 (Native True ''compiles''), ?row 2 ''x'' 0 ?no]"
    proof -
      have "key_less (''code-compile'', ''m'') (''code-compile'', ''x'')" "\<not> key_less (''code-compile'', ''x'') (''code-compile'', ''m'')"
        by code_simp+
      then show ?thesis by (simp add: collapse_def collapse_map_def row_key_def merge_row_def sat_add_def)
    qed
    ultimately show ?thesis by (simp add: replay_def)
  qed
  ultimately show ?thesis unfolding table Let_def by simp
qed

end
