(* ===== verification/Ledger_Doctor.thy ===== *)
theory Ledger_Doctor
  imports Ledger_Report
begin

text \<open>
  The conflict detector for gateway configurations (\<open>crates/tailfin-ledger/src/doctor.rs\<close>): its
  rules over a text, the ratio it extracts, and its rendering.
\<close>

section \<open>The detector\<close>

record finding =
  fi_rule :: string
  fi_citation :: string
  fi_detail :: string

fun ratio_loop :: "string list \<Rightarrow> string \<Rightarrow> fp option" where
  "ratio_loop [] lower = None"
| "ratio_loop (key # ks) lower =
    (case find_str lower key of
       None \<Rightarrow> ratio_loop ks lower
     | Some i \<Rightarrow>
         let rest = trim_start (drop (i + length key) lower);
             num = takeWhile (\<lambda>c. is_ascii_digit c \<or> c = CHR ''.'') rest
         in (case parse_f64 num of Some v \<Rightarrow> Some v | None \<Rightarrow> ratio_loop ks lower))"

definition extract_ratio :: "string \<Rightarrow> fp option" where
  "extract_ratio lower = ratio_loop [''compression_ratio:'', ''compact_ratio:'', ''ratio:''] lower"

definition uncommented :: "string \<Rightarrow> string" where
  "uncommented config =
    join nl (filter (\<lambda>l. \<not> starts_with (trim_start l) ''#'') (lines config))"

definition em_dash :: string where "em_dash = [CHR 0xE2, CHR 0x80, CHR 0x94]"

definition en_dash :: string where "en_dash = [CHR 0xE2, CHR 0x80, CHR 0x93]"

definition fallback_finding :: finding where
  "fallback_finding =
    \<lparr>fi_rule = ''budget-fallback-no-floor'',
     fi_citation = ''LiteLLM budget fallbacks have no floor (project verification; docs/architecture.md risks)'',
     fi_detail = ''fallback chain present without tier_floor / min_tier''\<rparr>"

definition compression_finding :: finding where
  "compression_finding =
    \<lparr>fi_rule = ''compression-evicts-cache-prefix'',
     fi_citation = ''cache reads price at 0.1x input; 1h writes at 2x '' @ em_dash @
       '' compacting the prefix forces re-write (CLAUDE.md invariant 3; docs/architecture.md)'',
     fi_detail = ''compression ratio will evict the persistent cache prefix''\<rparr>"

definition memory_finding :: finding where
  "memory_finding =
    \<lparr>fi_rule = ''memory-inject-feeds-compression-strip'',
     fi_citation = ''memory-inject feeding compression-strip is a published collision (docs/architecture.md weeks 5'' @
       en_dash @ ''8 doctor)'',
     fi_detail = ''memory injection is paired with compression/strip''\<rparr>"

definition unfloored_fallback :: "string \<Rightarrow> bool" where
  "unfloored_fallback lower \<longleftrightarrow>
    (contains lower ''fallback'' \<or> contains lower ''fallbacks'' \<or> contains lower ''budget_fallback'') \<and>
    \<not> (contains lower ''tier_floor'' \<or> contains lower ''min_tier'' \<or> contains lower ''lowest_model'' \<or>
       contains lower ''floor:'')"

definition aggressive_ratio :: "string \<Rightarrow> bool" where
  "aggressive_ratio lower \<longleftrightarrow>
    contains lower ''compression_ratio'' \<or> contains lower ''ratio: 0.'' \<or> contains lower ''ratio:0.'' \<or>
    (case extract_ratio lower of Some r \<Rightarrow> fp_lt r (Fin (1 / 2)) | None \<Rightarrow> False)"

definition evicting_compression :: "string \<Rightarrow> bool" where
  "evicting_compression lower \<longleftrightarrow>
    (contains lower ''compression'' \<or> contains lower ''compact_ratio'' \<or>
     contains lower ''context_compression'') \<and> aggressive_ratio lower"

definition memory_collision :: "string \<Rightarrow> bool" where
  "memory_collision lower \<longleftrightarrow>
    contains lower ''memory'' \<and> (contains lower ''inject'' \<or> contains lower ''plugin'') \<and>
    contains lower ''strip'' \<and>
    (contains lower ''memory'' \<or> contains lower ''compression'' \<or> contains lower ''context'')"

definition diagnose :: "string \<Rightarrow> finding list" where
  "diagnose config =
    (let lower = to_ascii_lowercase (uncommented config)
     in (if unfloored_fallback lower then [fallback_finding] else []) @
        (if evicting_compression lower then [compression_finding] else []) @
        (if memory_collision lower then [memory_finding] else []))"

definition render_doctor :: "finding list \<Rightarrow> string" where
  "render_doctor fs =
    (if fs = [] then ''tailfin doctor: no collisions'' @ nl
     else ''tailfin doctor: '' @ show_nat (length fs) @ '' finding(s)'' @ nl @
       concat (map (\<lambda>f. ''- ['' @ fi_rule f @ ''] '' @ fi_detail f @ nl @ ''  cite: '' @ fi_citation f @ nl) fs))"

section \<open>What it reports\<close>

lemma contains_append: "contains s p \<Longrightarrow> contains (a @ s @ b) p"
  unfolding contains_iff by (metis append.assoc)

lemma lines_plain:
  "l \<noteq> [] \<Longrightarrow> CHR 0x0A \<notin> set l \<Longrightarrow> CHR 0x0D \<notin> set l \<Longrightarrow> lines l = [l]"
proof -
  assume l: "l \<noteq> []" "CHR 0x0A \<notin> set l" "CHR 0x0D \<notin> set l"
  then have "last l \<noteq> CHR 0x0D" using last_in_set [of l] by metis
  with l show ?thesis by (simp add: lines_def split_on_id Let_def)
qed

lemma split_on_sep: "split_on d (a @ d # b) = split_on d a @ split_on d b"
  by (induction a) (auto split: list.splits)

lemma lines_append: "lines (a @ CHR 0x0A # b) = lines (a @ [CHR 0x0A]) @ lines b"
  by (simp add: lines_def split_on_sep butlast_append Let_def)

lemma to_ascii_lowercase_append:
  "to_ascii_lowercase (a @ b) = to_ascii_lowercase a @ to_ascii_lowercase b"
  by (simp add: to_ascii_lowercase_def)

lemma key_is_uncommented: "\<not> starts_with (trim_start (''compression_ratio: '' @ v)) ''#''"
proof -
  have "\<not> ws_first (CHR ''c'')" by code_simp
  then have "trim_start (''compression_ratio: '' @ v) = ''compression_ratio: '' @ v"
    by (simp add: trim_start_id)
  then show ?thesis by simp
qed

text \<open>
  The ratio itself decides nothing under the key the rule is about: a configuration that sets
  \<open>compression_ratio\<close> to any value on its line is reported as one whose ratio evicts the cache prefix,
  although the detector reads the ratio, compares it with a half, and reads 1 from a ratio of \<open>1.0\<close>.
\<close>

lemma harmless_ratio_is_flagged:
  "(\<forall>v. CHR 0x0A \<notin> set v \<and> CHR 0x0D \<notin> set v \<longrightarrow>
      compression_finding \<in> set (diagnose (''compression_ratio: '' @ v))) \<and>
    extract_ratio ''compression_ratio: 1.0'' = Some (Fin 1) \<and> \<not> fp_lt (Fin 1) (Fin (1 / 2))"
proof (intro conjI allI impI)
  fix v
  assume v: "CHR 0x0A \<notin> set v \<and> CHR 0x0D \<notin> set v"
  have "lines (''compression_ratio: '' @ v) = [''compression_ratio: '' @ v]"
    by (rule lines_plain) (use v in auto)
  then have "uncommented (''compression_ratio: '' @ v) = ''compression_ratio: '' @ v"
    using key_is_uncommented [of v] by (simp add: uncommented_def)
  moreover have "to_ascii_lowercase ''compression_ratio: '' = ''compression_ratio: ''" by code_simp
  ultimately have low: "to_ascii_lowercase (uncommented (''compression_ratio: '' @ v)) =
      ''compression_ratio: '' @ to_ascii_lowercase v"
    by (simp only: to_ascii_lowercase_append)
  have "contains (''compression_ratio: '' @ w) ''compression_ratio''"
    "contains (''compression_ratio: '' @ w) ''compression''" for w
    unfolding contains_iff by (intro exI [of _ "[]"] exI [of _ "'': '' @ w"]; simp)
      (intro exI [of _ "[]"] exI [of _ "''_ratio: '' @ w"]; simp)
  then show "compression_finding \<in> set (diagnose (''compression_ratio: '' @ v))"
    unfolding diagnose_def Let_def low evicting_compression_def aggressive_ratio_def by auto
next
  show "extract_ratio ''compression_ratio: 1.0'' = Some (Fin 1)" by code_simp
qed simp

lemma harmless_ratio_is_flagged_witness:
  "compression_finding \<in> set (diagnose (''compression_ratio: '' @ ''0.99''))"
  by (rule conjunct1 [OF harmless_ratio_is_flagged, rule_format]) simp

text \<open>
  Comments are never diagnosed: a line that starts with a hash mark, after white space, can be added
  or removed anywhere without changing a finding.
\<close>

lemma comments_are_ignored:
  assumes "starts_with (trim_start c) ''#''" "CHR 0x0A \<notin> set c" "CHR 0x0D \<notin> set c"
  shows "diagnose (a @ nl @ c @ nl @ b) = diagnose (a @ nl @ b)"
proof -
  have "c \<noteq> []" using assms(1) by auto
  then have "lines (c @ [CHR 0x0A]) = [c]"
    using lines_plain [OF _ assms(2,3)] assms(2) by (simp add: lines_def split_on_sep split_on_id)
  then have "lines (a @ nl @ c @ nl @ b) = lines (a @ [CHR 0x0A]) @ c # lines b"
    using lines_append [of a "c @ CHR 0x0A # b"] lines_append [of c b] by (simp add: nl_def)
  moreover have "lines (a @ nl @ b) = lines (a @ [CHR 0x0A]) @ lines b"
    using lines_append [of a b] by (simp add: nl_def)
  ultimately show ?thesis using assms(1) by (simp add: diagnose_def uncommented_def)
qed

lemma comments_are_ignored_witness:
  "diagnose (''model: gpt-4'' @ nl @ ''# fallbacks: none'' @ nl @ ''drop: 1'') =
    diagnose (''model: gpt-4'' @ nl @ ''drop: 1'')"
proof (rule comments_are_ignored)
  show "starts_with (trim_start ''# fallbacks: none'') ''#''" by code_simp
qed simp_all

end
