(* ===== verification/Ledger_Stamp.thy ===== *)
theory Ledger_Stamp
  imports Ledger_Report
begin

text \<open>
  Cost stamps and blame rows (\<open>crates/tailfin-ledger/src/stamp.rs\<close>). A stamp is refused unless every
  record has a declared identity; the blame table slices ids as the report does and can panic.
\<close>

section \<open>Stamps\<close>

definition CAPTURE_GRADE :: fp where
  "CAPTURE_GRADE = Fin 1"

definition fp_ge :: "fp \<Rightarrow> fp \<Rightarrow> bool" where
  "fp_ge a b \<longleftrightarrow> a \<noteq> FNaN \<and> b \<noteq> FNaN \<and> \<not> fp_lt a b"

text \<open>\<open>f32::min\<close> returns the other operand when one is NaN.\<close>

definition fp_min :: "fp \<Rightarrow> fp \<Rightarrow> fp" where
  "fp_min a b = (if a = FNaN then b else if fp_lt b a then b else a)"

text \<open>\<open>Iterator::max_by\<close> keeps the later of two elements that compare equal.\<close>

definition fp_max_by :: "fp list \<Rightarrow> fp option" where
  "fp_max_by xs =
    (case xs of [] \<Rightarrow> None | x # ys \<Rightarrow> Some (foldl (\<lambda>a b. if fp_lt b a then a else b) x ys))"

definition stamp_allowed :: "ledger_record list \<Rightarrow> bool" where
  "stamp_allowed rs \<longleftrightarrow> rs \<noteq> [] \<and> (\<forall>r \<in> set rs. fp_ge (lr_confidence r) CAPTURE_GRADE)"

definition format_stamp :: "ledger_record list \<Rightarrow> rate_card option \<Rightarrow> string + string" where
  "format_stamp rs rates =
    (if \<not> stamp_allowed rs then
       Inl ''attribution below capture-grade (need declared identity, confidence 1.0)''
     else
       let tasks = tasks_from_records rs;
           incomplete = (\<Sum>t\<leftarrow>tasks. incomplete_requests t);
           fan = (case fp_max_by (List.map_filter fan_out_multiplier tasks) of Some x \<Rightarrow> x | None \<Rightarrow> Fin 1);
           conf = foldl fp_min (Fin 1) (map lr_confidence rs);
           cost = (case rates of
              Some r \<Rightarrow> ''$'' @ dollars (\<Sum>t\<leftarrow>tasks. spent t r)
            | None \<Rightarrow> ''tokens-only'')
       in Inr (''Tailfin-Cost: tasks='' @ show_nat (length tasks) @ '' cost='' @ cost @ '' fan-out='' @
            fmt_fixed 2 fan @ ''x incomplete='' @ show_word incomplete @ '' conf='' @ fmt_fixed 2 conf @
            '' models=declared''))"

section \<open>Blame\<close>

definition blame_rows :: "rate_card option \<Rightarrow> task \<Rightarrow> (string \<times> u64 \<times> u64 option) list" where
  "blame_rows rates t =
    (case rates of
       Some r \<Rightarrow> map (\<lambda>n. (rep_id n, usage_total (rep_usage n), Some (rep_micros n))) (by_cost t r)
     | None \<Rightarrow>
         List.map_filter (\<lambda>(k, _). map_option (\<lambda>u. (k, usage_total u, None)) (node_usage t k)) (walk t))"

definition blame_row :: "string \<times> u64 \<times> u64 option \<Rightarrow> string option" where
  "blame_row row =
    (case row of (k, tokens, micros) \<Rightarrow>
       let money = (case micros of Some m \<Rightarrow> dollars m | None \<Rightarrow> ''-'')
       in map_option
            (\<lambda>short. ''  '' @ pad_right_chars 32 short @ '' '' @ pad_left (CHR '' '') 7 (show_word tokens) @
               ''  '' @ money @ nl)
            (trunc k 28))"

fun concat_opt :: "string option list \<Rightarrow> string option" where
  "concat_opt [] = Some []"
| "concat_opt (x # xs) = Option.bind x (\<lambda>s. map_option (\<lambda>rest. s @ rest) (concat_opt xs))"

definition format_blame :: "ledger_record list \<Rightarrow> rate_card option \<Rightarrow> string option" where
  "format_blame rs rates =
    (let tasks = tasks_from_records rs
     in map_option
          (\<lambda>body. ''hunk                                tokens      $'' @ nl @ body @
             (if tasks = [] then ''(no records)'' @ nl else []))
          (concat_opt (map blame_row (concat (map (blame_rows rates) tasks)))))"

section \<open>When a stamp is given\<close>

text \<open>The records of a run: each finished request as the proxy writes it.\<close>

definition finishes :: "(node_ref \<times> usage \<times> bool \<times> u32 \<times> u64) list \<Rightarrow> ledger_record list" where
  "finishes fs = map (\<lambda>(nd, u, incomplete, peak, now). from_finish nd u incomplete peak now) fs"

lemma confidence_grade: "fp_ge (confidence src) CAPTURE_GRADE \<longleftrightarrow> is_declared src"
  using confidence_discloses_inference [of src]
  by (cases src) (auto simp: fp_ge_def CAPTURE_GRADE_def)

text \<open>
  A cost stamp is given exactly for a ledger in which every request declared its identity: one
  request whose place was inferred, or that was anonymous, is enough to refuse it, and a stamp that is
  given always states confidence 1.00.
\<close>

lemma stamp_requires_declared:
  "(\<forall>e. format_stamp (finishes fs) rates \<noteq> Inl e) \<longleftrightarrow>
      fs \<noteq> [] \<and> (\<forall>(nd, rest) \<in> set fs. is_declared (nr_source nd))"
proof -
  have "stamp_allowed (finishes fs) \<longleftrightarrow> fs \<noteq> [] \<and> (\<forall>(nd, rest) \<in> set fs. is_declared (nr_source nd))"
    by (auto simp: stamp_allowed_def finishes_def from_finish_def confidence_grade)
  then show ?thesis by (simp add: format_stamp_def Let_def)
qed


lemma stamp_requires_declared_witness:
  "\<exists>e. format_stamp (finishes
      [(declared_ref ''s'' None None, usage_default, False, 1, 0),
       (snd (anonymous session_index_new), usage_default, False, 1, 0)]) None = Inl e"
  using stamp_requires_declared [of
      "[(declared_ref ''s'' None None, usage_default, False, 1, 0),
        (snd (anonymous session_index_new), usage_default, False, 1, 0)]" None]
  by (auto simp: anonymous_def session_index_new_def Let_def)

section \<open>When blame has no output\<close>

lemma concat_opt_None: "concat_opt xs = None \<longleftrightarrow> None \<in> set xs"
  by (induction xs) (auto split: option.splits bind_splits)

lemma blame_row_None: "blame_row row = None \<longleftrightarrow> trunc (fst row) 28 = None"
  by (cases row) (simp add: blame_row_def Let_def)

text \<open>The table cannot be printed exactly when an id is cut inside a character.\<close>

lemma blame_panics:
  "format_blame rs rates = None \<longleftrightarrow>
    (\<exists>t \<in> set (tasks_from_records rs). \<exists>row \<in> set (blame_rows rates t). trunc (fst row) 28 = None)"
proof -
  have "format_blame rs rates = None \<longleftrightarrow>
      None \<in> blame_row ` set (concat (map (blame_rows rates) (tasks_from_records rs)))"
    by (simp add: format_blame_def Let_def concat_opt_None)
  also have "\<dots> \<longleftrightarrow> (\<exists>row \<in> set (concat (map (blame_rows rates) (tasks_from_records rs))). blame_row row = None)"
    by (metis (no_types, lifting) image_iff)
  finally show ?thesis by (simp add: blame_row_None)
qed

end
