(* ===== verification/Proxy_Http.thy ===== *)
theory Proxy_Http
  imports Wire_Meter Ident_Session
begin

text \<open>
  What the relay does to requests before anything else (\<open>crates/tailfin-proxy/src/hop.rs\<close>,
  \<open>identity.rs\<close>, \<open>rewrite_uri\<close> of \<open>proxy.rs\<close>, \<open>Config::parse\<close> of \<open>lib.rs\<close>). The header map and
  the URI are types of the \<open>http\<close> crate: they are parameters, a record of the operations used, and
  \<open>header_laws\<close> states what their documentation promises.
\<close>

section \<open>Header maps\<close>

text \<open>
  \<open>h_all\<close> is \<open>get_all\<close>, the values under a name in order; \<open>h_iter\<close> is the iterator; \<open>h_name\<close> is
  \<open>HeaderName::from_bytes\<close>, \<open>h_value\<close> and \<open>h_str\<close> are \<open>HeaderValue::from_str\<close> and \<open>to_str\<close>.
\<close>

record 'h header_map =
  h_empty :: 'h
  h_iter :: "'h \<Rightarrow> (string \<times> string) list"
  h_all :: "'h \<Rightarrow> string \<Rightarrow> string list"
  h_remove :: "string \<Rightarrow> 'h \<Rightarrow> 'h"
  h_insert :: "string \<Rightarrow> string \<Rightarrow> 'h \<Rightarrow> 'h"
  h_append :: "string \<Rightarrow> string \<Rightarrow> 'h \<Rightarrow> 'h"
  h_name :: "string \<Rightarrow> string option"
  h_value :: "string \<Rightarrow> string option"
  h_str :: "string \<Rightarrow> string option"

definition h_get :: "'h header_map \<Rightarrow> 'h \<Rightarrow> string \<Rightarrow> string option" where
  "h_get H h k = (case h_all H h k of [] \<Rightarrow> None | v # _ \<Rightarrow> Some v)"

definition header_laws :: "'h header_map \<Rightarrow> bool" where
  "header_laws H \<longleftrightarrow>
    (\<forall>h k k'. h_all H (h_remove H k h) k' = (if k' = k then [] else h_all H h k')) \<and>
    (\<forall>h k v k'. h_all H (h_insert H k v h) k' = (if k' = k then [v] else h_all H h k')) \<and>
    (\<forall>h k v k'. h_all H (h_append H k v h) k' = (if k' = k then h_all H h k @ [v] else h_all H h k')) \<and>
    (\<forall>s n. h_name H s = Some n \<longrightarrow> n = to_ascii_lowercase s) \<and>
    h_str H ''Upgrade'' = Some ''Upgrade''"

section \<open>Hop-by-hop headers\<close>

definition HOP_BY_HOP :: "string list" where
  "HOP_BY_HOP =
    [''connection'', ''keep-alive'', ''proxy-authenticate'', ''proxy-authorization'', ''proxy-connection'',
     ''te'', ''trailer'', ''transfer-encoding'', ''upgrade'']"

text \<open>The names listed in the Connection headers, those for which \<open>skip\<close> holds left out.\<close>

definition connection_tokens :: "'h header_map \<Rightarrow> (string \<Rightarrow> bool) \<Rightarrow> 'h \<Rightarrow> string list" where
  "connection_tokens H skip h =
    concat (map
      (\<lambda>value. case h_str H value of
         None \<Rightarrow> []
       | Some s \<Rightarrow>
           List.map_filter
             (\<lambda>token. let t = trim token in if t = [] \<or> skip t then None else h_name H t)
             (split_on (CHR '','') s))
      (h_all H h ''connection''))"

definition strip_hop_by_hop :: "'h header_map \<Rightarrow> 'h \<Rightarrow> 'h" where
  "strip_hop_by_hop H h =
    fold (h_remove H) HOP_BY_HOP (fold (h_remove H) (connection_tokens H (\<lambda>_. False) h) h)"

definition is_websocket_upgrade :: "'h header_map \<Rightarrow> string \<Rightarrow> 'h \<Rightarrow> bool" where
  "is_websocket_upgrade H meth h \<longleftrightarrow>
    meth = ''GET'' \<and>
    (case Option.bind (h_get H h ''upgrade'') (h_str H) of
       Some s \<Rightarrow> eq_ignore_ascii_case s ''websocket'' | None \<Rightarrow> False) \<and>
    list_ex
      (\<lambda>v. case h_str H v of
         Some s \<Rightarrow> list_ex (\<lambda>t. eq_ignore_ascii_case (trim t) ''upgrade'') (split_on (CHR '','') s)
       | None \<Rightarrow> False)
      (h_all H h ''connection'')"

definition strip_hop_keeping_upgrade :: "'h header_map \<Rightarrow> 'h \<Rightarrow> 'h" where
  "strip_hop_keeping_upgrade H h =
    h_insert H ''connection'' ''Upgrade''
      (fold (h_remove H) (filter (\<lambda>n. n \<noteq> ''connection'' \<and> n \<noteq> ''upgrade'') HOP_BY_HOP)
        (fold (h_remove H)
          (connection_tokens H (\<lambda>t. eq_ignore_ascii_case t ''upgrade'') h) h))"

section \<open>Identity of a request\<close>

definition header_view :: "'h header_map \<Rightarrow> 'h \<Rightarrow> string \<Rightarrow> string option" where
  "header_view H h name = Option.bind (h_get H h name) (h_str H)"

definition canonical_message :: "'v serde_json \<Rightarrow> 'v \<Rightarrow> string" where
  "canonical_message J m =
    (case Option.bind (js_get J m ''role'') (js_as_str J) of Some r \<Rightarrow> r | None \<Rightarrow> []) @ [CHR 0x1E] @
    (case js_get J m ''content'' of
       Some c \<Rightarrow> (case js_as_str J c of Some s \<Rightarrow> s | None \<Rightarrow> js_to_string J c)
     | None \<Rightarrow> [])"

definition messages_from_body :: "'v serde_json \<Rightarrow> string \<Rightarrow> string list option" where
  "messages_from_body J body =
    Option.bind (js_from_str J body) (\<lambda>v.
      Option.bind (js_get J v ''messages'') (\<lambda>ms.
        Option.bind (js_as_array J ms) (\<lambda>msgs.
          if msgs = [] then None else Some (map (canonical_message J) msgs))))"

section \<open>The upstream URI\<close>

record 'u http_uri =
  uri_scheme :: "'u \<Rightarrow> string option"
  uri_authority :: "'u \<Rightarrow> string option"
  uri_path :: "'u \<Rightarrow> string"
  uri_path_and_query :: "'u \<Rightarrow> string option"
  uri_with_path_and_query :: "'u \<Rightarrow> string \<Rightarrow> 'u option"

datatype proxy_error = InvalidUpstream string | ConfigError string | ProxyIo string

definition check_upstream :: "'u http_uri \<Rightarrow> 'u \<Rightarrow> proxy_error + 'u" where
  "check_upstream U u =
    (if uri_scheme U u \<noteq> Some ''http'' \<and> uri_scheme U u \<noteq> Some ''https''
     then Inl (InvalidUpstream ''scheme must be http or https'')
     else if uri_authority U u = None then Inl (InvalidUpstream ''missing host'')
     else Inr u)"

definition rewritten_path :: "string \<Rightarrow> string \<Rightarrow> string option" where
  "rewritten_path base req_pq =
    (if base = [] \<or> base = ''/'' then Some req_pq
     else if starts_with req_pq ''/'' then Some (trim_end_matches [CHR ''/''] base @ req_pq)
     else None)"

definition rewrite_uri :: "'u http_uri \<Rightarrow> 'u \<Rightarrow> 'u \<Rightarrow> 'u option" where
  "rewrite_uri U upstream req_uri =
    Option.bind
      (rewritten_path (uri_path U upstream)
        (case uri_path_and_query U req_uri of Some p \<Rightarrow> p | None \<Rightarrow> ''/''))
      (uri_with_path_and_query U upstream)"

section \<open>The command line of the bare proxy\<close>

record 'u config =
  cfg_listen :: string
  cfg_upstream :: 'u

fun config_args :: "string list \<Rightarrow> string \<Rightarrow> string option \<Rightarrow> proxy_error + string \<times> string option" where
  "config_args [] listen upstream = Inr (listen, upstream)"
| "config_args (arg # args) listen upstream =
    (if arg = ''--listen'' then
       (case args of
          [] \<Rightarrow> Inl (ConfigError ''--listen needs a value'')
        | v # rest \<Rightarrow> config_args rest v upstream)
     else if arg = ''--upstream'' then
       (case args of
          [] \<Rightarrow> Inl (ConfigError ''--upstream needs a value'')
        | v # rest \<Rightarrow> config_args rest listen (Some v))
     else if arg = ''-h'' \<or> arg = ''--help'' then Inl (ConfigError ''help'')
     else Inl (ConfigError (''unknown argument: '' @ arg)))"

text \<open>The syntax of socket addresses and of URIs is a parameter.\<close>

definition config_parse ::
  "(string \<Rightarrow> bool) \<Rightarrow> (string \<Rightarrow> 'u option) \<Rightarrow> string list \<Rightarrow> string option \<Rightarrow> string option \<Rightarrow>
    proxy_error + 'u config" where
  "config_parse addr_ok uri_parse args listen_env upstream_env =
    (case config_args args (case listen_env of Some l \<Rightarrow> l | None \<Rightarrow> ''127.0.0.1:7171'') upstream_env of
       Inl e \<Rightarrow> Inl e
     | Inr (listen, upstream) \<Rightarrow>
         (case upstream of
            None \<Rightarrow> Inl (ConfigError ''upstream required (--upstream or TAILFIN_UPSTREAM)'')
          | Some u \<Rightarrow>
              if \<not> addr_ok listen then Inl (ConfigError (''invalid listen address: '' @ listen))
              else (case uri_parse u of
                None \<Rightarrow> Inl (ConfigError (''invalid upstream URI: '' @ u))
              | Some v \<Rightarrow> Inr \<lparr>cfg_listen = listen, cfg_upstream = v\<rparr>)))"

section \<open>What the strips keep\<close>

lemma h_all_removes:
  "header_laws H \<Longrightarrow> h_all H (fold (h_remove H) ks h) k = (if k \<in> set ks then [] else h_all H h k)"
  by (induction ks arbitrary: h) (auto simp: header_laws_def)

text \<open>
  Stripping for a new hop removes exactly the hop-by-hop headers and the headers the Connection
  headers name, all their values, and leaves every other header as it was.
\<close>

lemma hop_strip_exact:
  assumes "header_laws H"
  shows "h_all H (strip_hop_by_hop H h) k =
    (if k \<in> set HOP_BY_HOP \<or> k \<in> set (connection_tokens H (\<lambda>_. False) h) then [] else h_all H h k)"
  by (simp add: strip_hop_by_hop_def h_all_removes [OF assms])

lemma token_not_upgrade:
  assumes "header_laws H"
  shows "''upgrade'' \<notin> set (connection_tokens H (\<lambda>t. eq_ignore_ascii_case t ''upgrade'') h)"
proof -
  have "h_name H t \<noteq> Some ''upgrade''" if "\<not> eq_ignore_ascii_case t ''upgrade''" for t
  proof
    assume "h_name H t = Some ''upgrade''"
    then have "to_ascii_lowercase t = ''upgrade''" using assms by (auto simp: header_laws_def)
    moreover have "to_ascii_lowercase ''upgrade'' = ''upgrade''" by code_simp
    ultimately show False using that by (simp add: eq_ignore_ascii_case_def)
  qed
  then show ?thesis
    by (auto simp: connection_tokens_def map_filter_def Let_def split: option.splits if_splits)
qed

text \<open>
  C32. A WebSocket handshake survives the hop that is meant to keep it and only that one: after
  \<open>strip_hop_keeping_upgrade\<close> an upgrade request is still one, with a single Connection header, and
  after \<open>strip_hop_by_hop\<close> no request is.
\<close>

theorem handshake_survives_only_its_hop:
  assumes "header_laws H"
  shows "(is_websocket_upgrade H meth h \<longrightarrow>
      is_websocket_upgrade H meth (strip_hop_keeping_upgrade H h) \<and>
      h_all H (strip_hop_keeping_upgrade H h) ''connection'' = [''Upgrade'']) \<and>
    \<not> is_websocket_upgrade H meth (strip_hop_by_hop H h)"
proof -
  have up: "h_all H (strip_hop_keeping_upgrade H h) ''upgrade'' = h_all H h ''upgrade''"
    "h_all H (strip_hop_keeping_upgrade H h) ''connection'' = [''Upgrade'']"
    using assms token_not_upgrade [OF assms, of h]
    by (simp_all add: strip_hop_keeping_upgrade_def header_laws_def)
      (simp_all add: h_all_removes [OF assms])
  have "h_str H ''Upgrade'' = Some ''Upgrade''" using assms by (simp add: header_laws_def)
  moreover have "list_ex (\<lambda>t. eq_ignore_ascii_case (trim t) ''upgrade'') (split_on (CHR '','') ''Upgrade'')"
    by code_simp
  moreover have "''upgrade'' \<in> set HOP_BY_HOP" by code_simp
  then have "h_all H (strip_hop_by_hop H h) ''upgrade'' = []"
    by (simp add: strip_hop_by_hop_def h_all_removes [OF assms])
  ultimately show ?thesis using up by (simp add: is_websocket_upgrade_def h_get_def)
qed

text \<open>A header map: names in lower case with their values in order.\<close>

definition list_headers :: "(string \<times> string) list header_map" where
  "list_headers =
    \<lparr>h_empty = [], h_iter = \<lambda>h. h,
     h_all = \<lambda>h k. map snd (filter (\<lambda>p. fst p = k) h),
     h_remove = \<lambda>k h. filter (\<lambda>p. fst p \<noteq> k) h,
     h_insert = \<lambda>k v h. filter (\<lambda>p. fst p \<noteq> k) h @ [(k, v)],
     h_append = \<lambda>k v h. h @ [(k, v)],
     h_name = \<lambda>s. if s \<noteq> [] \<and> list_all (\<lambda>c. is_ascii_alphanumeric c \<or> c = CHR ''-'') s
       then Some (to_ascii_lowercase s) else None,
     h_value = \<lambda>s. if list_all (\<lambda>c. 32 \<le> byte c \<and> byte c \<noteq> 127) s then Some s else None,
     h_str = \<lambda>s. if list_all (\<lambda>c. 32 \<le> byte c \<and> byte c < 127) s then Some s else None\<rparr>"

lemma list_headers_laws: "header_laws list_headers"
proof -
  have "filter (\<lambda>p. fst p = k') (filter (\<lambda>p. fst p \<noteq> k) h) = (if k' = k then [] else filter (\<lambda>p. fst p = k') h)"
    for k k' and h :: "(string \<times> string) list"
    by (induction h) auto
  then show ?thesis by (simp add: header_laws_def list_headers_def)
qed

definition sample_headers :: "(string \<times> string) list" where
  "sample_headers =
    [(''host'', ''x''), (''connection'', ''keep-alive, X-Trace, Upgrade''), (''upgrade'', ''WebSocket''),
     (''x-trace'', ''1''), (''accept'', ''*'')]"

lemma hop_strip_exact_witness:
  "h_all list_headers (strip_hop_by_hop list_headers sample_headers) ''x-trace'' = [] \<and>
    h_all list_headers (strip_hop_by_hop list_headers sample_headers) ''accept'' = [''*'']"
proof -
  have "connection_tokens list_headers (\<lambda>_. False) sample_headers = [''keep-alive'', ''x-trace'', ''upgrade'']"
    by code_simp
  then show ?thesis
    by (simp add: hop_strip_exact [OF list_headers_laws] HOP_BY_HOP_def)
      (simp add: list_headers_def sample_headers_def)
qed

theorem handshake_survives_only_its_hop_witness:
  "is_websocket_upgrade list_headers ''GET'' (strip_hop_keeping_upgrade list_headers sample_headers)"
proof -
  have "is_websocket_upgrade list_headers ''GET'' sample_headers" by code_simp
  then show ?thesis
    using handshake_survives_only_its_hop [OF list_headers_laws, of "''GET''" sample_headers] by blast
qed

section \<open>Paths and flags\<close>

text \<open>The rewritten path keeps the request's path and query whole, below the base path.\<close>

lemma rewritten_path_suffix:
  "rewritten_path base req_pq = Some p \<Longrightarrow> \<exists>q. p = q @ req_pq"
  by (auto simp: rewritten_path_def split: if_splits)

lemma config_flags_win:
  "config_args [''--listen'', l, ''--upstream'', u] l' u' = Inr (l, Some u)"
  by simp

lemma config_args_error:
  "config_args args l u = Inl e \<Longrightarrow> \<exists>m. e = ConfigError m"
  by (induction args l u rule: config_args.induct) (auto split: if_splits list.splits)

end
