(* ===== verification/Proxy_Tee.thy ===== *)
theory Proxy_Tee
  imports Proxy_Http Wire_Sse "HOL-Library.Sublist"
begin

text \<open>
  The tee (\<open>crates/tailfin-proxy/src/tee.rs\<close>) and the metering task it feeds (\<open>spawn_meter\<close> of
  \<open>proxy.rs\<close>). The channel between them is tokio's: what \<open>try_send\<close> answers is an input of every
  poll, and what was accepted is what the metering task receives, in order. The interface
  \<open>body_wrapper\<close> says what a body around another owes its reader.
\<close>

section \<open>The tee\<close>

definition TEE_CAPACITY :: nat where
  "TEE_CAPACITY = 64"

datatype body_frame = DataFrame string | Trailers string

datatype 'e polled = Pending | EndOfBody | BodyError 'e | BodyFrame body_frame

datatype sent = Accepted | Full | Closed

text \<open>Whether the sender is still there.\<close>

record tee_body =
  tb_tx :: bool

definition tee_new :: tee_body where
  "tee_new = \<lparr>tb_tx = True\<rparr>"

text \<open>What the client is given, the tee after it, and the clone that was accepted.\<close>

definition tee_poll :: "sent \<Rightarrow> 'e polled \<Rightarrow> tee_body \<Rightarrow> 'e polled \<times> tee_body \<times> string list" where
  "tee_poll answer p t =
    (case p of
       BodyFrame frame \<Rightarrow>
         (case frame of
            DataFrame bytes \<Rightarrow>
              if tb_tx t then
                (case answer of
                   Accepted \<Rightarrow> (BodyFrame frame, t, [bytes])
                 | Full \<Rightarrow> (BodyFrame frame, t, [])
                 | Closed \<Rightarrow> (BodyFrame frame, t\<lparr>tb_tx := False\<rparr>, []))
              else (BodyFrame frame, t, [])
          | Trailers _ \<Rightarrow> (BodyFrame frame, t, []))
     | _ \<Rightarrow> (p, t, []))"

fun tee_run :: "(sent \<times> 'e polled) list \<Rightarrow> tee_body \<Rightarrow> 'e polled list \<times> string list" where
  "tee_run [] t = ([], [])"
| "tee_run ((answer, p) # ps) t =
    (let (q, t', out) = tee_poll answer p t; (qs, outs) = tee_run ps t' in (q # qs, out @ outs))"

section \<open>The metering task\<close>

definition meter_chunk :: "'v serde_json \<Rightarrow> string \<Rightarrow> sse_decoder \<times> meter \<Rightarrow> sse_decoder \<times> meter" where
  "meter_chunk J chunk st =
    (let (d, fs) = sse_push (fst st) chunk in (d, foldl (meter_observe J) (snd st) fs))"

definition spawn_meter :: "'v serde_json \<Rightarrow> dialect option \<Rightarrow> string list \<Rightarrow> usage \<times> bool" where
  "spawn_meter J dialect chunks =
    (case dialect of
       None \<Rightarrow> (usage_default, False)
     | Some d \<Rightarrow>
         let (dec, m) = fold (meter_chunk J) chunks (sse_new, meter_new d);
             m' = foldl (meter_observe J) m (snd (sse_finish dec))
         in (m_usage m', m_saw_terminal m'))"

text \<open>
  The same task one receive at a time: \<open>None\<close> without a dialect, where chunks are received and forgotten.
\<close>

type_synonym metering = "(sse_decoder \<times> meter) option"

definition metering_new :: "dialect option \<Rightarrow> metering" where
  "metering_new dialect = map_option (\<lambda>d. (sse_new, meter_new d)) dialect"

definition metering_chunk :: "'v serde_json \<Rightarrow> string \<Rightarrow> metering \<Rightarrow> metering" where
  "metering_chunk J chunk m = map_option (meter_chunk J chunk) m"

definition metering_end :: "'v serde_json \<Rightarrow> metering \<Rightarrow> usage \<times> bool" where
  "metering_end J m =
    (case m of
       None \<Rightarrow> (usage_default, False)
     | Some (dec, mt) \<Rightarrow>
         let mt' = foldl (meter_observe J) mt (snd (sse_finish dec))
         in (m_usage mt', m_saw_terminal mt'))"

lemma metering_loop:
  "metering_end J (fold (metering_chunk J) chunks (metering_new dialect)) = spawn_meter J dialect chunks"
proof (cases dialect)
  case None
  have "fold (metering_chunk J) chunks None = None" by (induction chunks) (simp_all add: metering_chunk_def)
  then show ?thesis by (simp add: None metering_new_def metering_end_def spawn_meter_def)
next
  case (Some d)
  have "fold (metering_chunk J) chunks (Some st) = Some (fold (meter_chunk J) chunks st)" for st
    by (induction chunks arbitrary: st) (simp_all add: metering_chunk_def)
  then show ?thesis by (simp add: Some metering_new_def metering_end_def spawn_meter_def split_beta Let_def)
qed

section \<open>The relay is never disturbed\<close>

definition data_frames :: "'e polled list \<Rightarrow> string list" where
  "data_frames ps =
    concat (map (\<lambda>p. case p of BodyFrame (DataFrame bs) \<Rightarrow> [bs] | _ \<Rightarrow> []) ps)"

fun dropped :: "(sent \<times> 'e polled) list \<Rightarrow> nat" where
  "dropped [] = 0"
| "dropped ((answer, BodyFrame (DataFrame bs)) # ps) = (if answer = Accepted then 0 else 1) + dropped ps"
| "dropped (_ # ps) = dropped ps"

lemma data_frames_simps [simp]:
  "data_frames [] = []"
  "data_frames (p # ps) = (case p of BodyFrame (DataFrame bs) \<Rightarrow> [bs] | _ \<Rightarrow> []) @ data_frames ps"
  by (simp_all add: data_frames_def)

lemma tee_run_client: "fst (tee_run ps t) = map snd ps"
  by (induction ps t rule: tee_run.induct)
    (auto simp: tee_poll_def split_beta Let_def split: polled.splits body_frame.splits sent.splits)

lemma tee_run_subseq: "subseq (snd (tee_run ps t)) (data_frames (map snd ps))"
  by (induction ps t rule: tee_run.induct)
    (auto simp: tee_poll_def split_beta Let_def split: polled.splits body_frame.splits sent.splits)

lemma tee_run_all: "dropped ps = 0 \<Longrightarrow> tb_tx t \<Longrightarrow> snd (tee_run ps t) = data_frames (map snd ps)"
  by (induction ps arbitrary: t rule: dropped.induct)
    (auto simp: tee_poll_def split_beta Let_def split: polled.splits body_frame.splits sent.splits if_splits)

text \<open>
  C11. The tee never touches the relay: whatever the channel answers, full, closed or accepting, the client
  is given exactly what the upstream body yields, poll by poll, and the metering task gets a
  subsequence of the data frames, in order, which is all of them if the channel accepted every one.
\<close>

theorem tee_is_transparent:
  "fst (tee_run ps tee_new) = map snd ps \<and>
    subseq (snd (tee_run ps tee_new)) (data_frames (map snd ps)) \<and>
    (dropped ps = 0 \<longrightarrow> snd (tee_run ps tee_new) = data_frames (map snd ps))"
  using tee_run_client tee_run_subseq tee_run_all [of ps tee_new] by (auto simp: tee_new_def)

theorem tee_is_transparent_witness:
  "snd (tee_run [(Accepted, BodyFrame (DataFrame ''a'')), (Full, Pending), (Accepted, BodyFrame (DataFrame ''b'')),
      (Closed, EndOfBody :: string polled)] tee_new) = [''a'', ''b'']"
  using tee_is_transparent [of "[(Accepted, BodyFrame (DataFrame ''a'')), (Full, Pending),
    (Accepted, BodyFrame (DataFrame ''b'')), (Closed, EndOfBody :: string polled)]"] by simp

section \<open>A stream is metered as it is relayed\<close>

lemma meter_chunks_feed:
  "fold (meter_chunk J) cs (d, m) =
    (fst (feed sse_push d cs), meter_run J m (snd (feed sse_push d cs)))"
  by (induction cs arbitrary: d m) (simp_all add: meter_chunk_def meter_run_def split_beta Let_def)

text \<open>
  C10. End to end: when the upstream body is a stream of well-formed frames, cut into data frames
  anywhere between characters, and the metering task keeps up, the client receives those bytes and the
  metering task ends with the usage and completeness of exactly those frames.
\<close>

theorem relayed_stream_is_metered:
  assumes "is_eol eol" "\<forall>(ev, ls) \<in> set fs. wire_frame ev ls"
    and "concat (data_frames (map snd ps)) = concat (map (\<lambda>(ev, ls). sse_wire eol ev ls) fs)"
    and "\<forall>c \<in> set (data_frames (map snd ps)). utf8_valid c" "dropped ps = 0"
  shows "fst (tee_run ps tee_new) = map snd ps \<and>
    spawn_meter J (Some d) (snd (tee_run ps tee_new)) =
      (let m = meter_run J (meter_new d) (map (\<lambda>(ev, ls). frame_of ev ls) fs) in (m_usage m, m_saw_terminal m))"
proof -
  have "snd (tee_run ps tee_new) = data_frames (map snd ps)"
    using tee_run_all [OF assms(5)] by (simp add: tee_new_def)
  moreover have "feed sse_push sse_new (data_frames (map snd ps)) =
      (sse_new, map (\<lambda>(ev, ls). frame_of ev ls) fs)"
    by (rule sse_feed_frames [OF assms(1-4)])
  moreover have "snd (sse_finish sse_new) = []" by code_simp
  ultimately show ?thesis
    using tee_run_client [of ps tee_new] by (simp add: spawn_meter_def meter_chunks_feed Let_def)
qed

theorem relayed_stream_is_metered_witness:
  "m_saw_terminal (meter_run sample_json (meter_new OpenAiChat) [frame_of None [''[DONE]'']]) \<longleftrightarrow>
    snd (spawn_meter sample_json (Some OpenAiChat)
      (snd (tee_run [(Accepted, BodyFrame (DataFrame ''data: [DO'')),
        (Accepted, BodyFrame (DataFrame (''NE]'' @ [newline, newline]))), (Full, EndOfBody :: string polled)] tee_new)))"
proof -
  let ?ps = "[(Accepted, BodyFrame (DataFrame ''data: [DO'')),
        (Accepted, BodyFrame (DataFrame (''NE]'' @ [newline, newline]))), (Full, EndOfBody :: string polled)]"
  have "is_eol [newline]" by (simp add: is_eol_def)
  moreover have "\<forall>(ev, ls) \<in> set [(None, [''[DONE]''])]. wire_frame ev ls"
    by (simp add: wire_frame_def clean_line_def trimmed_def ws_first_def ws_last_def white_space_def)
  moreover have "concat (data_frames (map snd ?ps)) =
      concat (map (\<lambda>(ev, ls). sse_wire [newline] ev ls) [(None, [''[DONE]''])])"
    by (simp add: sse_wire_def)
  moreover have "\<forall>c \<in> set (data_frames (map snd ?ps)). utf8_valid c"
    by (auto intro!: is_ascii_valid simp: is_ascii_def)
  ultimately show ?thesis
    using relayed_stream_is_metered [of "[newline]" "[(None, [''[DONE]''])]" ?ps sample_json OpenAiChat]
    by (simp add: Let_def)
qed

section \<open>Bodies\<close>

text \<open>
  hyper's \<open>Body\<close>: what a poll yields and the body after it, whether nothing is left, and the hint about the
  bytes left (at least, at most). \<open>poll_run\<close> polls a body once for each of what its surroundings answer.
\<close>

record ('b, 'e) body =
  bd_poll :: "'b \<Rightarrow> 'e polled \<times> 'b"
  bd_end :: "'b \<Rightarrow> bool"
  bd_hint :: "'b \<Rightarrow> u64 \<times> u64 option"

fun poll_run :: "('c \<Rightarrow> ('b, 'e) body) \<Rightarrow> 'c list \<Rightarrow> 'b \<Rightarrow> 'e polled list \<times> 'b" where
  "poll_run B [] b = ([], b)"
| "poll_run B (c # cs) b =
    (let (p, b') = bd_poll (B c) b; (ps, b'') = poll_run B cs b' in (p # ps, b''))"

text \<open>
  A body around another: a poll yields what the inner body yields and moves it as the inner poll does, and
  the other two methods are the inner ones. So no number of polls tells the two apart.
\<close>

locale body_wrapper =
  fixes inner :: "'c \<Rightarrow> ('b, 'e) body" and outer :: "'c \<Rightarrow> ('w, 'e) body" and inside :: "'w \<Rightarrow> 'b"
  assumes poll_frame: "bd_poll (inner c) (inside w) = map_prod id inside (bd_poll (outer c) w)"
    and is_end_stream: "bd_end (outer c) w = bd_end (inner c) (inside w)"
    and size_hint: "bd_hint (outer c) w = bd_hint (inner c) (inside w)"
begin

lemma poll_run_inner: "poll_run inner cs (inside w) = map_prod id inside (poll_run outer cs w)"
  by (induction cs arbitrary: w) (simp_all add: poll_frame split_beta Let_def)

lemma same_body:
  "fst (poll_run outer cs w) = fst (poll_run inner cs (inside w))"
  "bd_end (outer c) (snd (poll_run outer cs w)) = bd_end (inner c) (snd (poll_run inner cs (inside w)))"
  "bd_hint (outer c) (snd (poll_run outer cs w)) = bd_hint (inner c) (snd (poll_run inner cs (inside w)))"
  by (simp_all add: poll_run_inner is_end_stream size_hint)

end

text \<open>\<open>TeeBody\<close> as a body: the inner body and the sender, polled with what \<open>try_send\<close> answers.\<close>

definition tee_poll_frame :: "('b, 'e) body \<Rightarrow> sent \<Rightarrow> 'b \<times> tee_body \<Rightarrow> 'e polled \<times> 'b \<times> tee_body" where
  "tee_poll_frame B answer w =
    (let (p, b) = bd_poll B (fst w); (q, t, out) = tee_poll answer p (snd w) in (q, b, t))"

definition tee_is_end_stream :: "('b, 'e) body \<Rightarrow> 'b \<times> tee_body \<Rightarrow> bool" where
  "tee_is_end_stream B w = bd_end B (fst w)"

definition tee_size_hint :: "('b, 'e) body \<Rightarrow> 'b \<times> tee_body \<Rightarrow> u64 \<times> u64 option" where
  "tee_size_hint B w = bd_hint B (fst w)"

definition teed :: "('b, 'e) body \<Rightarrow> sent \<Rightarrow> ('b \<times> tee_body, 'e) body" where
  "teed B answer =
    \<lparr>bd_poll = tee_poll_frame B answer, bd_end = tee_is_end_stream B, bd_hint = tee_size_hint B\<rparr>"

lemma tee_poll_passes: "fst (tee_poll answer p t) = p"
  by (simp add: tee_poll_def split: polled.split body_frame.split sent.split)

interpretation tee: body_wrapper "\<lambda>_. B" "teed B" fst
  by unfold_locales
    (simp_all add: teed_def tee_poll_frame_def tee_is_end_stream_def tee_size_hint_def split_beta Let_def
      tee_poll_passes)

end
