(* ===== verification/Proxy_Observe.thy ===== *)
theory Proxy_Observe
  imports Proxy_Tee
begin

text \<open>
  The finish observer (\<open>crates/tailfin-proxy/src/observe.rs\<close>): a body that tells a callback, when it is
  dropped, whether it was read to its end. The crate does not declare the file as a module, so nothing
  calls it; it is modelled as it is written, over the bodies of \<open>Proxy_Tee\<close>.
\<close>

section \<open>The observer\<close>

text \<open>The flag that the body and its guard share, and whether the guard still has its callback.\<close>

record finish_guard =
  fg_complete :: bool
  fg_on_end :: bool

definition finish_new :: finish_guard where
  "finish_new = \<lparr>fg_complete = False, fg_on_end = True\<rparr>"

definition finish_poll_frame ::
  "('b, 'e) body \<Rightarrow> 'b \<times> finish_guard \<Rightarrow> 'e polled \<times> 'b \<times> finish_guard" where
  "finish_poll_frame B w =
    (case bd_poll B (fst w) of
       (EndOfBody, b) \<Rightarrow> (EndOfBody, b, (snd w)\<lparr>fg_complete := True\<rparr>)
     | (other, b) \<Rightarrow> (other, b, snd w))"

definition finish_is_end_stream :: "('b, 'e) body \<Rightarrow> 'b \<times> finish_guard \<Rightarrow> bool" where
  "finish_is_end_stream B w = bd_end B (fst w)"

definition finish_size_hint :: "('b, 'e) body \<Rightarrow> 'b \<times> finish_guard \<Rightarrow> u64 \<times> u64 option" where
  "finish_size_hint B w = bd_hint B (fst w)"

text \<open>Dropping the guard takes the callback; the second component is what it is called with.\<close>

definition finish_drop :: "finish_guard \<Rightarrow> finish_guard \<times> bool list" where
  "finish_drop g = (if fg_on_end g then (g\<lparr>fg_on_end := False\<rparr>, [fg_complete g]) else (g, []))"

definition finishing :: "('c \<Rightarrow> ('b, 'e) body) \<Rightarrow> 'c \<Rightarrow> ('b \<times> finish_guard, 'e) body" where
  "finishing B c =
    \<lparr>bd_poll = finish_poll_frame (B c), bd_end = finish_is_end_stream (B c), bd_hint = finish_size_hint (B c)\<rparr>"

lemma finishing_poll: "bd_poll (finishing B c) = finish_poll_frame (B c)"
  by (simp add: finishing_def)

lemma finish_poll_frame_eq:
  "finish_poll_frame B (b, g) =
    (let (p, b') = bd_poll B b in (p, b', g\<lparr>fg_complete := (fg_complete g \<or> p = EndOfBody)\<rparr>))"
  by (cases "bd_poll B b"; cases "fst (bd_poll B b)") (simp_all add: finish_poll_frame_def)

interpretation finish: body_wrapper B "finishing B" fst
proof unfold_locales
  fix c and w :: "'b \<times> finish_guard"
  show "bd_poll (B c) (fst w) = map_prod id fst (bd_poll (finishing B c) w)"
    by (cases w) (simp add: finishing_poll finish_poll_frame_eq split_beta Let_def)
qed (simp_all add: finishing_def finish_is_end_stream_def finish_size_hint_def)

section \<open>What the callback is told\<close>

lemma finish_run_guard:
  "poll_run (finishing B) cs (b, g) = (ps, b', g') \<Longrightarrow>
    g' = g\<lparr>fg_complete := (fg_complete g \<or> EndOfBody \<in> set ps)\<rparr>"
proof (induction cs arbitrary: b g ps)
  case (Cons c cs)
  obtain p b1 where poll: "bd_poll (B c) b = (p, b1)" by fastforce
  obtain qs w where rest: "poll_run (finishing B) cs (b1, g\<lparr>fg_complete := (fg_complete g \<or> p = EndOfBody)\<rparr>) = (qs, w)"
    by (meson surj_pair)
  then have "ps = p # qs" "w = (b', g')"
    using Cons.prems poll by (simp_all add: finishing_poll finish_poll_frame_eq Let_def)
  then show ?case using Cons.IH [of b1 "g\<lparr>fg_complete := (fg_complete g \<or> p = EndOfBody)\<rparr>" qs] rest by (auto simp: eq_commute [of EndOfBody p])
qed simp

text \<open>
  C14. However a stream ends, the observer is told of it once: around a teed body, whatever the metering
  channel answers and wherever the client stops polling, the client sees what the upstream body yields
  poll by poll, with the same end and the same size hint, and dropping the body calls back exactly once,
  with whether the end was polled; a second drop does not call.
\<close>

theorem observer_told_once_how_it_ended:
  "let start = ((b, tee_new), finish_new);
       (seen, done_body, guard) = poll_run (finishing (teed B)) answers start;
       upstream = snd (poll_run (\<lambda>_. B) answers b)
   in seen = fst (poll_run (\<lambda>_. B) answers b) \<and>
      bd_end (finishing (teed B) answer) (done_body, guard) = bd_end B upstream \<and>
      bd_hint (finishing (teed B) answer) (done_body, guard) = bd_hint B upstream \<and>
      snd (finish_drop guard) = [EndOfBody \<in> set seen] \<and>
      snd (finish_drop (fst (finish_drop guard))) = []"
proof -
  obtain seen w g where run: "poll_run (finishing (teed B)) answers ((b, tee_new), finish_new) = (seen, w, g)"
    by (metis surj_pair)
  have "g = finish_new\<lparr>fg_complete := (EndOfBody \<in> set seen)\<rparr>"
    using finish_run_guard [OF run] by (simp add: finish_new_def)
  then show ?thesis
    using run finish.same_body [where B = "teed B" and cs = answers and w = "((b, tee_new), finish_new)"]
      tee.same_body [where B = B and cs = answers and w = "(b, tee_new)"]
    by (simp add: finish_drop_def finish_new_def)
qed

end
