(* ===== verification/Proxy_Ws.thy ===== *)
theory Proxy_Ws
  imports Proxy_Http Wire_Sse
begin

text \<open>
  WebSocket passthrough (\<open>crates/tailfin-proxy/src/ws.rs\<close>): the decoder that scans server-to-client
  frames for text, the HTTP handshake with the upstream, and the loop that copies bytes both ways.
  The decoder indexes and slices its buffer, so it can panic: then there is no result.
\<close>

section \<open>The frame decoder\<close>

record ws_decoder =
  wd_buf :: string

definition ws_new :: ws_decoder where
  "ws_new = \<lparr>wd_buf = []\<rparr>"

text \<open>What one turn of the loop finds at the front of the buffer.\<close>

datatype ws_turn = WsMore | WsPanic | WsFrame nat string string

definition be_nat :: "string \<Rightarrow> nat" where
  "be_nat bs = foldl (\<lambda>n c. 256 * n + byte c) 0 bs"

definition xor_byte :: "char \<Rightarrow> char \<Rightarrow> char" where
  "xor_byte a b = char_of (xor (byte a) (byte b))"

definition unmask :: "string \<Rightarrow> string \<Rightarrow> string" where
  "unmask key payload = map (\<lambda>(i, b). xor_byte b (key ! (i mod 4))) (enumerate 0 payload)"

text \<open>\<open>len\<close> is a 64-bit \<open>usize\<close> and \<open>hdr + mask_len + len\<close> wraps.\<close>

definition ws_header :: "string \<Rightarrow> (nat \<times> bool \<times> u64 \<times> nat) option" where
  "ws_header buf =
    (if length buf < 2 then None
     else
       let opcode = byte (buf ! 0) mod 16;
           masked = 128 \<le> byte (buf ! 1);
           len7 = byte (buf ! 1) mod 128
       in if len7 = 126 then
            (if length buf < 4 then None
             else Some (opcode, masked, of_nat (be_nat (take 2 (drop 2 buf))), 4))
          else if len7 = 127 then
            (if length buf < 10 then None
             else Some (opcode, masked, of_nat (be_nat (take 8 (drop 2 buf))), 10))
          else Some (opcode, masked, of_nat len7, 2))"

definition ws_frame :: "string \<Rightarrow> ws_turn" where
  "ws_frame buf =
    (case ws_header buf of
       None \<Rightarrow> WsMore
     | Some (opcode, masked, len, hdr) \<Rightarrow>
         let start = hdr + (if masked then 4 else 0);
             stop = unat (of_nat start + len)
         in if length buf < stop then WsMore
            else if stop < start then WsPanic
            else
              let payload = take (stop - start) (drop start buf)
              in WsFrame opcode (if masked then unmask (take 4 (drop hdr buf)) payload else payload)
                   (drop stop buf))"

lemma ws_header_hdr: "ws_header buf = Some (opcode, masked, len, hdr) \<Longrightarrow> 2 \<le> hdr \<and> hdr \<le> length buf"
  by (auto simp: ws_header_def Let_def split: if_splits)

lemma ws_frame_shorter: "ws_frame buf = WsFrame op p rest \<Longrightarrow> length rest < length buf"
  by (auto simp: ws_frame_def Let_def split: if_splits option.splits dest!: ws_header_hdr)

text \<open>A close frame leaves the loop at once.\<close>

function ws_loop :: "string \<Rightarrow> (string list \<times> string) option" where
  "ws_loop buf =
    (case ws_frame buf of
       WsMore \<Rightarrow> Some ([], buf)
     | WsPanic \<Rightarrow> None
     | WsFrame op p rest \<Rightarrow>
         if op = 1 \<or> op = 2 then map_option (\<lambda>(out, b). (p # out, b)) (ws_loop rest)
         else if op = 8 then Some ([], rest)
         else ws_loop rest)"
  by pat_completeness auto
termination by (relation "measure length") (auto dest: ws_frame_shorter)

declare ws_loop.simps [simp del]

definition ws_push :: "ws_decoder \<Rightarrow> string \<Rightarrow> (ws_decoder \<times> string list) option" where
  "ws_push d chunk = map_option (\<lambda>(out, b). (d\<lparr>wd_buf := b\<rparr>, out)) (ws_loop (wd_buf d @ chunk))"

section \<open>The handshake\<close>

definition crlf :: string where
  "crlf = [carriage_return, newline]"

definition handshake_request :: "'h header_map \<Rightarrow> string \<Rightarrow> u16 \<Rightarrow> string \<Rightarrow> 'h \<Rightarrow> string" where
  "handshake_request H host port path h =
    (let host_hdr = (if port = 80 then host else host @ '':'' @ show_nat (unat port))
     in ''GET '' @ path @ '' HTTP/1.1'' @ crlf @ ''Host: '' @ host_hdr @ crlf @
        concat (map
          (\<lambda>(n, value).
            if eq_ignore_ascii_case n ''host'' \<or> eq_ignore_ascii_case n ''content-length'' then []
            else (case h_str H value of Some v \<Rightarrow> n @ '': '' @ v @ crlf | None \<Rightarrow> []))
          (h_iter H h)) @
        (if h_get H h ''connection'' = None then ''Connection: Upgrade'' @ crlf else []) @
        (if h_get H h ''upgrade'' = None then ''Upgrade: websocket'' @ crlf else []) @
        crlf)"

datatype handshake_error = HandshakeEof | HeaderTooLarge

text \<open>Reading the response head byte by byte: the head, and what is left in the socket.\<close>

fun handshake_head :: "string \<Rightarrow> string \<Rightarrow> handshake_error + string \<times> string" where
  "handshake_head acc [] = Inl HandshakeEof"
| "handshake_head acc (c # cs) =
    (let acc' = acc @ [c]
     in if ends_with acc' (crlf @ crlf) then Inr (acc', cs)
        else if 64 * 1024 < length acc' then Inl HeaderTooLarge
        else handshake_head acc' cs)"

fun split_crlf :: "string \<Rightarrow> string list" where
  "split_crlf (a # b # cs) =
    (if a = carriage_return \<and> b = newline then [] # split_crlf cs
     else case split_crlf (b # cs) of [] \<Rightarrow> [[a]] | l # ls \<Rightarrow> (a # l) # ls)"
| "split_crlf s = [s]"

fun take_word :: "string \<Rightarrow> string \<times> string" where
  "take_word [] = ([], [])"
| "take_word (c # cs) =
    (if list_ex (starts_with (c # cs)) white_space then ([], c # cs)
     else let (a, b) = take_word cs in (c # a, b))"

text \<open>\<open>split_whitespace().nth(1)\<close>.\<close>

definition second_word :: "string \<Rightarrow> string option" where
  "second_word s =
    (let w = fst (take_word (trim_start (snd (take_word (trim_start s)))))
     in if w = [] then None else Some w)"

definition parse_u16 :: "string \<Rightarrow> u16 option" where
  "parse_u16 s =
    (case parse_u64 s of Some n \<Rightarrow> if unat n < 2 ^ 16 then Some (ucast n) else None | None \<Rightarrow> None)"

definition split_colon :: "string \<Rightarrow> (string \<times> string) option" where
  "split_colon line =
    (case find_pred line (\<lambda>c. c = CHR '':'') of Some i \<Rightarrow> Some (take i line, drop (i + 1) line) | None \<Rightarrow> None)"

definition handshake_response :: "'h header_map \<Rightarrow> (u16 \<Rightarrow> bool) \<Rightarrow> string \<Rightarrow> u16 \<times> 'h" where
  "handshake_response H status_ok head =
    (let ls = split_crlf (from_utf8_lossy head);
         code = (case Option.bind (second_word (hd ls)) parse_u16 of Some c \<Rightarrow> c | None \<Rightarrow> 500);
         status = (if status_ok code then code else 500);
         add = (\<lambda>line h.
           if line = [] then h
           else (case split_colon line of
             None \<Rightarrow> h
           | Some (k, v) \<Rightarrow>
               (case (h_name H (trim k), h_value H (trim v)) of
                  (Some n, Some w) \<Rightarrow> h_append H n w h
                | _ \<Rightarrow> h)))
     in (status, fold add (tl ls) (h_empty H)))"

section \<open>The splice\<close>

text \<open>
  A read from either side with the outcome of the write that follows it; \<open>None\<close> is a read error and
  the empty string the end of the stream.
\<close>

datatype splice_event = FromClient "string option" bool | FromUpstream "string option" bool

record spliced =
  sp_upstream :: string
  sp_client :: string
  sp_seen :: "string list"

fun splice_loop :: "splice_event list \<Rightarrow> spliced \<Rightarrow> spliced" where
  "splice_loop [] s = s"
| "splice_loop (FromClient r ok # es) s =
    (case r of
       None \<Rightarrow> s
     | Some bs \<Rightarrow>
         if bs = [] then s
         else if ok then splice_loop es (s\<lparr>sp_upstream := sp_upstream s @ bs\<rparr>)
         else s)"
| "splice_loop (FromUpstream r ok # es) s =
    (case r of
       None \<Rightarrow> s
     | Some bs \<Rightarrow>
         if bs = [] then s
         else
           let s' = s\<lparr>sp_seen := sp_seen s @ [bs]\<rparr>
           in if ok then splice_loop es (s'\<lparr>sp_client := sp_client s' @ bs\<rparr>) else s')"

definition splice_tcp :: "splice_event list \<Rightarrow> spliced" where
  "splice_tcp es = splice_loop es \<lparr>sp_upstream = [], sp_client = [], sp_seen = []\<rparr>"

definition splice :: "splice_event list \<Rightarrow> spliced" where
  "splice es = splice_loop es \<lparr>sp_upstream = [], sp_client = [], sp_seen = []\<rparr>"

section \<open>Metering a WebSocket\<close>

record ws_scan =
  ws_sse :: sse_decoder
  ws_dec :: ws_decoder
  ws_meter :: "meter option"

definition ws_scan_new :: "dialect option \<Rightarrow> ws_scan" where
  "ws_scan_new dialect = \<lparr>ws_sse = sse_new, ws_dec = ws_new, ws_meter = map_option meter_new dialect\<rparr>"

text \<open>A payload goes through the SSE decoder and, when it is a JSON object, to the meter as it is.\<close>

definition ws_payload :: "'v serde_json \<Rightarrow> string \<Rightarrow> sse_decoder \<times> meter \<Rightarrow> sse_decoder \<times> meter" where
  "ws_payload J p st =
    (let (d, fs) = sse_push (fst st) p;
         m = foldl (meter_observe J) (snd st) fs
     in (d, if utf8_valid p \<and> starts_with (trim p) ''{''
            then meter_observe J m \<lparr>fr_event = None, fr_data = trim p\<rparr> else m))"

definition ws_upstream :: "'v serde_json \<Rightarrow> ws_scan \<Rightarrow> string \<Rightarrow> ws_scan option" where
  "ws_upstream J s bytes =
    (case ws_meter s of
       None \<Rightarrow> Some s
     | Some m \<Rightarrow>
         map_option
           (\<lambda>(d, ps).
             let (sd, m') = fold (ws_payload J) ps (ws_sse s, m)
             in s\<lparr>ws_sse := sd, ws_dec := d, ws_meter := Some m'\<rparr>)
           (ws_push (ws_dec s) bytes))"

definition ws_usage :: "'v serde_json \<Rightarrow> ws_scan \<Rightarrow> usage \<times> bool" where
  "ws_usage J s =
    (case ws_meter s of
       None \<Rightarrow> (usage_default, False)
     | Some m \<Rightarrow>
         let m' = foldl (meter_observe J) m (snd (sse_finish (ws_sse s)))
         in (m_usage m', m_saw_terminal m'))"

section \<open>Frames on the wire\<close>

text \<open>A frame as RFC 6455 writes it: final, of any opcode, masked when a key is given.\<close>

definition be_bytes :: "nat \<Rightarrow> nat \<Rightarrow> string" where
  "be_bytes k n = map (\<lambda>i. char_of (n div 256 ^ (k - 1 - i))) [0..<k]"

definition ws_wire :: "nat \<Rightarrow> string option \<Rightarrow> string \<Rightarrow> string" where
  "ws_wire op key p =
    (let m = (if key = None then 0 else 128); n = length p
     in [char_of (128 + op)] @
        (if n < 126 then [char_of (m + n)]
         else if n < 2 ^ 16 then char_of (m + 126) # be_bytes 2 n
         else char_of (m + 127) # be_bytes 8 n) @
        (case key of None \<Rightarrow> p | Some k \<Rightarrow> k @ unmask k p))"

definition ws_ok :: "nat \<times> string option \<times> string \<Rightarrow> bool" where
  "ws_ok f \<longleftrightarrow> (case f of (op, key, p) \<Rightarrow>
    op < 16 \<and> op \<noteq> 8 \<and> length p < 2 ^ 63 \<and> (case key of None \<Rightarrow> True | Some k \<Rightarrow> length k = 4))"

lemma length_be_bytes [simp]: "length (be_bytes k n) = k"
  by (simp add: be_bytes_def)

lemma be_nat_snoc: "be_nat (s @ [c]) = 256 * be_nat s + byte c"
  by (simp add: be_nat_def)

lemma be_bytes_Suc: "be_bytes (Suc k) n = be_bytes k (n div 256) @ [char_of n]"
proof -
  have "n div 256 ^ (k - i) = n div 256 div 256 ^ (k - 1 - i)" if "i < k" for i
    using that by (cases "k - i") (simp_all add: div_mult2_eq flip: Suc_diff_Suc)
  then show ?thesis by (auto simp: be_bytes_def)
qed

lemma be_nat_bytes: "n < 256 ^ k \<Longrightarrow> be_nat (be_bytes k n) = n"
proof (induction k arbitrary: n)
  case (Suc k)
  then have "n div 256 < 256 ^ k" by (simp add: less_mult_imp_div_less mult.commute)
  with Suc.IH show ?case by (simp add: be_bytes_Suc be_nat_snoc)
qed (simp add: be_bytes_def be_nat_def)

lemma take_bit_byte: "take_bit 8 (byte c) = byte c"
  by (simp add: take_bit_eq_mod)

lemma xor_byte_twice: "xor_byte (xor_byte a b) b = a"
proof -
  have "byte (char_of (xor (byte a) (byte b))) = take_bit 8 (xor (byte a) (byte b))"
    by (simp add: take_bit_eq_mod)
  also have "\<dots> = xor (byte a) (byte b)" by (simp add: take_bit_byte)
  finally show ?thesis by (simp add: xor_byte_def xor.assoc)
qed

lemma unmask_twice: "unmask k (unmask k p) = p"
  by (rule nth_equalityI) (simp_all add: unmask_def nth_enumerate_eq xor_byte_twice)

lemma length_unmask [simp]: "length (unmask k p) = length p"
  by (simp add: unmask_def)

lemma unat_of_nat_add: "a + b < 2 ^ 64 \<Longrightarrow> unat (of_nat a + of_nat b :: u64) = a + b"
  by (simp add: unat_of_nat take_bit_nat_eq_self flip: of_nat_add)

lemma ws_frame_parts:
  assumes "byte b0 mod 16 = op" "128 \<le> byte b1 \<longleftrightarrow> key \<noteq> None" "length p < 2 ^ 63"
    and "byte b1 mod 128 < 126 \<and> ext = [] \<and> byte b1 mod 128 = length p \<or>
      byte b1 mod 128 = 126 \<and> length ext = 2 \<and> be_nat ext = length p \<or>
      byte b1 mod 128 = 127 \<and> length ext = 8 \<and> be_nat ext = length p"
    and "\<And>k. key = Some k \<Longrightarrow> length k = 4"
  shows "ws_frame (b0 # b1 # ext @ (case key of None \<Rightarrow> p | Some k \<Rightarrow> k @ unmask k p) @ rest) = WsFrame op p rest"
proof -
  let ?q = "case key of None \<Rightarrow> p | Some k \<Rightarrow> k @ unmask k p"
  have header: "ws_header (b0 # b1 # ext @ t) =
      Some (op, key \<noteq> None, of_nat (length p), 2 + length ext)" for t
    using assms(1,2,4) by (auto simp: ws_header_def)
  have "length ext \<le> 8" using assms(4) by auto
  then have "unat (of_nat (2 + length ext + (if key \<noteq> None then 4 else 0)) + of_nat (length p) :: u64) =
      2 + length ext + (if key \<noteq> None then 4 else 0) + length p"
    by (intro unat_of_nat_add) (use assms(3) in auto)
  then show ?thesis
    using assms(5) unfolding ws_frame_def header
    by (cases key) (simp_all add: Let_def unmask_twice drop_Cons')
qed

lemma ws_header_append: "ws_header buf = Some h \<Longrightarrow> ws_header (buf @ x) = Some h"
  by (auto simp: ws_header_def Let_def nth_append split: if_splits)

lemma ws_frame_append:
  assumes "ws_frame buf = WsFrame op p rest"
  shows "ws_frame (buf @ x) = WsFrame op p (rest @ x)"
proof -
  obtain masked len hdr where h: "ws_header buf = Some (op, masked, len, hdr)"
    using assms by (auto simp: ws_frame_def Let_def split: option.splits if_splits)
  define start where "start = hdr + (if masked then 4 else 0)"
  define stop where "stop = unat (of_nat start + len)"
  have frame: "ws_frame b = (if length b < stop then WsMore else if stop < start then WsPanic
      else WsFrame op (if masked then unmask (take 4 (drop hdr b)) (take (stop - start) (drop start b))
        else take (stop - start) (drop start b)) (drop stop b))"
    if "ws_header b = Some (op, masked, len, hdr)" for b
    using that by (simp add: ws_frame_def Let_def start_def stop_def)
  have le: "stop \<le> length buf" "start \<le> stop" using assms frame [OF h] by (auto split: if_splits)
  then have "take 4 (drop hdr (buf @ x)) = take 4 (drop hdr buf)" if masked
    using that by (simp add: start_def)
  with le assms show ?thesis
    by (auto simp: frame [OF h] frame [OF ws_header_append [OF h]])
qed

lemma ws_panic_append:
  assumes "ws_frame buf = WsPanic"
  shows "ws_frame (buf @ x) = WsPanic"
proof -
  obtain h where h: "ws_header buf = Some h"
    using assms by (auto simp: ws_frame_def split: option.splits)
  show ?thesis
    using assms h ws_header_append [OF h, of x]
    by (auto simp: ws_frame_def Let_def split: if_splits prod.splits)
qed


section \<open>Chunks do not matter\<close>

text \<open>The bytes hold no close frame and no length that wraps.\<close>

function ws_clean :: "string \<Rightarrow> bool" where
  "ws_clean buf \<longleftrightarrow>
    (case ws_frame buf of
       WsMore \<Rightarrow> True
     | WsPanic \<Rightarrow> False
     | WsFrame op p rest \<Rightarrow> op \<noteq> 8 \<and> ws_clean rest)"
  by pat_completeness auto
termination by (relation "measure length") (auto dest: ws_frame_shorter)

declare ws_clean.simps [simp del]

lemma ws_loop_clean:
  "ws_clean buf \<Longrightarrow> \<exists>out b. ws_loop buf = Some (out, b) \<and> ws_frame b = WsMore"
proof (induction buf rule: ws_clean.induct)
  case (1 buf)
  then show ?case
    by (cases "ws_frame buf") (force simp: ws_clean.simps [of buf] ws_loop.simps [of buf])+
qed

lemma ws_loop_idle: "ws_frame b = WsMore \<Longrightarrow> ws_loop b = Some ([], b)"
  by (simp add: ws_loop.simps [of b])

lemma ws_clean_append:
  "ws_clean (buf @ x) \<Longrightarrow>
    ws_clean buf \<and>
    (\<exists>o1 b1. ws_loop buf = Some (o1, b1) \<and> ws_clean (b1 @ x) \<and>
      ws_loop (buf @ x) = map_option (\<lambda>(o2, b2). (o1 @ o2, b2)) (ws_loop (b1 @ x)))"
proof (induction buf rule: ws_clean.induct)
  case (1 buf)
  show ?case
  proof (cases "ws_frame buf")
    case WsMore
    then show ?thesis
      using "1.prems" by (auto simp: ws_clean.simps [of buf] ws_loop_idle option.map_ident case_prod_unfold)
  next
    case WsPanic
    then show ?thesis
      using "1.prems" ws_panic_append [OF WsPanic] by (simp add: ws_clean.simps [of "buf @ x"])
  next
    case (WsFrame op p rest)
    have more: "ws_frame (buf @ x) = WsFrame op p (rest @ x)" by (rule ws_frame_append [OF WsFrame])
    with "1.prems" have ok: "op \<noteq> 8" "ws_clean (rest @ x)" by (simp_all add: ws_clean.simps [of "buf @ x"])
    from "1.IH" [OF WsFrame this(2)] obtain o1 b1 where
      ih: "ws_clean rest" "ws_loop rest = Some (o1, b1)" "ws_clean (b1 @ x)"
        "ws_loop (rest @ x) = map_option (\<lambda>(o2, b2). (o1 @ o2, b2)) (ws_loop (b1 @ x))" by blast
    then show ?thesis
      using WsFrame more ok
      by (auto simp: ws_clean.simps [of buf] ws_loop.simps [of buf] ws_loop.simps [of "buf @ x"]
          option.map_comp comp_def case_prod_unfold)
  qed
qed

text \<open>The decoder as a step on a state that a panic ends.\<close>

definition ws_step :: "ws_decoder option \<Rightarrow> string \<Rightarrow> ws_decoder option \<times> string list" where
  "ws_step s chunk =
    (case Option.bind s (\<lambda>d. ws_push d chunk) of Some (d, out) \<Rightarrow> (Some d, out) | None \<Rightarrow> (None, []))"

definition ws_idle :: "ws_decoder option \<Rightarrow> bool" where
  "ws_idle s \<longleftrightarrow> (\<exists>d. s = Some d \<and> ws_frame (wd_buf d) = WsMore)"

definition ws_good :: "ws_decoder option \<Rightarrow> string \<Rightarrow> bool" where
  "ws_good s x \<longleftrightarrow> (\<exists>d. s = Some d \<and> ws_clean (wd_buf d @ x))"

lemma ws_step_loop:
  "ws_loop (wd_buf d @ x) = Some (out, b) \<Longrightarrow> ws_step (Some d) x = (Some (d\<lparr>wd_buf := b\<rparr>), out)"
  by (simp add: ws_step_def ws_push_def)

interpretation ws: incremental ws_step ws_idle ws_good
proof
  show "ws_idle s \<Longrightarrow> ws_step s [] = (s, [])" for s
    by (auto simp: ws_idle_def ws_loop_idle ws_step_loop)
  show "ws_good s a \<Longrightarrow> ws_idle (fst (ws_step s a))" for s a
    using ws_loop_clean by (fastforce simp: ws_good_def ws_idle_def ws_step_loop)
  show "ws_good s a \<and> ws_good (fst (ws_step s a)) b" if "ws_good s (a @ b)" for s a b
    using that ws_clean_append [of "wd_buf (the s) @ a" b] by (auto simp: ws_good_def ws_step_loop)
  show "ws_step s (a @ b) = (let (s1, f1) = ws_step s a; (s2, f2) = ws_step s1 b in (s2, f1 @ f2))"
    if good: "ws_good s (a @ b)" for s a b
  proof -
    obtain d where d: "s = Some d" "ws_clean ((wd_buf d @ a) @ b)" using good by (auto simp: ws_good_def)
    from ws_clean_append [OF this(2)] obtain o1 b1 where
      l: "ws_loop (wd_buf d @ a) = Some (o1, b1)" "ws_clean (b1 @ b)"
        "ws_loop ((wd_buf d @ a) @ b) = map_option (\<lambda>(o2, b2). (o1 @ o2, b2)) (ws_loop (b1 @ b))" by blast
    from ws_loop_clean [OF l(2)] obtain o2 b2 where "ws_loop (b1 @ b) = Some (o2, b2)" by blast
    with l show ?thesis by (simp add: d(1) ws_step_loop)
  qed
qed

text \<open>
  C33. The scan of a WebSocket does not depend on how the socket cuts the bytes: for any bytes without a
  close frame and without a frame whose length makes the scan panic, the text payloads found and the state
  left are the same for every way of reading them. (After a close frame the rest of a read waits for the next
  one, and a panic loses the payloads of its own read, so there the cuts do matter.)
\<close>

theorem ws_chunking_irrelevant:
  assumes "ws_clean (concat cs)" "concat cs = concat ds"
  shows "feed ws_step (Some ws_new) cs = feed ws_step (Some ws_new) ds"
  by (rule ws.chunking_irrelevant) (use assms in \<open>simp_all add: ws_idle_def ws_good_def ws_new_def ws_frame_def ws_header_def\<close>)


lemma ws_frame_wire:
  assumes "op < 16" "length p < 2 ^ 63" "\<And>k. key = Some k \<Longrightarrow> length k = 4"
  shows "ws_frame (ws_wire op key p @ rest) = WsFrame op p rest"
proof -
  define m where "m = (if key = None then 0 else 128 :: nat)"
  define b1 where "b1 = (if length p < 126 then m + length p else if length p < 2 ^ 16 then m + 126 else m + 127)"
  define ext where "ext =
    (if length p < 126 then [] else if length p < 2 ^ 16 then be_bytes 2 (length p) else be_bytes 8 (length p))"
  have wire: "ws_wire op key p @ rest =
      char_of (128 + op) # char_of b1 # ext @ (case key of None \<Rightarrow> p | Some k \<Rightarrow> k @ unmask k p) @ rest"
    by (simp add: ws_wire_def Let_def m_def b1_def ext_def)
  have b1: "byte (char_of b1) = b1" by (simp add: b1_def m_def)
  show ?thesis
    unfolding wire
  proof (rule ws_frame_parts)
    have "(128 + op) mod 16 = op" using assms(1) by presburger
    then show "byte (char_of (128 + op)) mod 16 = op" using assms(1) by simp
    show "128 \<le> byte (char_of b1) \<longleftrightarrow> key \<noteq> None" unfolding b1 by (simp add: b1_def m_def)
    show "byte (char_of b1) mod 128 < 126 \<and> ext = [] \<and> byte (char_of b1) mod 128 = length p \<or>
      byte (char_of b1) mod 128 = 126 \<and> length ext = 2 \<and> be_nat ext = length p \<or>
      byte (char_of b1) mod 128 = 127 \<and> length ext = 8 \<and> be_nat ext = length p"
      unfolding b1 using assms(2) by (auto simp: b1_def m_def ext_def be_nat_bytes)
  qed (use assms in auto)
qed

lemma ws_wires:
  assumes "\<forall>f \<in> set fs. ws_ok f"
  shows "ws_clean (concat (map (\<lambda>(op, key, p). ws_wire op key p) fs)) \<and>
    ws_loop (concat (map (\<lambda>(op, key, p). ws_wire op key p) fs)) =
      Some (map (\<lambda>(op, key, p). p) (filter (\<lambda>(op, key, p). op = 1 \<or> op = 2) fs), [])"
  using assms
proof (induction fs)
  case Nil
  then show ?case by (simp add: ws_clean.simps [of "[]"] ws_loop.simps [of "[]"] ws_frame_def ws_header_def)
next
  case (Cons f fs)
  obtain op key p where f: "f = (op, key, p)" by (cases f)
  let ?rest = "concat (map (\<lambda>(op, key, p). ws_wire op key p) fs)"
  have ok: "op < 16" "op \<noteq> 8" "length p < 2 ^ 63" "\<And>k. key = Some k \<Longrightarrow> length k = 4"
    using Cons.prems by (auto simp: f ws_ok_def)
  have "ws_frame (ws_wire op key p @ ?rest) = WsFrame op p ?rest"
    by (rule ws_frame_wire) (use ok in auto)
  then show ?case
    using Cons ok by (simp add: f ws_clean.simps [of "ws_wire op key p @ _"] ws_loop.simps [of "ws_wire op key p @ _"])
qed

text \<open>
  C13. Every text and binary frame of a WebSocket is found: for any sequence of final frames other than
  close, masked or not, of any length below 2^63, and any way of cutting their bytes, the scan yields
  exactly the payloads of the text and binary ones, unmasked and in order, and its buffer ends empty.
\<close>

theorem ws_frames_decode_exactly_once:
  assumes "\<forall>f \<in> set fs. ws_ok f" "concat cs = concat (map (\<lambda>(op, key, p). ws_wire op key p) fs)"
  shows "feed ws_step (Some ws_new) cs =
    (Some ws_new, map (\<lambda>(op, key, p). p) (filter (\<lambda>(op, key, p). op = 1 \<or> op = 2) fs))"
proof -
  have "ws_idle (Some ws_new)" "ws_good (Some ws_new) (concat cs)"
    using ws_wires [OF assms(1)] assms(2)
    by (simp_all add: ws_idle_def ws_good_def ws_new_def ws_frame_def ws_header_def)
  then have "feed ws_step (Some ws_new) cs = ws_step (Some ws_new) (concat cs)" by (rule ws.feed_concat)
  then show ?thesis
    using ws_wires [OF assms(1)] assms(2) by (simp add: ws_step_def ws_push_def ws_new_def)
qed

theorem ws_frames_decode_exactly_once_witness:
  "feed ws_step (Some ws_new) [[CHR 0x81], [CHR 0x02, CHR ''h''], ''i'' @ [CHR 0x89, CHR 0x00]] =
    (Some ws_new, [''hi''])"
proof -
  let ?cs = "[[CHR 0x81], [CHR 0x02, CHR ''h''], ''i'' @ [CHR 0x89, CHR 0x00]]"
  have "concat ?cs = concat (map (\<lambda>(op, key, p). ws_wire op key p) [(1, None, ''hi''), (9, None, [])])"
    by code_simp
  then show ?thesis
    using ws_frames_decode_exactly_once [of "[(1, None, ''hi''), (9, None, [])]" ?cs]
    by (simp add: ws_ok_def)
qed

theorem ws_chunking_irrelevant_witness:
  "feed ws_step (Some ws_new) [[CHR 0x81], [CHR 0x02, CHR ''h''], ''i'' @ [CHR 0x81]] =
    feed ws_step (Some ws_new) [[CHR 0x81, CHR 0x02, CHR ''h'', CHR ''i'', CHR 0x81]]"
proof (rule ws_chunking_irrelevant)
  have "ws_frame [CHR 0x81, CHR 0x02, CHR ''h'', CHR ''i'', CHR 0x81] = WsFrame 1 ''hi'' [CHR 0x81]" by code_simp
  moreover have "ws_frame [CHR 0x81] = WsMore" by code_simp
  ultimately show "ws_clean (concat [[CHR 0x81], [CHR 0x02, CHR ''h''], ''i'' @ [CHR 0x81]])"
    by (simp add: ws_clean.simps)
qed simp

section \<open>What the scan gets wrong\<close>

text \<open>
  C34. A frame header alone can stop the scan for good: for any 64-bit length so close to 2^64 that adding
  the header wraps, the ten header bytes of an unmasked text frame make the decoder slice backwards and
  panic.
\<close>

theorem ws_length_wrap_panics:
  "2 ^ 64 - 10 \<le> n \<and> n < 2 ^ 64 \<longrightarrow>
    ws_push ws_new ([CHR 0x81, CHR 0x7F] @ be_bytes 8 n) = None"
proof
  assume n: "2 ^ 64 - 10 \<le> n \<and> n < 2 ^ 64"
  let ?buf = "[CHR 0x81, CHR 0x7F] @ be_bytes 8 n"
  have "ws_header ?buf = Some (1, False, of_nat n, 10)"
    using n by (simp add: ws_header_def be_nat_bytes)
  moreover have "unat (of_nat 10 + of_nat n :: u64) = 10 + n - 2 ^ 64"
  proof -
    have "unat (of_nat (10 + n) :: u64) = (10 + n) mod 2 ^ 64" by (simp only: unsigned_of_nat take_bit_eq_mod) simp
    also have "\<dots> = (10 + n - 2 ^ 64) mod 2 ^ 64" by (rule le_mod_geq) (use n in arith)
    also have "\<dots> = 10 + n - 2 ^ 64" by (rule mod_less) (use n in \<open>simp add: less_imp_diff_less\<close>)
    finally show ?thesis by simp
  qed
  moreover have "10 + n - 2 ^ 64 < 10" using n by arith
  ultimately have "ws_frame ?buf = WsPanic"
    by (simp add: ws_frame_def)
  then show "ws_push ws_new ?buf = None"
    by (simp add: ws_push_def ws_new_def ws_loop.simps [of "_ # _"])
qed

theorem ws_length_wrap_panics_witness:
  "ws_push ws_new ([CHR 0x81, CHR 0x7F] @ be_bytes 8 18446744073709551615) = None"
  using ws_length_wrap_panics [of 18446744073709551615] by simp

text \<open>
  A message sent in fragments is not reassembled: only the first fragment is scanned, so usage that
  comes in a fragmented message is not metered.
\<close>

lemma ws_fragments_lost:
  "length p < 126 \<and> length q < 126 \<longrightarrow>
    ws_push ws_new ([CHR 0x01, char_of (length p)] @ p @ [CHR 0x80, char_of (length q)] @ q) = Some (ws_new, [p])"
proof
  assume n: "length p < 126 \<and> length q < 126"
  let ?rest = "[CHR 0x80, char_of (length q)] @ q"
  have "ws_frame ([CHR 0x01, char_of (length p)] @ p @ ?rest) = WsFrame 1 p ?rest"
    using ws_frame_parts [of "CHR 0x01" 1 "char_of (length p)" None p "[]" ?rest] n by simp
  moreover have "ws_frame ?rest = WsFrame 0 q []"
    using ws_frame_parts [of "CHR 0x80" 0 "char_of (length q)" None q "[]" "[]"] n by simp
  moreover have "ws_frame [] = WsMore" by code_simp
  ultimately show "ws_push ws_new ([CHR 0x01, char_of (length p)] @ p @ ?rest) = Some (ws_new, [p])"
    by (simp add: ws_push_def ws_new_def ws_loop.simps)
qed

lemma ws_fragments_lost_witness:
  "ws_push ws_new ([CHR 0x01, char_of (length ''a'')] @ ''a'' @ [CHR 0x80, char_of (length ''b'')] @ ''b'') =
    Some (ws_new, [''a''])"
  using ws_fragments_lost [of "''a''" "''b''"] by simp

section \<open>Handshake and splice\<close>

lemma handshake_head_rest:
  "handshake_head acc cs = Inr (head, rest) \<Longrightarrow>
    acc @ cs = head @ rest \<and> ends_with head (crlf @ crlf) \<and> length head \<le> max (length acc) (64 * 1024) + 1"
  by (induction acc cs rule: handshake_head.induct) (auto simp: Let_def split: if_splits)

text \<open>
  Where a response head ends: at its first blank line, if that lies within one byte more than the limit.
\<close>

definition head_end :: "string \<Rightarrow> nat option" where
  "head_end cs = find (\<lambda>k. ends_with (take k cs) (crlf @ crlf)) [1..<Suc (min (length cs) (64 * 1024 + 1))]"

lemma handshake_head_find:
  assumes "length acc \<le> 64 * 1024"
  shows "handshake_head acc cs =
    (case find (\<lambda>k. ends_with (take k (acc @ cs)) (crlf @ crlf))
        [Suc (length acc)..<Suc (min (length (acc @ cs)) (64 * 1024 + 1))] of
       Some k \<Rightarrow> Inr (take k (acc @ cs), drop k (acc @ cs))
     | None \<Rightarrow> Inl (if 64 * 1024 < length (acc @ cs) then HeaderTooLarge else HandshakeEof))"
  using assms
proof (induction acc cs rule: handshake_head.induct)
  case (1 acc)
  then have "[Suc (length acc)..<Suc (min (length (acc @ [])) (64 * 1024 + 1))] = []" by simp
  then show ?case using 1 by simp
next
  case (2 acc c cs)
  define full where "full = acc @ c # cs"
  define n where "n = Suc (min (length full) (64 * 1024 + 1))"
  have full: "take (Suc (length acc)) full = acc @ [c]" "drop (Suc (length acc)) full = cs" "(acc @ [c]) @ cs = full"
    by (simp_all add: full_def)
  have "Suc (length acc) < n" using 2(2) by (simp add: n_def full_def)
  then have first: "[Suc (length acc)..<n] = Suc (length acc) # [Suc (Suc (length acc))..<n]" by (rule upt_conv_Cons)
  show ?case
    unfolding full_def [symmetric] n_def [symmetric] first
  proof (cases "ends_with (acc @ [c]) (crlf @ crlf)")
    case True
    then show "handshake_head acc (c # cs) =
      (case find (\<lambda>k. ends_with (take k full) (crlf @ crlf)) (Suc (length acc) # [Suc (Suc (length acc))..<n]) of
         Some k \<Rightarrow> Inr (take k full, drop k full)
       | None \<Rightarrow> Inl (if 64 * 1024 < length full then HeaderTooLarge else HandshakeEof))"
      by (simp add: Let_def full)
  next
    case more: False
    then have tail: "find (\<lambda>k. ends_with (take k full) (crlf @ crlf)) (Suc (length acc) # ks) =
        find (\<lambda>k. ends_with (take k full) (crlf @ crlf)) ks" for ks by (simp add: full)
    show "handshake_head acc (c # cs) =
      (case find (\<lambda>k. ends_with (take k full) (crlf @ crlf)) (Suc (length acc) # [Suc (Suc (length acc))..<n]) of
         Some k \<Rightarrow> Inr (take k full, drop k full)
       | None \<Rightarrow> Inl (if 64 * 1024 < length full then HeaderTooLarge else HandshakeEof))"
    proof (cases "64 * 1024 < length (acc @ [c])")
      case True
      then have "[Suc (Suc (length acc))..<n] = []" "64 * 1024 < length full" by (simp_all add: n_def full_def)
      then show ?thesis unfolding tail \<open>[Suc (Suc (length acc))..<n] = []\<close> using more True by (simp add: Let_def)
    next
      case False
      then have "length (acc @ [c]) \<le> 64 * 1024" by simp
      from 2(1) [OF refl more False this, unfolded full(3), folded n_def] show ?thesis
        unfolding tail using more False by (simp add: Let_def)
    qed
  qed
qed

text \<open>
  C29. The handshake stops reading: the loop over the bytes of the upstream's response head returns the head
  at its first blank line if that comes within 65537 bytes, fails with an oversized head at the 65537th byte
  if it does not, and with the end of the stream only before that. So an upstream that never stops sending
  is read for at most 65537 bytes: whatever it would send after them makes no difference.
\<close>

theorem handshake_stops_reading:
  "handshake_head [] cs =
     (case head_end cs of
        Some k \<Rightarrow> Inr (take k cs, drop k cs)
      | None \<Rightarrow> Inl (if 64 * 1024 < length cs then HeaderTooLarge else HandshakeEof)) \<and>
   (64 * 1024 < length cs \<longrightarrow>
     handshake_head [] cs \<noteq> Inl HandshakeEof \<and>
     handshake_head [] (cs @ later) = map_sum id (\<lambda>(head, rest). (head, rest @ later)) (handshake_head [] cs))"
proof -
  have eq: "handshake_head [] bs =
     (case head_end bs of
        Some k \<Rightarrow> Inr (take k bs, drop k bs)
      | None \<Rightarrow> Inl (if 64 * 1024 < length bs then HeaderTooLarge else HandshakeEof))" for bs
  proof -
    have "length ([] :: string) \<le> 64 * 1024" by simp
    from handshake_head_find [OF this, of bs] show ?thesis
      unfolding head_end_def by (simp only: append_Nil list.size One_nat_def)
  qed
  have same: "head_end (cs @ later) = head_end cs" "\<And>k. head_end cs = Some k \<Longrightarrow> k \<le> length cs" if "64 * 1024 < length cs"
  proof -
    have "min (length (cs @ later)) (64 * 1024 + 1) = min (length cs) (64 * 1024 + 1)" using that by simp
    then show "head_end (cs @ later) = head_end cs"
      unfolding head_end_def by (intro find_cong) auto
    show "k \<le> length cs" if "head_end cs = Some k" for k
    proof -
      from that have "k \<in> set [1..<Suc (min (length cs) (64 * 1024 + 1))]"
        unfolding head_end_def find_Some_iff by (metis nth_mem)
      then show ?thesis by (auto simp: min_def split: if_splits)
    qed
  qed
  show ?thesis
    using same by (auto simp: eq split: option.split)
qed

text \<open>A whole head, and one of which no end is in sight.\<close>

theorem handshake_stops_reading_witness:
  "\<forall>later. handshake_head [] (replicate (64 * 1024 + 1) (CHR ''a'') @ later) = Inl HeaderTooLarge"
proof
  fix later
  let ?cs = "replicate (64 * 1024 + 1) (CHR ''a'')"
  have "\<not> ends_with (take k ?cs) (crlf @ crlf)" for k
  proof
    assume "ends_with (take k ?cs) (crlf @ crlf)"
    then obtain r where "take k ?cs = r @ crlf @ crlf" by (auto simp: ends_with_iff)
    then have "newline \<in> set (take k ?cs)" by (simp only: crlf_def) simp
    then have "newline \<in> set ?cs" by (rule in_set_takeD)
    then show False by simp
  qed
  then have "head_end ?cs = None" by (simp add: head_end_def find_None_iff)
  then show "handshake_head [] (?cs @ later) = Inl HeaderTooLarge"
    using handshake_stops_reading [of ?cs later] by simp
qed

text \<open>The copies are byte for byte what was read, and the scan sees all that the client is sent.\<close>

lemma splice_loop_seen:
  "concat (sp_seen s) = sp_client s \<Longrightarrow>
    \<exists>lost. concat (sp_seen (splice_loop es s)) = sp_client (splice_loop es s) @ lost"
  by (induction es s rule: splice_loop.induct) (auto simp: Let_def split: option.splits)

lemma splice_seen: "\<exists>lost. concat (sp_seen (splice es)) = sp_client (splice es) @ lost"
  unfolding splice_def by (rule splice_loop_seen) simp

end
