(* ===== verification/Proxy_Relay.thy ===== *)
theory Proxy_Relay
  imports Proxy_Ws Proxy_Tee Ledger_Capture
begin

text \<open>
  The relay's handlers (\<open>crates/tailfin-proxy/src/proxy.rs\<close>). Each operation below is one critical
  section of a handler, a function on the state the handlers share; \<open>Proxy_Run\<close> composes them. The
  clock is an argument wherever it is read, and so is the encoding of records.
\<close>

section \<open>Responses\<close>

record http_response =
  rs_status :: nat
  rs_headers :: "(string \<times> string) list"
  rs_body :: string

definition SYNTHETIC_MARK :: string where
  "SYNTHETIC_MARK = ''[tailfin] task ceiling reached; this turn was ended by the flight recorder.''"

text \<open>A back quote in the text below stands for a double quote.\<close>

definition dq :: "string \<Rightarrow> string" where
  "dq s = map (\<lambda>c. if c = CHR 0x60 then CHR 0x22 else c) s"

definition event_data :: "string \<Rightarrow> string \<Rightarrow> string" where
  "event_data event json = ''event: '' @ event @ nl @ ''data: '' @ json @ nl @ nl"

definition synthetic_events :: "string \<Rightarrow> (string \<times> string) list" where
  "synthetic_events mark =
    [(''message_start'', dq ''{`type`:`message_start`,`message`:{`id`:`tailfin_stop`,`type`:`message`,`role`:`assistant`,`content`:[],`model`:`tailfin`}}''),
     (''content_block_start'', dq ''{`type`:`content_block_start`,`index`:0,`content_block`:{`type`:`text`,`text`:``}}''),
     (''content_block_delta'', dq ''{`type`:`content_block_delta`,`index`:0,`delta`:{`type`:`text_delta`,`text`:'' @ mark @ ''}}''),
     (''content_block_stop'', dq ''{`type`:`content_block_stop`,`index`:0}''),
     (''message_delta'', dq ''{`type`:`message_delta`,`delta`:{`stop_reason`:`end_turn`},`usage`:{`output_tokens`:0}}''),
     (''message_stop'', dq ''{`type`:`message_stop`}'')]"

text \<open>\<open>to_json\<close> is serde's encoding of a string.\<close>

definition stop_response ::
  "'h header_map \<Rightarrow> (string \<Rightarrow> string option) \<Rightarrow> stop_style \<Rightarrow> 'h \<Rightarrow> http_response" where
  "stop_response H to_json style h =
    (case style of
       SyntheticEndTurn \<Rightarrow>
         let mark = (case to_json SYNTHETIC_MARK of Some t \<Rightarrow> t | None \<Rightarrow> dq ''`[tailfin]`'')
         in \<lparr>rs_status = 200,
             rs_headers = [(''content-type'', ''text/event-stream''), (''x-tailfin-stop'', ''synthetic-end-turn'')],
             rs_body = concat (map (\<lambda>(e, d). event_data e d) (synthetic_events mark))\<rparr>
     | _ \<Rightarrow>
         let claude = h_get H h ''x-claude-code-session-id'' \<noteq> None;
             (status, kind) = (if claude \<or> style = RetryableFalse429 then (429, ''429-retry-false'') else (402, ''402''))
         in \<lparr>rs_status = status,
             rs_headers = (if status = 429 then [(''x-should-retry'', ''false'')] else []) @ [(''x-tailfin-stop'', kind)],
             rs_body = dq ''{`error`:`tailfin ceiling`}'' @ nl\<rparr>)"

definition hello_ok :: http_response where
  "hello_ok =
    \<lparr>rs_status = 200, rs_headers = [(''content-type'', ''application/json'')], rs_body = dq ''{`status`:`ok`}''\<rparr>"

definition gateway_error :: http_response where
  "gateway_error = \<lparr>rs_status = 502, rs_headers = [], rs_body = ''bad gateway'' @ nl\<rparr>"

section \<open>The shared state\<close>

record shadow_cmp =
  sc_live_root :: string
  sc_shadow_root :: string
  sc_declared :: bool
  sc_had_digest :: bool

text \<open>The ledger is the text of its file, when there is one.\<close>

record proxy =
  px_ident :: session_index
  px_shadow :: session_index
  px_arena :: arena
  px_shadow_notes :: "shadow_cmp list"
  px_ledger :: "string option"
  px_capture :: "capture_store option"
  px_rates :: "rate_card option"

definition proxy_new :: proxy where
  "proxy_new =
    \<lparr>px_ident = session_index_new, px_shadow = session_index_new, px_arena = arena_new,
     px_shadow_notes = [], px_ledger = None, px_capture = None, px_rates = None\<rparr>"

definition with_budget :: "u64 \<Rightarrow> rate_card \<Rightarrow> fp option \<Rightarrow> proxy \<Rightarrow> proxy" where
  "with_budget limit rates share p =
    (let a = with_default_ceiling_micros limit arena_new;
         a' = (case share of Some s \<Rightarrow> arena_with_voucher_share s a | None \<Rightarrow> a)
     in p\<lparr>px_arena := a', px_rates := Some rates\<rparr>)"

definition with_ledger :: "string \<Rightarrow> proxy \<Rightarrow> proxy" where
  "with_ledger file p = p\<lparr>px_ledger := Some file\<rparr>"

definition with_capture :: "capture_store \<Rightarrow> proxy \<Rightarrow> proxy" where
  "with_capture store p = p\<lparr>px_capture := Some store\<rparr>"

section \<open>Identity, admission, stopping\<close>

definition relay_resolve ::
  "'v serde_json \<Rightarrow> 'h header_map \<Rightarrow> 'h \<Rightarrow> string \<Rightarrow> proxy \<Rightarrow> proxy \<times> node_ref" where
  "relay_resolve J H h body p =
    (let digest = map_option from_messages (messages_from_body J body);
         (ident, nd) = resolve (header_view H h) digest (px_ident p)
     in (p\<lparr>px_ident := ident\<rparr>, nd))"

definition new_capture_id :: "nat \<Rightarrow> node_ref \<Rightarrow> proxy \<Rightarrow> string option" where
  "new_capture_id millis nd p =
    map_option (\<lambda>_. show_nat millis @ ''-'' @ take 12 (filter is_ascii_alphanumeric (nr_node nd))) (px_capture p)"

definition relay_begin :: "node_ref \<Rightarrow> proxy \<Rightarrow> proxy" where
  "relay_begin nd p =
    p\<lparr>px_arena := fst (task_mut (nr_root nd) (\<lambda>t. (begin_request nd None t, ())) (px_arena p))\<rparr>"

definition relay_admit :: "node_ref \<Rightarrow> proxy \<Rightarrow> proxy \<times> admission" where
  "relay_admit nd p =
    (let p1 = relay_begin nd p
     in case px_rates p1 of
          Some rates \<Rightarrow>
            let (a, admission) = task_mut (nr_root nd) (admit_at nd rates) (px_arena p1)
            in (p1\<lparr>px_arena := a\<rparr>, admission)
        | None \<Rightarrow> (p1, Allow))"

definition relay_stop :: "node_ref \<Rightarrow> proxy \<Rightarrow> proxy \<times> stop_style" where
  "relay_stop nd p =
    (let (a, style) = task_mut (nr_root nd) take_stop (px_arena p) in (p\<lparr>px_arena := a\<rparr>, style))"

section \<open>Finishing\<close>

definition finish_record :: "node_ref \<Rightarrow> usage \<Rightarrow> bool \<Rightarrow> u32 \<Rightarrow> u64 \<Rightarrow> string option \<Rightarrow> ledger_record" where
  "finish_record nd u done_ok peak now cid =
    (let r = from_finish nd u (\<not> done_ok) peak now
     in case cid of Some c \<Rightarrow> with_capture_id c r | None \<Rightarrow> r)"

text \<open>A record that cannot be written is logged and lost.\<close>

definition finish_locked ::
  "(ledger_record \<Rightarrow> string option) \<Rightarrow> u64 \<Rightarrow> node_ref \<Rightarrow> usage \<Rightarrow> bool \<Rightarrow> string option \<Rightarrow> proxy \<Rightarrow> proxy" where
  "finish_locked to_str now nd u done_ok cid p =
    (let a = fst (task_mut (nr_root nd) (\<lambda>t. (finish_request nd u done_ok t, ())) (px_arena p));
         peak = (case arena_get a (nr_root nd) of Some t \<Rightarrow> t_peak t | None \<Rightarrow> 0);
         ledger = map_option
           (\<lambda>file. case ledger_append to_str (finish_record nd u done_ok peak now cid) file of
              Inr file' \<Rightarrow> file' | Inl _ \<Rightarrow> file)
           (px_ledger p)
     in p\<lparr>px_arena := a, px_ledger := ledger\<rparr>)"

definition finish_node ::
  "(ledger_record \<Rightarrow> string option) \<Rightarrow> u64 \<Rightarrow> node_ref \<Rightarrow> bool \<Rightarrow> string option \<Rightarrow> proxy \<Rightarrow> proxy" where
  "finish_node to_str now nd done_ok cid p = finish_locked to_str now nd usage_default done_ok cid p"

section \<open>Capture and shadow\<close>

definition request_capture ::
  "'v serde_json \<Rightarrow> string \<Rightarrow> u64 \<Rightarrow> node_ref \<Rightarrow> string \<Rightarrow> string \<Rightarrow> string \<Rightarrow> capture_record" where
  "request_capture J cid now nd meth path buf =
    (let body = from_utf8_lossy buf; (model, message_count, tool_calls) = body_meta J body
     in \<lparr>cr_schema_version = CAPTURE_SCHEMA, cr_capture_id = cid, cr_task_id = nr_root nd,
         cr_node = nr_node nd, cr_parent = nr_parent nd, cr_ts = now, cr_method = meth, cr_path = path,
         cr_model = model, cr_message_count = message_count, cr_tool_calls = tool_calls, cr_body = body\<rparr>)"

definition capture_request ::
  "'v serde_json \<Rightarrow> (capture_record \<Rightarrow> string option) \<Rightarrow> u64 \<Rightarrow> node_ref \<Rightarrow> string \<Rightarrow> string \<Rightarrow> string \<Rightarrow>
    string option \<Rightarrow> proxy \<Rightarrow> proxy" where
  "capture_request J to_str now nd meth path buf cid p =
    (case (px_capture p, cid) of
       (Some store, Some c) \<Rightarrow>
         (case capture_save to_str (request_capture J c now nd meth path buf) store of
            Some store' \<Rightarrow> p\<lparr>px_capture := Some store'\<rparr>
          | None \<Rightarrow> p)
     | _ \<Rightarrow> p)"

definition push_note :: "shadow_cmp \<Rightarrow> shadow_cmp list \<Rightarrow> shadow_cmp list" where
  "push_note c notes = (let ns = notes @ [c] in drop (length ns - 64) ns)"

definition shadow_request :: "'v serde_json \<Rightarrow> 'h header_map \<Rightarrow> 'h \<Rightarrow> string \<Rightarrow> node_ref \<Rightarrow> proxy \<Rightarrow> proxy" where
  "shadow_request J H h buf nd p =
    (let digest = map_option from_messages (messages_from_body J buf);
         (shadow, snd) = resolve (header_view H h) digest (px_shadow p);
         cmp = \<lparr>sc_live_root = nr_root nd, sc_shadow_root = nr_root snd,
                sc_declared = is_declared (nr_source nd), sc_had_digest = digest \<noteq> None\<rparr>
     in p\<lparr>px_shadow := shadow, px_shadow_notes := push_note cmp (px_shadow_notes p)\<rparr>)"

definition observe_request ::
  "'v serde_json \<Rightarrow> 'h header_map \<Rightarrow> (capture_record \<Rightarrow> string option) \<Rightarrow> u64 \<Rightarrow> string \<Rightarrow> node_ref \<Rightarrow> 'h \<Rightarrow>
    string \<Rightarrow> string \<Rightarrow> string option \<Rightarrow> proxy \<Rightarrow> proxy" where
  "observe_request J H to_str now buf nd h meth path cid p =
    shadow_request J H h buf nd (capture_request J to_str now nd meth path buf cid p)"

section \<open>Towards the upstream\<close>

text \<open>The rewritten URI and headers; \<open>None\<close> is one of the two early returns.\<close>

definition upstream_request ::
  "'h header_map \<Rightarrow> 'u http_uri \<Rightarrow> 'u \<Rightarrow> 'u \<Rightarrow> 'h \<Rightarrow> ('u \<times> 'h) option" where
  "upstream_request H U upstream uri h =
    (case rewrite_uri U upstream uri of
       None \<Rightarrow> None
     | Some u \<Rightarrow>
         let h1 = h_remove H ''accept-encoding'' (strip_hop_by_hop H h)
         in map_option (\<lambda>h2. (u, h_remove H ''content-length'' h2))
              (case uri_authority U u of
                 None \<Rightarrow> Some h1
               | Some auth \<Rightarrow> map_option (\<lambda>v. h_insert H ''host'' v h1) (h_value H auth)))"

definition upstream_response :: "'h header_map \<Rightarrow> 'h \<Rightarrow> 'h" where
  "upstream_response H h = h_remove H ''content-length'' (strip_hop_by_hop H h)"

definition ws_request :: "'h header_map \<Rightarrow> 'h \<Rightarrow> 'h" where
  "ws_request H h = h_remove H ''content-length'' (strip_hop_keeping_upgrade H h)"

definition ws_target :: "'u http_uri \<Rightarrow> 'u \<Rightarrow> 'u \<Rightarrow> string" where
  "ws_target U upstream uri =
    (let req_pq = (case uri_path_and_query U uri of Some p \<Rightarrow> p | None \<Rightarrow> ''/'')
     in case rewrite_uri U upstream uri of
          Some u \<Rightarrow> (case uri_path_and_query U u of Some p \<Rightarrow> p | None \<Rightarrow> req_pq)
        | None \<Rightarrow> req_pq)"

definition relay_dialect :: "string \<Rightarrow> dialect" where
  "relay_dialect path = (case dialect_for_path path of Some d \<Rightarrow> d | None \<Rightarrow> AnthropicMessages)"

section \<open>Stop responses\<close>

definition json_text :: "string \<Rightarrow> bool" where
  "json_text s \<longleftrightarrow> list_all (\<lambda>c. byte c < 128 \<and> c \<noteq> newline \<and> c \<noteq> carriage_return) s"

lemma json_text_append: "json_text (a @ b) \<longleftrightarrow> json_text a \<and> json_text b"
  by (simp add: json_text_def)

lemma json_text_clean: "json_text s \<Longrightarrow> clean_line s \<and> is_ascii s"
  unfolding json_text_def clean_line_def is_ascii_def list_all_iff using last_in_set by blast

lemma event_data_wire: "event_data e d = sse_wire [newline] (Some e) [d]"
  by (simp add: event_data_def sse_wire_def nl_def)

lemma concat_events: "concat (map (\<lambda>(e, d). event_data e d) evs) =
    concat (map (\<lambda>(ev, ls). sse_wire [newline] ev ls) (map (\<lambda>(e, d). (Some e, [d])) evs))"
  by (induction evs) (auto simp: event_data_wire)

lemma synthetic_names:
  "list_all (\<lambda>(e, d). json_text e \<and> trimmed e) (synthetic_events [])"
  "map fst (synthetic_events mark) = map fst (synthetic_events [])"
  by code_simp (simp add: synthetic_events_def)

lemma synthetic_texts:
  "json_text (dq ''{`type`:`message_start`,`message`:{`id`:`tailfin_stop`,`type`:`message`,`role`:`assistant`,`content`:[],`model`:`tailfin`}}'')"
  "json_text (dq ''{`type`:`content_block_start`,`index`:0,`content_block`:{`type`:`text`,`text`:``}}'')"
  "json_text (dq ''{`type`:`content_block_delta`,`index`:0,`delta`:{`type`:`text_delta`,`text`:'')"
  "json_text (dq ''{`type`:`content_block_stop`,`index`:0}'')"
  "json_text (dq ''{`type`:`message_delta`,`delta`:{`stop_reason`:`end_turn`},`usage`:{`output_tokens`:0}}'')"
  "json_text (dq ''{`type`:`message_stop`}'')"
  "json_text ''}}''"
  by code_simp+

lemma synthetic_json: "json_text mark \<Longrightarrow> list_all (\<lambda>(e, d). json_text d) (synthetic_events mark)"
  using synthetic_texts by (simp only: synthetic_events_def json_text_append list.pred_inject prod.case simp_thms)

lemma synthetic_frames:
  assumes "json_text mark"
  shows "\<forall>(ev, ls) \<in> set (map (\<lambda>(e, d). (Some e, [d])) (synthetic_events mark)). wire_frame ev ls"
    and "is_ascii (concat (map (\<lambda>(e, d). event_data e d) (synthetic_events mark)))"
proof -
  have ok: "json_text e \<and> trimmed e \<and> json_text d" if "(e, d) \<in> set (synthetic_events mark)" for e d
  proof -
    have "e \<in> set (map fst (synthetic_events mark))" using that by force
    then have "e \<in> set (map fst (synthetic_events []))" unfolding synthetic_names(2) [of mark] .
    then have "json_text e \<and> trimmed e" using synthetic_names(1) by (auto simp: list_all_iff)
    then show ?thesis using that synthetic_json [OF assms] by (auto simp: list_all_iff)
  qed
  then show "\<forall>(ev, ls) \<in> set (map (\<lambda>(e, d). (Some e, [d])) (synthetic_events mark)). wire_frame ev ls"
    using json_text_clean by (auto simp: wire_frame_def)
  have "is_ascii (event_data e d)" if "(e, d) \<in> set (synthetic_events mark)" for e d
    using ok [OF that] json_text_clean [of e] json_text_clean [of d]
    by (auto simp: event_data_def nl_def is_ascii_def)
  then show "is_ascii (concat (map (\<lambda>(e, d). event_data e d) (synthetic_events mark)))"
    by (auto simp: is_ascii_def)
qed

text \<open>
  C31. The first stop of a task is a complete turn for the client: whatever text without line breaks the
  mark is encoded as, the synthetic response decodes, pushed as one chunk, to the six events of an
  assistant message from \<open>message_start\<close> to \<open>message_stop\<close>, and nothing is left in the decoder.
\<close>

theorem synthetic_stop_is_a_turn:
  assumes "to_json SYNTHETIC_MARK = Some mark" "json_text mark"
  shows "feed sse_push sse_new [rs_body (stop_response H to_json SyntheticEndTurn h)] =
      (sse_new, map (\<lambda>(e, d). \<lparr>fr_event = Some e, fr_data = d\<rparr>) (synthetic_events mark)) \<and>
    map fst (synthetic_events mark) =
      [''message_start'', ''content_block_start'', ''content_block_delta'', ''content_block_stop'',
       ''message_delta'', ''message_stop''] \<and>
    rs_status (stop_response H to_json SyntheticEndTurn h) = 200"
proof -
  let ?evs = "synthetic_events mark"
  let ?body = "concat (map (\<lambda>(e, d). event_data e d) ?evs)"
  have body: "rs_body (stop_response H to_json SyntheticEndTurn h) = ?body"
    using assms(1) by (simp add: stop_response_def)
  have "feed sse_push sse_new [?body] =
      (sse_new, map (\<lambda>(ev, ls). frame_of ev ls) (map (\<lambda>(e, d). (Some e, [d])) ?evs))"
    by (rule sse_feed_frames [where eol = "[newline]"])
      (use synthetic_frames [OF assms(2)] is_ascii_valid in \<open>simp_all add: is_eol_def concat_events del: map_map\<close>)
  moreover have "map (\<lambda>(ev, ls). frame_of ev ls) (map (\<lambda>(e, d). (Some e, [d])) ?evs) =
      map (\<lambda>(e, d). \<lparr>fr_event = Some e, fr_data = d\<rparr>) ?evs"
    by (auto simp: frame_of_def)
  ultimately show ?thesis
    unfolding body by (simp add: synthetic_events_def stop_response_def Let_def)
qed

definition quote_json :: "string \<Rightarrow> string option" where
  "quote_json s = Some (dq ''`'' @ s @ dq ''`'')"

theorem synthetic_stop_is_a_turn_witness:
  "rs_status (stop_response list_headers quote_json SyntheticEndTurn sample_headers) = 200 \<and>
    fst (feed sse_push sse_new [rs_body (stop_response list_headers quote_json SyntheticEndTurn sample_headers)]) =
      sse_new"
proof -
  have "json_text (dq ''`'' @ SYNTHETIC_MARK @ dq ''`'')" by code_simp
  then show ?thesis
    using synthetic_stop_is_a_turn [of quote_json "dq ''`'' @ SYNTHETIC_MARK @ dq ''`''" list_headers sample_headers]
    by (simp add: quote_json_def)
qed

lemma notes_bounded: "length (push_note c ns) \<le> 64"
  by (simp add: push_note_def Let_def)

end
