(* ===== verification/Proxy_Run.thy ===== *)
theory Proxy_Run
  imports Proxy_Relay "HOL-Library.Countable"
begin

text \<open>
  The relay as a state machine (\<open>relay_inner\<close> and \<open>relay_ws\<close> of
  \<open>crates/tailfin-proxy/src/proxy.rs\<close>): the shared state and the requests in flight, each in a phase
  between two critical sections of its handler. A step is one critical section of one request, so a run
  is any interleaving of handlers and of the tasks they spawn.
\<close>

section \<open>Requests and phases\<close>

record ('v, 'h, 'u) relay_env =
  en_json :: "'v serde_json"
  en_headers :: "'h header_map"
  en_uri :: "'u http_uri"
  en_upstream :: 'u
  en_record_str :: "ledger_record \<Rightarrow> string option"
  en_capture_str :: "capture_record \<Rightarrow> string option"
  en_text_str :: "string \<Rightarrow> string option"

record ('h, 'u) request =
  rq_method :: string
  rq_uri :: 'u
  rq_headers :: 'h
  rq_body :: string

text \<open>
  A request that has ended carries the response the proxy made up for it, \<open>None\<close> when its client got
  the upstream's response or went away. \<open>Replied\<close> is a request that never began, \<open>Done\<close> the task that
  observes one.
\<close>

datatype ('h, 'u) phase =
    Resolved node_ref "('h, 'u) request" "string option"
  | WsResolved node_ref "('h, 'u) request"
  | Denied node_ref "('h, 'u) request"
  | Stopping node_ref "('h, 'u) request" stop_style
  | Forwarding node_ref "('h, 'u) request" "string option"
  | Observing node_ref "('h, 'u) request" "string option"
  | Metering node_ref metering "string option"
  | WsOpening node_ref "('h, 'u) request"
  | WsUpgrading node_ref "dialect option"
  | WsRelaying node_ref ws_scan
  | Done
  | Replied http_response
  | Finished node_ref "http_response option"
  | Leaked node_ref "http_response option"

definition request_path :: "('v, 'h, 'u) relay_env \<Rightarrow> ('h, 'u) request \<Rightarrow> string" where
  "request_path E q = uri_path (en_uri E) (rq_uri q)"

definition is_ws :: "('v, 'h, 'u) relay_env \<Rightarrow> ('h, 'u) request \<Rightarrow> bool" where
  "is_ws E q \<longleftrightarrow> is_websocket_upgrade (en_headers E) (rq_method q) (rq_headers q)"

definition ws_scans :: "'v serde_json \<Rightarrow> dialect option \<Rightarrow> string list \<Rightarrow> ws_scan option" where
  "ws_scans J d chunks = fold (\<lambda>c s. Option.bind s (\<lambda>x. ws_upstream J x c)) chunks (Some (ws_scan_new d))"

text \<open>
  Whether \<open>relay_ws\<close> opens a raw socket, and whether it can build the request it sends otherwise. Its
  early returns after \<open>begin\<close> are a handshake that fails on the socket, and a URI or Host header that
  cannot be built.
\<close>

definition ws_plain :: "('v, 'h, 'u) relay_env \<Rightarrow> bool" where
  "ws_plain E \<longleftrightarrow> uri_scheme (en_uri E) (en_upstream E) = Some ''http''"

definition ws_built :: "('v, 'h, 'u) relay_env \<Rightarrow> ('h, 'u) request \<Rightarrow> bool" where
  "ws_built E q \<longleftrightarrow>
    (case rewrite_uri (en_uri E) (en_upstream E) (rq_uri q) of
       None \<Rightarrow> False
     | Some u \<Rightarrow>
         (case uri_authority (en_uri E) u of
            None \<Rightarrow> True | Some auth \<Rightarrow> h_value (en_headers E) auth \<noteq> None))"

section \<open>Steps\<close>

text \<open>
  A handler waits in two places after \<open>begin\<close>: for the upstream's response and for the WebSocket
  handshake. There the server drops it when its client closes the connection, as hyper does unless
  half-closed connections are enabled: \<open>dropped\<close> and \<open>ws_dropped\<close>.
\<close>

text \<open>
  A step of one WebSocket handler, \<open>relay_ws\<close>: it begins the request, and its upgrade fails, is refused,
  answered as an ordinary response, or done.
\<close>

inductive relay_ws_step ::
  "('v, 'h, 'u) relay_env \<Rightarrow> proxy \<times> ('h, 'u) phase \<Rightarrow> proxy \<times> ('h, 'u) phase \<Rightarrow> bool"
  for E where
  ws_begin: "relay_ws_step E (p, WsResolved nd q) (relay_begin nd p, WsOpening nd q)"
| ws_give_up: "ws_plain E \<or> \<not> ws_built E q \<Longrightarrow>
    relay_ws_step E (p, WsOpening nd q) (p, Leaked nd (Some gateway_error))"
| ws_refused: "ws_plain E \<Longrightarrow>
    relay_ws_step E (p, WsOpening nd q) (finish_node (en_record_str E) now nd False None p, Finished nd None)"
| ws_unreachable: "\<not> ws_plain E \<Longrightarrow> ws_built E q \<Longrightarrow>
    relay_ws_step E (p, WsOpening nd q)
      (finish_node (en_record_str E) now nd False None p, Finished nd (Some gateway_error))"
| ws_fallback: "\<not> ws_plain E \<Longrightarrow> ws_built E q \<Longrightarrow>
    relay_ws_step E (p, WsOpening nd q) (p, Metering nd (metering_new (dialect_for_path (request_path E q))) None)"
| ws_upgraded: "ws_plain E \<or> ws_built E q \<Longrightarrow>
    relay_ws_step E (p, WsOpening nd q) (p, WsUpgrading nd (dialect_for_path (request_path E q)))"
| ws_dropped: "ws_plain E \<or> ws_built E q \<Longrightarrow>
    relay_ws_step E (p, WsOpening nd q) (p, Leaked nd None)"

inductive_cases relay_ws_stepE: "relay_ws_step E (p, ph) (p', ph')"

text \<open>
  The task it spawns: it waits for the upgrade of both sides, and then relays and scans what the upstream
  sends, one read at a time, until one side ends. What the client sends changes nothing here.
\<close>

inductive ws_task_step ::
  "('v, 'h, 'u) relay_env \<Rightarrow> proxy \<times> ('h, 'u) phase \<Rightarrow> proxy \<times> ('h, 'u) phase \<Rightarrow> bool"
  for E where
  ws_upgrade_failed:
    "ws_task_step E (p, WsUpgrading nd d)
      (finish_locked (en_record_str E) now nd usage_default False None p, Finished nd None)"
| ws_spliced: "ws_task_step E (p, WsUpgrading nd d) (p, WsRelaying nd (ws_scan_new d))"
| ws_received: "ws_upstream (en_json E) s bytes = Some s' \<Longrightarrow>
    ws_task_step E (p, WsRelaying nd s) (p, WsRelaying nd s')"
| ws_panic: "ws_upstream (en_json E) s bytes = None \<Longrightarrow>
    ws_task_step E (p, WsRelaying nd s) (p, Leaked nd None)"
| ws_done: "ws_usage (en_json E) s = (u, done_ok) \<Longrightarrow>
    ws_task_step E (p, WsRelaying nd s) (finish_locked (en_record_str E) now nd u done_ok None p, Finished nd None)"

inductive_cases ws_task_stepE: "ws_task_step E (p, ph) (p', ph')"

text \<open>A step of the relay: a request arrives, or one handler, or one task it has spawned, moves.\<close>

inductive relay_step ::
  "('v, 'h, 'u) relay_env \<Rightarrow> proxy \<times> ('h, 'u) phase list \<Rightarrow> proxy \<times> ('h, 'u) phase list \<Rightarrow> bool"
  for E where
  hello: "request_path E q = ''/api/hello'' \<Longrightarrow> relay_step E (p, ps) (p, ps @ [Replied hello_ok])"
| unread: "request_path E q \<noteq> ''/api/hello'' \<Longrightarrow> \<not> is_ws E q \<Longrightarrow>
    relay_step E (p, ps) (p, ps @ [Replied gateway_error])"
| arrive: "request_path E q \<noteq> ''/api/hello'' \<Longrightarrow> \<not> is_ws E q \<Longrightarrow>
    relay_resolve (en_json E) (en_headers E) (rq_headers q) (rq_body q) p = (p', nd) \<Longrightarrow>
    relay_step E (p, ps) (p', ps @ [Resolved nd q (new_capture_id millis nd p)])"
| ws_arrive: "request_path E q \<noteq> ''/api/hello'' \<Longrightarrow> is_ws E q \<Longrightarrow>
    resolve (header_view (en_headers E) (rq_headers q)) None (px_ident p) = (ident, nd) \<Longrightarrow>
    relay_step E (p, ps) (p\<lparr>px_ident := ident\<rparr>, ps @ [WsResolved nd q])"
| deny: "i < length ps \<Longrightarrow> ps ! i = Resolved nd q cid \<Longrightarrow> relay_admit nd p = (p', Deny a b) \<Longrightarrow>
    relay_step E (p, ps) (p', ps[i := Denied nd q])"
| forward: "i < length ps \<Longrightarrow> ps ! i = Resolved nd q cid \<Longrightarrow> relay_admit nd p = (p', ad) \<Longrightarrow> admitted ad \<Longrightarrow>
    relay_step E (p, ps) (p', ps[i := Forwarding nd q cid] @ [Observing nd q cid])"
| stop: "i < length ps \<Longrightarrow> ps ! i = Denied nd q \<Longrightarrow> relay_stop nd p = (p', style) \<Longrightarrow>
    relay_step E (p, ps) (p', ps[i := Stopping nd q style])"
| stopped: "i < length ps \<Longrightarrow> ps ! i = Stopping nd q style \<Longrightarrow>
    relay_step E (p, ps) (finish_node (en_record_str E) now nd True None p,
      ps[i := Finished nd (Some (stop_response (en_headers E) (en_text_str E) style (rq_headers q)))])"
| observe: "i < length ps \<Longrightarrow> ps ! i = Observing nd q cid \<Longrightarrow>
    relay_step E (p, ps)
      (observe_request (en_json E) (en_headers E) (en_capture_str E) now (rq_body q) nd (rq_headers q)
         (rq_method q) (request_path E q) cid p, ps[i := Done])"
| give_up: "i < length ps \<Longrightarrow> ps ! i = Forwarding nd q cid \<Longrightarrow>
    upstream_request (en_headers E) (en_uri E) (en_upstream E) (rq_uri q) (rq_headers q) = None \<Longrightarrow>
    relay_step E (p, ps) (p, ps[i := Leaked nd (Some gateway_error)])"
| unreachable: "i < length ps \<Longrightarrow> ps ! i = Forwarding nd q cid \<Longrightarrow>
    upstream_request (en_headers E) (en_uri E) (en_upstream E) (rq_uri q) (rq_headers q) = Some sent \<Longrightarrow>
    relay_step E (p, ps) (finish_node (en_record_str E) now nd False cid p, ps[i := Finished nd (Some gateway_error)])"
| answered: "i < length ps \<Longrightarrow> ps ! i = Forwarding nd q cid \<Longrightarrow>
    upstream_request (en_headers E) (en_uri E) (en_upstream E) (rq_uri q) (rq_headers q) = Some sent \<Longrightarrow>
    relay_step E (p, ps) (p, ps[i := Metering nd (metering_new (Some (relay_dialect (request_path E q)))) cid])"
| dropped: "i < length ps \<Longrightarrow> ps ! i = Forwarding nd q cid \<Longrightarrow>
    upstream_request (en_headers E) (en_uri E) (en_upstream E) (rq_uri q) (rq_headers q) = Some sent \<Longrightarrow>
    relay_step E (p, ps) (p, ps[i := Leaked nd None])"
| received: "i < length ps \<Longrightarrow> ps ! i = Metering nd m cid \<Longrightarrow>
    relay_step E (p, ps) (p, ps[i := Metering nd (metering_chunk (en_json E) chunk m) cid])"
| metered: "i < length ps \<Longrightarrow> ps ! i = Metering nd m cid \<Longrightarrow> metering_end (en_json E) m = (u, done_ok) \<Longrightarrow>
    relay_step E (p, ps) (finish_locked (en_record_str E) now nd u done_ok cid p, ps[i := Finished nd None])"
| ws_handler: "i < length ps \<Longrightarrow> relay_ws_step E (p, ps ! i) (p', ph) \<Longrightarrow> relay_step E (p, ps) (p', ps[i := ph])"
| ws_task: "i < length ps \<Longrightarrow> ws_task_step E (p, ps ! i) (p', ph) \<Longrightarrow> relay_step E (p, ps) (p', ps[i := ph])"

inductive relay_run ::
  "('v, 'h, 'u) relay_env \<Rightarrow> proxy \<Rightarrow> proxy \<Rightarrow> ('h, 'u) phase list \<Rightarrow> bool"
  for E p0 where
  start: "relay_run E p0 p0 []"
| step: "relay_run E p0 p ps \<Longrightarrow> relay_step E (p, ps) (p', ps') \<Longrightarrow> relay_run E p0 p' ps'"

section \<open>What a step does to the tasks and to the ledger\<close>

text \<open>Whether a request of this phase has begun in the task of a root and not finished.\<close>

fun open_in :: "string \<Rightarrow> ('h, 'u) phase \<Rightarrow> nat" where
  "open_in r (Denied nd q) = (if nr_root nd = r then 1 else 0)"
| "open_in r (Stopping nd q style) = (if nr_root nd = r then 1 else 0)"
| "open_in r (Forwarding nd q cid) = (if nr_root nd = r then 1 else 0)"
| "open_in r (Metering nd m cid) = (if nr_root nd = r then 1 else 0)"
| "open_in r (WsOpening nd q) = (if nr_root nd = r then 1 else 0)"
| "open_in r (WsUpgrading nd d) = (if nr_root nd = r then 1 else 0)"
| "open_in r (WsRelaying nd s) = (if nr_root nd = r then 1 else 0)"
| "open_in r (Leaked nd a) = (if nr_root nd = r then 1 else 0)"
| "open_in r _ = 0"

definition opened :: "string \<Rightarrow> ('h, 'u) phase list \<Rightarrow> nat" where
  "opened r ps = (\<Sum>ph\<leftarrow>ps. open_in r ph)"

lemma opened_simps [simp]:
  "opened r [] = 0" "opened r (ps @ qs) = opened r ps + opened r qs" "opened r [ph] = open_in r ph"
  by (simp_all add: opened_def)

lemma opened_update:
  "i < length ps \<Longrightarrow> opened r (ps[i := ph]) + open_in r (ps ! i) = opened r ps + open_in r ph"
  unfolding opened_def by (rule sum_list_replaced)

text \<open>The place in its task of a request that has begun and finished, and of a record.\<close>

definition place :: "node_ref \<Rightarrow> string \<times> string \<times> string option" where
  "place nd = (nr_root nd, nr_node nd, nr_parent nd)"

definition record_place :: "ledger_record \<Rightarrow> string \<times> string \<times> string option" where
  "record_place x = (lr_task_id x, lr_node x, lr_parent x)"

fun closed_in :: "('h, 'u) phase \<Rightarrow> (string \<times> string \<times> string option) multiset" where
  "closed_in (Finished nd a) = {#place nd#}"
| "closed_in _ = {#}"

definition closed :: "('h, 'u) phase list \<Rightarrow> (string \<times> string \<times> string option) multiset" where
  "closed ps = (\<Sum>ph\<leftarrow>ps. closed_in ph)"

lemma closed_simps [simp]:
  "closed [] = {#}" "closed (ps @ qs) = closed ps + closed qs" "closed [ph] = closed_in ph"
  by (simp_all add: closed_def)

lemma closed_update:
  "i < length ps \<Longrightarrow> closed (ps[i := ph]) + closed_in (ps ! i) = closed ps + closed_in ph"
  unfolding closed_def by (rule sum_list_replaced)

definition rates_of :: "proxy \<Rightarrow> rate_card" where
  "rates_of p = (case px_rates p of Some r \<Rightarrow> r | None \<Rightarrow> rate_from_base 0 0)"

text \<open>The tasks of one root move by these events, and no other task moves.\<close>

definition moved :: "string \<Rightarrow> task_event list \<Rightarrow> proxy \<Rightarrow> proxy \<Rightarrow> bool" where
  "moved r0 evs p p' \<longleftrightarrow> px_rates p' = px_rates p \<and>
    (\<forall>r. arena_task (px_arena p') r =
      (if r = r0 then task_run (rates_of p) evs (arena_task (px_arena p) r) else arena_task (px_arena p) r))"

lemma arena_task_mut:
  "arena_task (fst (task_mut r0 f a)) r = (if r = r0 then fst (f (arena_task a r0)) else arena_task a r)"
  by (cases "r = r0") (simp_all add: arena_task_def [of "fst (task_mut r0 f a)"] task_simps,
    simp add: arena_task_def task_simps cong: option.case_cong)

inductive effect :: "('v, 'h, 'u) relay_env \<Rightarrow> proxy \<times> ('h, 'u) phase list \<Rightarrow> proxy \<times> ('h, 'u) phase list \<Rightarrow> bool"
  for E where
  quiet: "moved r0 evs p p' \<Longrightarrow> evs \<in> {[], [Stopped]} \<Longrightarrow> px_ledger p' = px_ledger p \<Longrightarrow>
    (\<And>r. opened r ps' = opened r ps) \<Longrightarrow> closed ps' = closed ps \<Longrightarrow> effect E (p, ps) (p', ps')"
| begun: "moved (nr_root nd) (Began nd None # asks) p p' \<Longrightarrow> asks \<in> {[], [Asked nd]} \<Longrightarrow>
    px_ledger p' = px_ledger p \<Longrightarrow>
    (\<And>r. opened r ps' = opened r ps + (if nr_root nd = r then 1 else 0)) \<Longrightarrow> closed ps' = closed ps \<Longrightarrow>
    effect E (p, ps) (p', ps')"
| ended: "moved (nr_root nd) [Ended nd u done_ok] p p' \<Longrightarrow>
    px_ledger p' = map_option (\<lambda>file.
      case ledger_append (en_record_str E) (finish_record nd u done_ok pk now cid) file of
        Inr file' \<Rightarrow> file' | Inl _ \<Rightarrow> file) (px_ledger p) \<Longrightarrow>
    (\<And>r. opened r ps = opened r ps' + (if nr_root nd = r then 1 else 0)) \<Longrightarrow>
    closed ps' = closed ps + {#place nd#} \<Longrightarrow>
    pk = t_peak (arena_task (px_arena p') (nr_root nd)) \<Longrightarrow> effect E (p, ps) (p', ps')"

lemma moved_none: "px_arena p' = px_arena p \<Longrightarrow> px_rates p' = px_rates p \<Longrightarrow> moved r0 [] p p'"
  by (simp add: moved_def)

lemma relay_begin_moved: "moved (nr_root nd) [Began nd None] p (relay_begin nd p)"
  by (simp add: moved_def relay_begin_def arena_task_mut)

lemma relay_admit_moved:
  assumes "relay_admit nd p = (p', ad)"
  shows "\<exists>asks. asks \<in> {[], [Asked nd]} \<and> moved (nr_root nd) (Began nd None # asks) p p' \<and> px_ledger p' = px_ledger p"
proof (cases "px_rates p")
  case None
  then show ?thesis
    using assms relay_begin_moved [of nd p] by (auto simp: relay_admit_def relay_begin_def)
next
  case (Some rates)
  let ?p1 = "relay_begin nd p"
  have p': "p' = ?p1\<lparr>px_arena := fst (task_mut (nr_root nd) (admit_at nd rates) (px_arena ?p1))\<rparr>"
    using assms Some by (auto simp: relay_admit_def relay_begin_def Let_def split: prod.splits)
  then have "moved (nr_root nd) [Began nd None, Asked nd] p p'"
    using relay_begin_moved [of nd p] Some
    by (simp add: moved_def arena_task_mut rates_of_def relay_begin_def)
  then show ?thesis by (intro exI [of _ "[Asked nd]"]) (simp add: p' relay_begin_def)
qed

lemma relay_stop_moved:
  "relay_stop nd p = (p', style) \<Longrightarrow> moved (nr_root nd) [Stopped] p p' \<and> px_ledger p' = px_ledger p"
  by (auto simp: relay_stop_def moved_def arena_task_mut Let_def split: prod.splits dest!: arg_cong [where f = fst])

lemma finish_locked_moved:
  "moved (nr_root nd) [Ended nd u done_ok] p (finish_locked to_str now nd u done_ok cid p)"
  by (simp add: moved_def finish_locked_def arena_task_mut Let_def)

text \<open>The record carries the peak that the task has when the request is finished.\<close>

lemma finish_locked_record:
  "px_ledger (finish_locked to_str now nd u done_ok cid p) = map_option (\<lambda>file.
      case ledger_append to_str (finish_record nd u done_ok
          (t_peak (arena_task (px_arena (finish_locked to_str now nd u done_ok cid p)) (nr_root nd))) now cid) file of
        Inr file' \<Rightarrow> file' | Inl _ \<Rightarrow> file) (px_ledger p)"
  by (simp add: finish_locked_def arena_task_mut task_simps Let_def)

lemma observe_frame [simp]:
  "px_arena (observe_request J H to_str now buf nd h meth path cid p) = px_arena p"
  "px_ledger (observe_request J H to_str now buf nd h meth path cid p) = px_ledger p"
  "px_rates (observe_request J H to_str now buf nd h meth path cid p) = px_rates p"
  by (simp_all add: observe_request_def shadow_request_def capture_request_def Let_def
      split: prod.split option.split)

lemma resolve_frame:
  "relay_resolve J H h body p = (p', nd) \<Longrightarrow>
    px_arena p' = px_arena p \<and> px_ledger p' = px_ledger p \<and> px_rates p' = px_rates p"
  by (auto simp: relay_resolve_def Let_def split: prod.splits)

lemma effect_finish:
  assumes "i < length ps" "\<And>r. open_in r (ps ! i) = (if nr_root nd = r then 1 else 0)"
    and "closed_in (ps ! i) = {#}"
  shows "effect E (p, ps) (finish_locked (en_record_str E) now nd u done_ok cid p, ps[i := Finished nd reply])"
proof -
  have "opened r ps = opened r (ps[i := Finished nd reply]) + (if nr_root nd = r then 1 else 0)" for r
    using opened_update [OF assms(1), of r "Finished nd reply"] assms(2) [of r] by simp
  moreover have "closed (ps[i := Finished nd reply]) = closed ps + {#place nd#}"
    using closed_update [OF assms(1), of "Finished nd reply"] assms(3) by simp
  ultimately show ?thesis by (rule effect.ended [OF finish_locked_moved finish_locked_record _ _ refl])
qed

lemma effect_quiet:
  assumes "i < length ps" "\<And>r. open_in r ph = open_in r (ps ! i)" "closed_in ph = closed_in (ps ! i)"
    and "px_arena p' = px_arena p" "px_rates p' = px_rates p" "px_ledger p' = px_ledger p"
  shows "effect E (p, ps) (p', ps[i := ph])"
  by (rule effect.quiet [OF moved_none [OF assms(4,5), of "[]"]])
    (use assms opened_update [OF assms(1), of _ ph] closed_update [OF assms(1), of ph] in auto)

lemma effect_ws_handler:
  assumes "relay_ws_step E (p, ps ! i) (p', ph)" "i < length ps"
  shows "effect E (p, ps) (p', ps[i := ph])"
  using assms(1)
proof (cases rule: relay_ws_step.cases)
  case (ws_begin nd q)
  have "px_ledger (relay_begin nd p) = px_ledger p" by (simp add: relay_begin_def)
  then show ?thesis
    using relay_begin_moved [of nd p] ws_begin opened_update [OF assms(2), of _ "WsOpening nd q"]
      closed_update [OF assms(2), of "WsOpening nd q"]
    by (intro effect.begun [of nd "[]"]) auto
next
  case (ws_refused nd q now)
  then show ?thesis unfolding finish_node_def using assms(2) by (auto intro!: effect_finish)
next
  case (ws_unreachable nd q now)
  then show ?thesis unfolding finish_node_def using assms(2) by (auto intro!: effect_finish)
qed (use assms(2) in \<open>auto intro!: effect_quiet\<close>)

lemma effect_ws_task:
  assumes "ws_task_step E (p, ps ! i) (p', ph)" "i < length ps"
  shows "effect E (p, ps) (p', ps[i := ph])"
  using assms(1) by (cases rule: ws_task_stepE) (use assms(2) in \<open>auto intro!: effect_quiet effect_finish\<close>)

lemma relay_step_effect: "relay_step E s s' \<Longrightarrow> effect E s s'"
proof (induction rule: relay_step.induct)
  case (hello q p ps)
  show ?case by (rule effect.quiet [OF moved_none [of _ _ "[]"]]) auto
next
  case (unread q p ps)
  show ?case by (rule effect.quiet [OF moved_none [of _ _ "[]"]]) auto
next
  case (arrive q p p' nd ps millis)
  then show ?case
    using resolve_frame [OF arrive(3)] by (intro effect.quiet [OF moved_none [of _ _ "[]"]]) auto
next
  case (ws_arrive q p ident nd ps)
  show ?case by (rule effect.quiet [OF moved_none [of _ _ "[]"]]) auto
next
  case (deny i ps nd q cid p p' a b)
  then obtain asks where "asks \<in> {[], [Asked nd]}" "moved (nr_root nd) (Began nd None # asks) p p'"
    "px_ledger p' = px_ledger p" using relay_admit_moved by blast
  then show ?case
    by (intro effect.begun [of nd asks]) (use deny opened_update [of i ps _ "Denied nd q"] closed_update [of i ps "Denied nd q"] in auto)
next
  case (forward i ps nd q cid p p' ad)
  then obtain asks where "asks \<in> {[], [Asked nd]}" "moved (nr_root nd) (Began nd None # asks) p p'"
    "px_ledger p' = px_ledger p" using relay_admit_moved by blast
  then show ?case
    by (intro effect.begun [of nd asks]) (use forward opened_update [of i ps _ "Forwarding nd q cid"] closed_update [of i ps "Forwarding nd q cid"] in auto)
next
  case (stop i ps nd q p p' style)
  then show ?case
    using relay_stop_moved [OF stop(3)] opened_update [OF stop(1), of _ "Stopping nd q style"] closed_update [OF stop(1), of "Stopping nd q style"]
    by (intro effect.quiet [of "nr_root nd" "[Stopped]"]) auto
next
  case (stopped i ps nd q style now p)
  then show ?case unfolding finish_node_def by (intro effect_finish) auto
next
  case (unreachable i ps nd q cid sent now p)
  then show ?case unfolding finish_node_def by (intro effect_finish) auto
next
  case (metered i ps nd m cid u done_ok now p)
  then show ?case by (intro effect_finish) auto
next
  case (ws_handler i ps p p' ph)
  from ws_handler(2,1) show ?case by (rule effect_ws_handler)
next
  case (ws_task i ps p p' ph)
  from ws_task(2,1) show ?case by (rule effect_ws_task)
qed (auto intro!: effect_quiet)

section \<open>The ledger and the live tasks agree\<close>

definition fresh_proxy :: "proxy \<Rightarrow> bool" where
  "fresh_proxy p \<longleftrightarrow> ar_tasks (px_arena p) = [] \<and> px_ledger p = Some []"

text \<open>A proxy that has seen no request, over a ledger that holds the records \<open>old\<close>.\<close>

definition started :: "(string \<Rightarrow> ledger_record option) \<Rightarrow> ledger_record list \<Rightarrow> proxy \<Rightarrow> bool" where
  "started from_str old p \<longleftrightarrow> ar_tasks (px_arena p) = [] \<and>
    (\<exists>file. px_ledger p = Some file \<and> ledger_holds from_str old file)"

lemma fresh_started: "fresh_proxy p \<Longrightarrow> started from_str [] p"
  by (simp add: fresh_proxy_def started_def ledger_holds_Nil)

text \<open>What the proxy relies on of serde's JSON: the records it writes come back from their lines.\<close>

definition serde_records :: "(ledger_record \<Rightarrow> string option) \<Rightarrow> (string \<Rightarrow> ledger_record option) \<Rightarrow> bool" where
  "serde_records to_str from_str \<longleftrightarrow>
    (\<forall>nd u done_ok pk now cid. json_line to_str from_str (finish_record nd u done_ok pk now cid))"

lemma finish_record_simps [simp]:
  "lr_task_id (finish_record nd u done_ok pk now cid) = nr_root nd"
  "record_usage (finish_record nd u done_ok pk now cid) = u"
  "lr_incomplete (finish_record nd u done_ok pk now cid) = (\<not> done_ok)"
  by (simp_all add: finish_record_def from_finish_def with_capture_id_def record_usage_def Let_def split: option.split)

text \<open>
  Every task is a run of its events, and the ledger's records after the old ones are the requests that
  ended.
\<close>

definition accounted ::
  "(string \<Rightarrow> ledger_record option) \<Rightarrow> ledger_record list \<Rightarrow> proxy \<Rightarrow> proxy \<Rightarrow> ledger_record list \<Rightarrow> bool" where
  "accounted from_str old p0 p rs \<longleftrightarrow>
    px_rates p = px_rates p0 \<and>
    (\<exists>file. px_ledger p = Some file \<and> ledger_holds from_str (old @ rs) file) \<and>
    (\<forall>r. \<exists>evs. arena_task (px_arena p) r = task_run (rates_of p0) evs (arena_task (px_arena p0) r) \<and>
      ended_list evs = map record_end (records_of r rs))"

lemma finish_record_place: "record_place (finish_record nd u done_ok pk now cid) = place nd"
  by (simp add: record_place_def place_def finish_record_def from_finish_def with_capture_id_def Let_def split: option.split)

lemma finish_record_end: "record_end (finish_record nd u done_ok pk now cid) = (nr_node nd, u, done_ok)"
proof -
  have "lr_node (finish_record nd u done_ok pk now cid) = nr_node nd"
    by (simp add: finish_record_def from_finish_def with_capture_id_def Let_def split: option.split)
  then show ?thesis by (simp add: record_end_def)
qed

lemma accounted_moved:
  assumes "accounted from_str old p0 p rs" "moved r0 evs p p'"
    and "\<And>r. records_of r rs' = records_of r rs @ (if r = r0 then new else [])"
    and "ended_list evs = map record_end new"
    and "\<exists>file. px_ledger p' = Some file \<and> ledger_holds from_str (old @ rs') file"
  shows "accounted from_str old p0 p' rs'"
proof -
  have "\<exists>evs'. arena_task (px_arena p') r = task_run (rates_of p0) evs' (arena_task (px_arena p0) r) \<and>
      ended_list evs' = map record_end (records_of r rs')" for r
  proof -
    from assms(1) obtain evs0 where
      e: "arena_task (px_arena p) r = task_run (rates_of p0) evs0 (arena_task (px_arena p0) r)"
        "ended_list evs0 = map record_end (records_of r rs)"
      unfolding accounted_def by blast
    have "rates_of p = rates_of p0" using assms(1) by (simp add: accounted_def rates_of_def)
    with e assms(2-4) show ?thesis
      by (cases "r = r0"; intro exI [of _ "evs0 @ (if r = r0 then evs else [])"])
        (simp_all add: moved_def task_run_append)
  qed
  then show ?thesis
    using assms(1,2,5) unfolding accounted_def moved_def by auto
qed

lemma records_of_append: "records_of r (rs @ [x]) = records_of r rs @ (if r = lr_task_id x then [x] else [])"
  by (simp add: records_of_def)

lemma accounted_unwritten:
  assumes "accounted from_str old p0 p rs" "moved r0 evs p p'" "px_ledger p' = px_ledger p"
    and "ended_list evs = []"
  shows "accounted from_str old p0 p' (rs @ [])"
  using assms by (intro accounted_moved [OF assms(1,2), where new = "[]"]) (auto simp: accounted_def)

text \<open>The peaks of a task's records: none above the task's own, which is reached when no request is open.\<close>

definition peaks_told :: "string \<Rightarrow> proxy \<Rightarrow> ('h, 'u) phase list \<Rightarrow> ledger_record list \<Rightarrow> bool" where
  "peaks_told r p ps rs \<longleftrightarrow>
    peak_for_task rs r \<le> t_peak (arena_task (px_arena p) r) \<and>
    (opened r ps = 0 \<longrightarrow> peak_for_task rs r = t_peak (arena_task (px_arena p) r))"

lemma peak_for_task_append:
  "peak_for_task (rs @ [x]) r = (if lr_task_id x = r then max (lr_peak x) (peak_for_task rs r) else peak_for_task rs r)"
  by (simp add: peak_for_task_def)

lemma effect_accounted:
  assumes "effect E (p, ps) (p', ps')" "serde_records (en_record_str E) from_str" "accounted from_str old p0 p rs"
    and "\<And>r. peaks_told r p ps rs"
  shows "\<exists>new. accounted from_str old p0 p' (rs @ new) \<and> closed ps' = closed ps + mset (map record_place new) \<and>
    (\<forall>r. peaks_told r p' ps' (rs @ new))"
  using assms(1)
proof (cases rule: effect.cases)
  case (quiet r0 evs)
  then have "accounted from_str old p0 p' (rs @ [])" by (intro accounted_unwritten [OF assms(3) quiet(1)]) auto
  moreover have "peaks_told r p' ps' rs" for r
  proof -
    have "t_peak (task_run rates evs t) = t_peak t" for rates t using quiet(2) by (auto simp: task_simps)
    then show ?thesis using assms(4) [of r] quiet(1,4) by (auto simp: peaks_told_def moved_def)
  qed
  ultimately show ?thesis using quiet(5) by (intro exI [of _ "[]"]) simp
next
  case (begun nd asks)
  then have "accounted from_str old p0 p' (rs @ [])" by (intro accounted_unwritten [OF assms(3) begun(1)]) auto
  moreover have "peaks_told r p' ps' rs" for r
  proof -
    have "t_peak t \<le> t_peak (task_run rates (Began nd None # asks) t)" for rates t
      using begun(2) by (auto simp: task_simps)
    then show ?thesis using assms(4) [of r] begun(1,4)
      by (auto simp: peaks_told_def moved_def simp del: task_run_simps intro: order_trans)
  qed
  ultimately show ?thesis using begun(5) by (intro exI [of _ "[]"]) simp
next
  case (ended nd u done_ok pk now cid)
  let ?x = "finish_record nd u done_ok pk now cid"
  obtain fl where f: "px_ledger p = Some fl" "ledger_holds from_str (old @ rs) fl"
    using assms(3) by (auto simp: accounted_def)
  have "json_line (en_record_str E) from_str ?x" using assms(2) by (simp add: serde_records_def)
  from ledger_append_holds [OF this f(2)] obtain fl' where l: "ledger_append (en_record_str E) ?x fl = Inr fl'"
    "ledger_holds from_str (old @ rs @ [?x]) fl'" by auto
  have "px_ledger p' = Some fl'" using ended(2) f(1) l(1) by simp
  moreover have "peaks_told r p' ps' (rs @ [?x])" for r
  proof -
    have "t_peak (arena_task (px_arena p') r) = t_peak (arena_task (px_arena p) r)"
      using ended(1) by (simp add: moved_def task_simps)
    moreover have "lr_peak ?x = pk"
      by (simp add: finish_record_def from_finish_def with_capture_id_def Let_def split: option.split)
    ultimately show ?thesis using assms(4) [of r] ended(3,5) by (auto simp: peaks_told_def peak_for_task_append)
  qed
  ultimately show ?thesis
    using l(2) ended(4) by (intro exI [of _ "[?x]"] conjI accounted_moved [OF assms(3) ended(1), where new = "[?x]"])
      (auto simp: records_of_append finish_record_place finish_record_end)
qed

lemma run_accounted:
  assumes "relay_run E p0 p ps" "serde_records (en_record_str E) from_str" "started from_str old p0"
  shows "\<exists>rs. accounted from_str old p0 p rs \<and> closed ps = mset (map record_place rs) \<and> (\<forall>r. peaks_told r p ps rs)"
  using assms(1)
proof (induction rule: relay_run.induct)
  case start
  have "accounted from_str old p0 p0 []"
    using assms(3) by (auto simp: accounted_def started_def records_of_def intro!: exI [of _ "[]"])
  moreover have "t_peak (arena_task (px_arena p0) r) = 0" for r
    using assms(3) by (simp add: started_def arena_task_def arena_get_def hm_get_def task_simps)
  ultimately show ?case by (intro exI [of _ "[]"]) (simp add: peaks_told_def peak_for_task_def)
next
  case (step p ps p' ps')
  then obtain rs where rs: "accounted from_str old p0 p rs" "closed ps = mset (map record_place rs)" "\<And>r. peaks_told r p ps rs"
    by blast
  from effect_accounted [OF relay_step_effect [OF step(2)] assms(2) rs(1,3)] obtain new where
    "accounted from_str old p0 p' (rs @ new)" "closed ps' = closed ps + mset (map record_place new)"
    "\<forall>r. peaks_told r p' ps' (rs @ new)" by blast
  then show ?case using rs(2) by (intro exI [of _ "rs @ new"]) simp
qed

text \<open>What the ledger and the live tasks are after a run: the old records and the requests that finished.\<close>

lemma run_ledger:
  assumes "relay_run E p0 p ps" "serde_records (en_record_str E) from_str" "started from_str old p0"
  shows "\<exists>file rs. px_ledger p = Some file \<and> read_all from_str (Some file) = Inr (old @ rs) \<and>
    closed ps = mset (map record_place rs) \<and> (\<forall>r. peaks_told r p ps rs) \<and>
    (\<forall>r. node_tally (arena_task (px_arena p) r) = node_tally (replayed rs r) \<and>
      task_wf (arena_task (px_arena p) r) \<and> t_root (arena_task (px_arena p) r) = r)"
proof -
  obtain rs where rs: "accounted from_str old p0 p rs" "closed ps = mset (map record_place rs)" "\<forall>r. peaks_told r p ps rs"
    using run_accounted [OF assms] by blast
  then obtain fl where f: "px_ledger p = Some fl" "read_all from_str (Some fl) = Inr (old @ rs)"
    using ledger_holds_read by (auto simp: accounted_def)
  have "node_tally (arena_task (px_arena p) r) = node_tally (replayed rs r) \<and>
      task_wf (arena_task (px_arena p) r) \<and> t_root (arena_task (px_arena p) r) = r" for r
  proof -
    have "arena_task (px_arena p0) r = new_task (ar_default_ceiling (px_arena p0)) (ar_voucher_share (px_arena p0)) r"
      using assms(3) by (simp add: started_def arena_task_def arena_get_def hm_get_def)
    moreover obtain evs where "arena_task (px_arena p) r = task_run (rates_of p0) evs (arena_task (px_arena p0) r)"
      "ended_list evs = map record_end (records_of r rs)"
      using rs(1) unfolding accounted_def by blast
    ultimately show ?thesis by (simp add: replayed_tally wf_task_run wf_new_task task_run_root task_simps)
  qed
  with rs(2,3) f show ?thesis by blast
qed

lemma closed_finished: "closed ps = mset [place nd. Finished nd a \<leftarrow> ps]"
proof (induction ps)
  case (Cons ph ps)
  then show ?case by (cases ph) (simp_all add: closed_def)
qed simp

text \<open>
  C4. Every finish is recorded exactly once, and nothing else is: in every interleaving, the records of
  the ledger file are, node by node, the requests that have finished. A request that is still open, or
  that left without being finished, has none.
\<close>

theorem finishes_recorded_once:
  assumes "relay_run E p0 p ps" "serde_records (en_record_str E) from_str" "fresh_proxy p0"
  shows "\<exists>file rs. px_ledger p = Some file \<and> read_all from_str (Some file) = Inr rs \<and>
    mset (map record_place rs) = mset [place nd. Finished nd a \<leftarrow> ps]"
  using run_ledger [OF assms(1,2) fresh_started [OF assms(3)]] unfolding closed_finished by fastforce

text \<open>
  C2. The ledger is a faithful record of the live tasks: in every interleaving of requests, stops,
  metering tasks, WebSockets and failures from a start with an empty ledger, the file the proxy has
  written can be read back, and every task the report builds from it agrees with the live task of that
  root: node by node in usage, requests and incomplete requests, and so in its totals, in its spend at
  every rate card and in its fan-out multiplier. A root without a record has used nothing at any node.
\<close>

theorem ledger_agrees_with_live_tasks:
  assumes "relay_run E p0 p ps" "serde_records (en_record_str E) from_str" "fresh_proxy p0"
  shows "\<exists>file rs. px_ledger p = Some file \<and> read_all from_str (Some file) = Inr rs \<and>
    (\<forall>t \<in> set (tasks_from_records rs). let live = arena_task (px_arena p) (t_root t) in
      node_tally t = node_tally live \<and> total_usage t = total_usage live \<and>
      incomplete_requests t = incomplete_requests live \<and> fan_out_multiplier t = fan_out_multiplier live \<and>
      (\<forall>rates. spent t rates = spent live rates)) \<and>
    (\<forall>r. r \<notin> t_root ` set (tasks_from_records rs) \<longrightarrow>
      node_tally (arena_task (px_arena p) r) = (\<lambda>k. (usage_default, 0, 0)))"
proof -
  obtain fl rs where f: "px_ledger p = Some fl" "read_all from_str (Some fl) = Inr rs"
    and live: "node_tally (arena_task (px_arena p) r) = node_tally (replayed rs r) \<and>
      task_wf (arena_task (px_arena p) r) \<and> t_root (arena_task (px_arena p) r) = r" for r
    using run_ledger [OF assms(1,2) fresh_started [OF assms(3)]] by auto
  have task: "let live = arena_task (px_arena p) (t_root t) in
      node_tally t = node_tally live \<and> total_usage t = total_usage live \<and>
      incomplete_requests t = incomplete_requests live \<and> fan_out_multiplier t = fan_out_multiplier live \<and>
      (\<forall>rates. spent t rates = spent live rates)" if "t \<in> set (tasks_from_records rs)" for t
  proof -
    have t: "t = replayed rs (t_root t)" by (rule task_is_replayed [OF that])
    then have "task_wf t" "node_tally t = node_tally (arena_task (px_arena p) (t_root t))"
      using replayed_wf [of rs "t_root t"] live [of "t_root t"] by simp_all
    then show ?thesis using live same_tally_rollups [of t "arena_task (px_arena p) (t_root t)"] by (simp add: Let_def)
  qed
  have "records_of r rs = []" if "r \<notin> t_root ` set (tasks_from_records rs)" for r
    by (rule no_task_no_records [OF that])
  then show ?thesis
    using f task live replayed_nothing by (intro exI [of _ fl] exI [of _ rs]) simp
qed

section \<open>A run\<close>

text \<open>A codec of records that satisfies the hypothesis: a record is written as one number.\<close>

definition fp_code :: "fp \<Rightarrow> nat \<times> rat" where
  "fp_code x = (case x of FNaN \<Rightarrow> (0, 0) | FInf s \<Rightarrow> (if s then 1 else 2, 0) | Fin q \<Rightarrow> (3, q))"

definition fp_decode :: "nat \<times> rat \<Rightarrow> fp" where
  "fp_decode c = (if fst c = 0 then FNaN else if fst c = 3 then Fin (snd c) else FInf (fst c = 1))"

type_synonym record_code =
  "string \<times> string \<times> string option \<times> (nat \<times> rat) \<times> bool \<times> nat list \<times> string option"

definition record_code :: "ledger_record \<Rightarrow> record_code" where
  "record_code r =
    (lr_task_id r, lr_node r, lr_parent r, fp_code (lr_confidence r), lr_incomplete r,
     [unat (lr_schema_version r), unat (lr_input r), unat (lr_output r), unat (lr_cache_write_5m r),
      unat (lr_cache_write_1h r), unat (lr_cache_read r), unat (lr_reasoning r), unat (lr_peak r), unat (lr_ts r)],
     lr_capture_id r)"

definition record_decode :: "record_code \<Rightarrow> ledger_record" where
  "record_decode c =
    (case c of (t, n, p, f, i, ws, cid) \<Rightarrow>
      \<lparr>lr_schema_version = of_nat (ws ! 0), lr_task_id = t, lr_node = n, lr_parent = p,
       lr_confidence = fp_decode f, lr_incomplete = i, lr_input = of_nat (ws ! 1), lr_output = of_nat (ws ! 2),
       lr_cache_write_5m = of_nat (ws ! 3), lr_cache_write_1h = of_nat (ws ! 4), lr_cache_read = of_nat (ws ! 5),
       lr_reasoning = of_nat (ws ! 6), lr_peak = of_nat (ws ! 7), lr_ts = of_nat (ws ! 8), lr_capture_id = cid\<rparr>)"

definition number_str :: "ledger_record \<Rightarrow> string option" where
  "number_str r = Some (show_nat (to_nat (record_code r)))"

definition number_record :: "string \<Rightarrow> ledger_record option" where
  "number_record s = Some (record_decode (from_nat (digits_val s)))"

lemma record_decode_code: "record_decode (record_code r) = r"
  by (cases r) (auto simp: record_decode_def record_code_def fp_code_def fp_decode_def split: fp.split)

lemma show_nat_json:
  "CHR 0x0A \<notin> set (show_nat n)" "utf8_valid (show_nat n)" "trim (show_nat n) = show_nat n" "last (show_nat n) \<noteq> CHR 0x0D"
proof -
  have digits: "is_ascii_digit c" if "c \<in> set (show_nat n)" for c
    using that show_nat_digits [of n] by (simp add: list_all_iff)
  have "\<not> is_ascii_digit (CHR 0x0A)" "\<not> is_ascii_digit (CHR 0x0D)" by code_simp+
  then show "CHR 0x0A \<notin> set (show_nat n)" "last (show_nat n) \<noteq> CHR 0x0D"
    using digits last_in_set [OF show_nat_not_Nil [of n]] by metis+
  show "utf8_valid (show_nat n)"
    using digits by (intro is_ascii_valid) (fastforce simp: is_ascii_def is_ascii_digit_def Let_def)
  show "trim (show_nat n) = show_nat n"
    using digits by (intro trim_trimmed alphanumeric_trimmed) (simp add: list_all_iff is_ascii_alphanumeric_def)
qed

lemma number_serde: "serde_records number_str number_record"
  unfolding serde_records_def json_line_def number_str_def number_record_def
  using show_nat_json show_nat_not_Nil by (simp add: digits_val_show record_decode_code)

definition text_uri :: "string http_uri" where
  "text_uri =
    \<lparr>uri_scheme = \<lambda>u. Some ''https'', uri_authority = \<lambda>u. Some ''h'', uri_path = \<lambda>u. u,
     uri_path_and_query = \<lambda>u. Some u, uri_with_path_and_query = \<lambda>u p. if p = ''*'' then None else Some p\<rparr>"

definition demo_env :: "(nat, (string \<times> string) list, string) relay_env" where
  "demo_env =
    \<lparr>en_json = sample_json, en_headers = list_headers, en_uri = text_uri, en_upstream = ''/'',
     en_record_str = number_str, en_capture_str = \<lambda>r. None, en_text_str = quote_json\<rparr>"

definition demo_request :: "string \<Rightarrow> ((string \<times> string) list, string) request" where
  "demo_request uri = \<lparr>rq_method = ''POST'', rq_uri = uri, rq_headers = [], rq_body = []\<rparr>"

definition demo_start :: proxy where
  "demo_start = with_ledger [] proxy_new"

text \<open>A request over any ledger, and one whose upstream cannot be reached.\<close>

lemma forwarded_over:
  assumes "uri \<noteq> ''/api/hello''"
  shows "\<exists>p nd. relay_run demo_env (with_ledger f proxy_new) p
    [Forwarding nd (demo_request uri) None, Observing nd (demo_request uri) None]"
proof -
  let ?q = "demo_request uri"
  obtain p nd where res: "relay_resolve (en_json demo_env) (en_headers demo_env) (rq_headers ?q) (rq_body ?q) (with_ledger f proxy_new) =
    (p, nd)" by fastforce
  have path: "request_path demo_env ?q \<noteq> ''/api/hello''"
    using assms by (simp add: request_path_def demo_env_def text_uri_def demo_request_def)
  have "\<not> is_ws demo_env ?q" by (simp add: is_ws_def is_websocket_upgrade_def demo_request_def)
  note arrive = relay_step.arrive [OF path this res, of "[]" 0]
  have "new_capture_id 0 nd (with_ledger f proxy_new) = None"
    by (simp add: new_capture_id_def with_ledger_def proxy_new_def)
  with arrive have run: "relay_run demo_env (with_ledger f proxy_new) p [Resolved nd ?q None]"
    using relay_run.step [OF relay_run.start arrive] by simp
  obtain p' ad where adm: "relay_admit nd p = (p', ad)" by fastforce
  have "px_rates p = None" using resolve_frame [OF res] by (simp add: with_ledger_def proxy_new_def)
  with adm have "admitted ad" by (auto simp: relay_admit_def relay_begin_def admitted_def)
  with adm have "relay_step demo_env (p, [Resolved nd ?q None]) (p', [Resolved nd ?q None][0 := Forwarding nd ?q None] @ [Observing nd ?q None])"
    by (intro relay_step.forward) auto
  from relay_run.step [OF run this] show ?thesis by auto
qed

lemma finished_over:
  "\<exists>p nd. relay_run demo_env (with_ledger f proxy_new) p
    [Finished nd (Some gateway_error), Observing nd (demo_request ''/v1/messages'') None]"
proof -
  let ?q = "demo_request ''/v1/messages''"
  obtain p nd where run: "relay_run demo_env (with_ledger f proxy_new) p [Forwarding nd ?q None, Observing nd ?q None]"
    using forwarded_over [of "''/v1/messages''" f] by auto
  obtain sent where "upstream_request (en_headers demo_env) (en_uri demo_env) (en_upstream demo_env) (rq_uri ?q) (rq_headers ?q) =
      Some sent"
    by (simp add: upstream_request_def rewrite_uri_def rewritten_path_def demo_env_def text_uri_def demo_request_def
        list_headers_def)
  then have "relay_step demo_env (p, [Forwarding nd ?q None, Observing nd ?q None])
      (finish_node (en_record_str demo_env) 0 nd False None p,
       [Forwarding nd ?q None, Observing nd ?q None][0 := Finished nd (Some gateway_error)])"
    by (intro relay_step.unreachable) auto
  from relay_run.step [OF run this] show ?thesis by auto
qed

lemmas demo_forwarded = forwarded_over [where f = "[]", folded demo_start_def]
lemmas demo_finished = finished_over [where f = "[]", folded demo_start_def]

lemma demo_env_serde: "serde_records (en_record_str demo_env) number_record"
  using number_serde by (simp add: demo_env_def)

lemma demo_start_fresh: "fresh_proxy demo_start"
  by (simp add: fresh_proxy_def demo_start_def with_ledger_def proxy_new_def arena_new_def)

theorem ledger_agrees_with_live_tasks_witness:
  "\<exists>p nd file rs. relay_run demo_env demo_start p
      [Finished nd (Some gateway_error), Observing nd (demo_request ''/v1/messages'') None] \<and>
    px_ledger p = Some file \<and> read_all number_record (Some file) = Inr rs \<and>
    (\<forall>t \<in> set (tasks_from_records rs).
      total_usage t = total_usage (arena_task (px_arena p) (t_root t)))"
proof -
  obtain p nd where run: "relay_run demo_env demo_start p
      [Finished nd (Some gateway_error), Observing nd (demo_request ''/v1/messages'') None]"
    using demo_finished by blast
  then show ?thesis
    using ledger_agrees_with_live_tasks [OF run demo_env_serde demo_start_fresh] unfolding Let_def by blast
qed

theorem finishes_recorded_once_witness:
  "\<exists>p nd file x. relay_run demo_env demo_start p
      [Finished nd (Some gateway_error), Observing nd (demo_request ''/v1/messages'') None] \<and>
    px_ledger p = Some file \<and> read_all number_record (Some file) = Inr [x] \<and> record_place x = place nd"
proof -
  obtain p nd where run: "relay_run demo_env demo_start p
      [Finished nd (Some gateway_error), Observing nd (demo_request ''/v1/messages'') None]"
    using demo_finished by blast
  then obtain fl rs where rs: "px_ledger p = Some fl" "read_all number_record (Some fl) = Inr rs"
    "mset (map record_place rs) = {#place nd#}"
    using finishes_recorded_once [OF run demo_env_serde demo_start_fresh] by auto
  from rs(3) obtain x where "rs = [x]" "record_place x = place nd"
    by (cases rs) auto
  with run rs show ?thesis by blast
qed

end
