(* ===== verification/Proxy_Progress.thy ===== *)
theory Proxy_Progress
  imports Proxy_Run
begin

text \<open>
  What becomes of requests in the relay: the live count of a task is the number of its open requests,
  requests that left without being finished stay in it, and WebSockets are not asked.
\<close>

section \<open>The live count\<close>

lemma relay_step_length: "relay_step E s s' \<Longrightarrow> length (snd s) \<le> length (snd s')"
  by (induction rule: relay_step.induct) auto

lemma opened_le: "opened r ps \<le> length ps"
proof (induction ps)
  case (Cons ph ps)
  have "open_in r ph \<le> 1" by (cases ph) auto
  with Cons show ?case by (simp add: opened_def)
qed simp

lemma live_effect:
  assumes "effect E (p, ps) (p', ps')" "unat (t_live (arena_task (px_arena p) r)) = opened r ps"
    and "task_wf (arena_task (px_arena p) r)" "opened r ps' < 2 ^ 32"
  shows "unat (t_live (arena_task (px_arena p') r)) = opened r ps' \<and> task_wf (arena_task (px_arena p') r)"
proof -
  have wf: "task_wf (arena_task (px_arena p') r)" if "moved r0 evs p p'" for r0 evs
    using that assms(3) wf_task_run by (auto simp: moved_def)
  show ?thesis
    using assms(1)
  proof (cases rule: effect.cases)
    case (quiet r0 evs)
    then show ?thesis using assms(2) wf [OF quiet(1)] by (auto simp: moved_def task_simps)
  next
    case (begun nd asks)
    have "t_live (task_run rates (Began nd None # asks) t) = t_live t + 1" for rates t
      using begun(2) by (auto simp: task_simps)
    then show ?thesis
      using begun(1,4) assms(2,4) wf [OF begun(1)]
      by (cases "r = nr_root nd") (auto simp: moved_def unat_add_bound)
  next
    case (ended nd u done_ok pk now cid)
    have "unat (t_live (task_run rates [Ended nd u done_ok] t)) = unat (t_live t) - 1" for rates t
      by (simp add: task_simps sat_simps)
    then show ?thesis
      using ended(1,3) assms(2) wf [OF ended(1)]
      by (cases "r = nr_root nd") (auto simp: moved_def)
  qed
qed

lemma live_counts:
  assumes "relay_run E p0 p ps" "ar_tasks (px_arena p0) = []" "length ps < 2 ^ 32"
  shows "unat (t_live (arena_task (px_arena p) r)) = opened r ps \<and> task_wf (arena_task (px_arena p) r)"
  using assms(1,3)
proof (induction rule: relay_run.induct)
  case start
  have "arena_task (px_arena p0) r = new_task (ar_default_ceiling (px_arena p0)) (ar_voucher_share (px_arena p0)) r"
    using assms(2) by (simp add: arena_task_def arena_get_def hm_get_def)
  then show ?case by (simp add: wf_new_task task_simps)
next
  case (step p ps p' ps')
  have "length ps \<le> length ps'" using relay_step_length [OF step(2)] by simp
  moreover have "opened r ps' < 2 ^ 32" using opened_le [of r ps'] step.prems by simp
  ultimately show ?case
    using live_effect [OF relay_step_effect [OF step(2)]] step by auto
qed

text \<open>
  C9. The live count that the proxy keeps for a task is exactly the number of requests that have begun
  in it and not finished, in every interleaving of fewer than 2^32 requests: no path finishes a request
  twice, and none finishes one that never began.
\<close>

theorem live_counts_open_requests:
  assumes "relay_run E p0 p ps" "ar_tasks (px_arena p0) = []" "length ps < 2 ^ 32"
  shows "unat (t_live (arena_task (px_arena p) r)) = opened r ps"
  using live_counts [OF assms] by blast

theorem live_counts_open_requests_witness:
  "\<exists>p nd. relay_run demo_env demo_start p
      [Forwarding nd (demo_request ''/v1/messages'') None, Observing nd (demo_request ''/v1/messages'') None] \<and>
    unat (t_live (arena_task (px_arena p) (nr_root nd))) = 1"
proof -
  obtain p nd where run: "relay_run demo_env demo_start p
      [Forwarding nd (demo_request ''/v1/messages'') None, Observing nd (demo_request ''/v1/messages'') None]"
    using demo_forwarded [of "''/v1/messages''"] by auto
  have "ar_tasks (px_arena demo_start) = []" by (simp add: demo_start_def with_ledger_def proxy_new_def arena_new_def)
  with run show ?thesis
    using live_counts_open_requests [OF run, of "nr_root nd"] by (auto simp: opened_def)
qed

section \<open>The peak\<close>

text \<open>Runs that remember the largest number \<open>m\<close> of requests of task \<open>r\<close> that were open at once.\<close>

inductive peak_run ::
  "('v, 'h, 'u) relay_env \<Rightarrow> proxy \<Rightarrow> string \<Rightarrow> nat \<Rightarrow> proxy \<Rightarrow> ('h, 'u) phase list \<Rightarrow> bool"
  for E p0 r where
  start: "peak_run E p0 r 0 p0 []"
| step: "peak_run E p0 r m p ps \<Longrightarrow> relay_step E (p, ps) (p', ps') \<Longrightarrow>
    peak_run E p0 r (max m (opened r ps')) p' ps'"

lemma peak_run_relay: "peak_run E p0 r m p ps \<Longrightarrow> relay_run E p0 p ps"
  by (induction rule: peak_run.induct) (auto intro: relay_run.intros)

lemma run_has_peak: "relay_run E p0 p ps \<Longrightarrow> \<exists>m. peak_run E p0 r m p ps"
  by (induction rule: relay_run.induct) (auto intro: peak_run.intros)

lemma peak_effect:
  assumes "effect E (p, ps) (p', ps')" "unat (t_live (arena_task (px_arena p) r)) = opened r ps"
    and "task_wf (arena_task (px_arena p) r)" "opened r ps' < 2 ^ 32"
  shows "unat (t_peak (arena_task (px_arena p') r)) = max (unat (t_peak (arena_task (px_arena p) r))) (opened r ps')"
proof -
  let ?t = "arena_task (px_arena p) r"
  have le: "opened r ps \<le> unat (t_peak ?t)"
    using assms(2,3) by (simp add: task_wf_def word_le_nat_alt)
  show ?thesis
    using assms(1)
  proof (cases rule: effect.cases)
    case (quiet r0 evs)
    have "t_peak (task_run rates evs t) = t_peak t" for rates t using quiet(2) by (auto simp: task_simps)
    then show ?thesis using quiet(1,4) le by (auto simp: moved_def)
  next
    case (begun nd asks)
    have "t_peak (task_run rates (Began nd None # asks) t) = max (t_peak t) (t_live t + 1)" for rates t
      using begun(2) by (auto simp: task_simps)
    then show ?thesis
      using begun(1,4) assms(2,4) le
      by (cases "r = nr_root nd") (auto simp: moved_def unat_max unat_add_bound simp del: task_run_simps)
  next
    case (ended nd u done_ok pk now cid)
    have "t_peak (task_run rates [Ended nd u done_ok] t) = t_peak t" for rates t by (simp add: task_simps)
    moreover have "opened r ps' \<le> opened r ps" using ended(3) [of r] by simp
    ultimately show ?thesis using ended(1) le by (auto simp: moved_def simp del: task_run_simps)
  qed
qed

lemma peak_run_peak:
  assumes "peak_run E p0 r m p ps" "ar_tasks (px_arena p0) = []" "length ps < 2 ^ 32"
  shows "unat (t_peak (arena_task (px_arena p) r)) = m"
  using assms(1,3)
proof (induction rule: peak_run.induct)
  case start
  then show ?case using assms(2) by (simp add: arena_task_def arena_get_def hm_get_def task_simps)
next
  case (step m p ps p' ps')
  have len: "length ps < 2 ^ 32" using relay_step_length [OF step(2)] step(4) by simp
  from live_counts [OF peak_run_relay [OF step(1)] assms(2) len, of r]
  have "unat (t_live (arena_task (px_arena p) r)) = opened r ps" "task_wf (arena_task (px_arena p) r)" by simp_all
  moreover have "opened r ps' < 2 ^ 32" using opened_le [of r ps'] step(4) by simp
  ultimately show ?case using peak_effect [OF relay_step_effect [OF step(2)]] step(3) [OF len] by simp
qed

text \<open>
  C5. The concurrency the report prints for a task is the true one: in every interleaving, the peak of its
  records is at most the largest number of its requests that were open at once, and it is that number
  whenever none is open any more.
\<close>

theorem reported_peak_is_the_peak:
  assumes "peak_run E p0 r m p ps" "serde_records (en_record_str E) from_str" "fresh_proxy p0" "length ps < 2 ^ 32"
  shows "\<exists>file rs. px_ledger p = Some file \<and> read_all from_str (Some file) = Inr rs \<and>
    unat (peak_for_task rs r) \<le> m \<and> (opened r ps = 0 \<longrightarrow> unat (peak_for_task rs r) = m)"
proof -
  have "ar_tasks (px_arena p0) = []" using assms(3) by (simp add: fresh_proxy_def)
  from peak_run_peak [OF assms(1) this assms(4)] have "unat (t_peak (arena_task (px_arena p) r)) = m" .
  then show ?thesis
    using run_ledger [OF peak_run_relay [OF assms(1)] assms(2) fresh_started [OF assms(3)]]
    by (fastforce simp: peaks_told_def word_le_nat_alt)
qed

theorem reported_peak_is_the_peak_witness:
  "\<exists>p nd m file rs. peak_run demo_env demo_start (nr_root nd) m p
      [Finished nd (Some gateway_error), Observing nd (demo_request ''/v1/messages'') None] \<and>
    px_ledger p = Some file \<and> read_all number_record (Some file) = Inr rs \<and>
    unat (peak_for_task rs (nr_root nd)) = m"
proof -
  obtain p nd where run: "relay_run demo_env demo_start p
      [Finished nd (Some gateway_error), Observing nd (demo_request ''/v1/messages'') None]"
    using demo_finished by blast
  from run_has_peak [OF this] obtain m where m: "peak_run demo_env demo_start (nr_root nd) m p
      [Finished nd (Some gateway_error), Observing nd (demo_request ''/v1/messages'') None]" by blast
  from reported_peak_is_the_peak [OF m demo_env_serde demo_start_fresh] obtain fl rs where
    "px_ledger p = Some fl" "read_all number_record (Some fl) = Inr rs" "unat (peak_for_task rs (nr_root nd)) = m"
    by (auto simp: opened_def)
  with m show ?thesis by blast
qed

section \<open>Leaks\<close>

lemma leaked_stays:
  "relay_step E s s' \<Longrightarrow> i < length (snd s) \<Longrightarrow> snd s ! i = Leaked nd a \<Longrightarrow>
    i < length (snd s') \<and> snd s' ! i = Leaked nd a"
  by (induction rule: relay_step.induct)
    (auto simp: nth_append nth_list_update elim: relay_ws_stepE ws_task_stepE)

text \<open>
  C27. A request that leaves \<open>relay_inner\<close> or \<open>relay_ws\<close> through an early return after \<open>begin\<close>, or whose
  client goes away while the upstream is awaited, is never finished: whatever happens later it stays
  leaked, and the live count of its task stays above zero, in runs of fewer than \<open>2 ^ 32\<close> requests.
\<close>

theorem early_returns_leak:
  assumes "relay_run E p0 p ps" "(relay_step E)\<^sup>*\<^sup>* (p, ps) (p', ps')" "i < length ps" "ps ! i = Leaked nd a"
    and "ar_tasks (px_arena p0) = []" "length ps' < 2 ^ 32"
  shows "ps' ! i = Leaked nd a \<and> 0 < unat (t_live (arena_task (px_arena p') (nr_root nd)))"
proof -
  have run: "relay_run E p0 p' ps' \<and> i < length ps' \<and> ps' ! i = Leaked nd a"
    using assms(2)
  proof (induction rule: rtranclp_induct2)
    case refl
    then show ?case using assms by blast
  next
    case (step q qs q' qs')
    then show ?case using leaked_stays [OF step(2), of i nd a] relay_run.step by fastforce
  qed
  have "open_in (nr_root nd) (ps' ! i) \<le> opened (nr_root nd) ps'"
    using conjunct1 [OF conjunct2 [OF run]]
      member_le_sum_list [of "open_in (nr_root nd) (ps' ! i)" "map (open_in (nr_root nd)) ps'"]
    by (simp add: opened_def)
  then show ?thesis using run live_counts [of E p0 p' ps' "nr_root nd"] assms(5,6) by auto
qed

text \<open>A request whose URI cannot be rewritten.\<close>

theorem early_returns_leak_witness:
  "\<exists>p nd. relay_run demo_env demo_start p [Leaked nd (Some gateway_error), Observing nd (demo_request ''*'') None] \<and>
    0 < unat (t_live (arena_task (px_arena p) (nr_root nd)))"
proof -
  let ?q = "demo_request ''*''"
  obtain p nd where run: "relay_run demo_env demo_start p [Forwarding nd ?q None, Observing nd ?q None]"
    using demo_forwarded [of "''*''"] by auto
  have "upstream_request (en_headers demo_env) (en_uri demo_env) (en_upstream demo_env) (rq_uri ?q) (rq_headers ?q) = None"
    by (simp add: upstream_request_def rewrite_uri_def rewritten_path_def demo_env_def text_uri_def demo_request_def)
  then have "relay_step demo_env (p, [Forwarding nd ?q None, Observing nd ?q None])
      (p, [Forwarding nd ?q None, Observing nd ?q None][0 := Leaked nd (Some gateway_error)])"
    by (intro relay_step.give_up) auto
  from relay_run.step [OF run this] have leaked: "relay_run demo_env demo_start p [Leaked nd (Some gateway_error), Observing nd ?q None]" by simp
  moreover have "ar_tasks (px_arena demo_start) = []" by (simp add: demo_start_def with_ledger_def proxy_new_def arena_new_def)
  ultimately show ?thesis
    using early_returns_leak [OF leaked, of p "[Leaked nd (Some gateway_error), Observing nd ?q None]" 0 nd "Some gateway_error"] by auto
qed

section \<open>WebSockets and the budget\<close>

lemma total_usage_run:
  assumes "task_wf t"
  shows "total_usage (task_run rates evs t) = total_usage t + (\<Sum>e\<leftarrow>evs. ended_usage e)"
  unfolding total_usage_eq
  by (rule task_run_total [where g = n_usage and e = ended_usage]) (simp_all add: assms usage_merge_plus)

lemma moved_usage:
  "moved r0 evs p p' \<Longrightarrow> task_wf (arena_task (px_arena p) r0) \<Longrightarrow>
    task_wf (arena_task (px_arena p') r0) \<and>
    total_usage (arena_task (px_arena p') r0) =
      total_usage (arena_task (px_arena p) r0) + (\<Sum>e\<leftarrow>evs. ended_usage e)"
  by (simp add: moved_def total_usage_run wf_task_run)

lemma sealed_denied:
  assumes "t_sealed (arena_task (px_arena p) (nr_root nd))"
    "t_ceiling (arena_task (px_arena p) (nr_root nd)) \<noteq> None" "px_rates p = Some rates"
  shows "\<exists>p' a b. relay_admit nd p = (p', Deny a b)"
proof -
  let ?t = "arena_task (px_arena p) (nr_root nd)"
  have "arena_task (px_arena (relay_begin nd p)) (nr_root nd) = begin_request nd None ?t"
    by (simp add: relay_begin_def arena_task_mut)
  moreover have "t_sealed (begin_request nd None ?t)" "t_ceiling (begin_request nd None ?t) \<noteq> None"
    using assms(1,2) by (simp_all add: task_simps)
  then have "\<exists>a b. snd (admit_at nd rates (begin_request nd None ?t)) = Deny a b"
    by (auto simp: admit_at_def admit_def Let_def)
  ultimately show ?thesis
    using assms(3) by (auto simp: relay_admit_def relay_begin_def Let_def task_mut_def split: prod.splits)
qed

text \<open>Reads of the upstream, one after the other.\<close>

lemma ws_reads:
  assumes "fold (\<lambda>c s. Option.bind s (\<lambda>x. ws_upstream (en_json E) x c)) chunks (Some s) = Some s'"
  shows "(relay_step E)\<^sup>*\<^sup>* (p, ps @ [WsRelaying nd s]) (p, ps @ [WsRelaying nd s'])"
  using assms
proof (induction chunks arbitrary: s)
  case (Cons c cs)
  have "fold (\<lambda>c s. Option.bind s (\<lambda>x. ws_upstream (en_json E) x c)) cs None = None" for cs
    by (induction cs) simp_all
  then obtain s1 where s1: "ws_upstream (en_json E) s c = Some s1"
    using Cons.prems by (cases "ws_upstream (en_json E) s c") auto
  have "relay_step E (p, ps @ [WsRelaying nd s]) (p, (ps @ [WsRelaying nd s])[length ps := WsRelaying nd s1])"
    by (rule relay_step.ws_task) (use s1 in \<open>auto intro: ws_task_step.ws_received\<close>)
  then show ?case using Cons s1 by (simp add: converse_rtranclp_into_rtranclp)
qed simp

text \<open>
  C30. The ceiling does not bind WebSockets: in a sealed task, where every HTTP request is denied, a
  WebSocket request is relayed to its end, and whatever usage its frames report is added to the task.
\<close>

theorem websockets_bypass_the_ceiling:
  assumes "t_sealed (arena_task (px_arena p) (nr_root nd))"
    "t_ceiling (arena_task (px_arena p) (nr_root nd)) \<noteq> None" "px_rates p = Some rates"
    "task_wf (arena_task (px_arena p) (nr_root nd))"
    and "ws_scans (en_json E) (dialect_for_path (request_path E q)) chunks = Some s"
    "ws_usage (en_json E) s = (u, done_ok)" "ws_built E q"
  shows "(\<exists>p' a b. relay_admit nd p = (p', Deny a b)) \<and>
    (\<exists>p'. (relay_step E)\<^sup>*\<^sup>* (p, ps @ [WsResolved nd q]) (p', ps @ [Finished nd None]) \<and>
      total_usage (arena_task (px_arena p') (nr_root nd)) =
        total_usage (arena_task (px_arena p) (nr_root nd)) + u)"
proof -
  let ?d = "dialect_for_path (request_path E q)"
  let ?p1 = "relay_begin nd p"
  let ?p2 = "finish_locked (en_record_str E) 0 nd u done_ok None ?p1"
  let ?i = "length ps"
  have "relay_step E (p, ps @ [WsResolved nd q]) (?p1, (ps @ [WsResolved nd q])[?i := WsOpening nd q])"
    by (rule relay_step.ws_handler) (auto intro: relay_ws_step.ws_begin)
  moreover have "relay_step E (?p1, ps @ [WsOpening nd q]) (?p1, (ps @ [WsOpening nd q])[?i := WsUpgrading nd ?d])"
    by (rule relay_step.ws_handler) (use assms(7) in \<open>auto intro: relay_ws_step.ws_upgraded\<close>)
  moreover have "relay_step E (?p1, ps @ [WsUpgrading nd ?d]) (?p1, (ps @ [WsUpgrading nd ?d])[?i := WsRelaying nd (ws_scan_new ?d)])"
    by (rule relay_step.ws_task) (auto intro: ws_task_step.ws_spliced)
  ultimately have opened: "(relay_step E)\<^sup>*\<^sup>* (p, ps @ [WsResolved nd q]) (?p1, ps @ [WsRelaying nd (ws_scan_new ?d)])"
    by (simp add: converse_rtranclp_into_rtranclp)
  have reads: "(relay_step E)\<^sup>*\<^sup>* (?p1, ps @ [WsRelaying nd (ws_scan_new ?d)]) (?p1, ps @ [WsRelaying nd s])"
    using assms(5) unfolding ws_scans_def by (rule ws_reads)
  have "relay_step E (?p1, ps @ [WsRelaying nd s]) (?p2, (ps @ [WsRelaying nd s])[?i := Finished nd None])"
    by (rule relay_step.ws_task) (auto intro: ws_task_step.ws_done [OF assms(6)])
  then have "relay_step E (?p1, ps @ [WsRelaying nd s]) (?p2, ps @ [Finished nd None])" by simp
  with rtranclp_trans [OF opened reads]
  have "(relay_step E)\<^sup>*\<^sup>* (p, ps @ [WsResolved nd q]) (?p2, ps @ [Finished nd None])"
    by (rule rtranclp.rtrancl_into_rtrancl)
  moreover have "total_usage (arena_task (px_arena ?p2) (nr_root nd)) =
      total_usage (arena_task (px_arena p) (nr_root nd)) + u"
    using moved_usage [OF relay_begin_moved assms(4)]
      moved_usage [OF finish_locked_moved, of ?p1 nd "en_record_str E" 0 u done_ok None] by simp
  ultimately show ?thesis using sealed_denied [OF assms(1-3)] by blast
qed

text \<open>A ceiling of zero, sealed by its first request.\<close>

definition broke_ref :: node_ref where
  "broke_ref = declared_ref ''s'' None None"

definition broke_proxy :: proxy where
  "broke_proxy = fst (relay_admit broke_ref (with_budget 0 (rate_from_base 3 15) None (with_ledger [] proxy_new)))"

definition chat_request :: "((string \<times> string) list, string) request" where
  "chat_request = \<lparr>rq_method = ''GET'', rq_uri = ''/v1/chat/completions'', rq_headers = [], rq_body = []\<rparr>"

lemma broke_facts:
  "t_sealed (arena_task (px_arena broke_proxy) ''s'')"
  "t_ceiling (arena_task (px_arena broke_proxy) ''s'') = Some 0"
  "task_wf (arena_task (px_arena broke_proxy) ''s'')"
  "px_rates broke_proxy = Some (rate_from_base 3 15)"
  "nr_root broke_ref = ''s''"
proof -
  let ?t = "arena_task (px_arena broke_proxy) ''s''"
  let ?p0 = "with_budget 0 (rate_from_base 3 15) None (with_ledger [] proxy_new)"
  have new: "arena_task (px_arena ?p0) ''s'' = new_task (Some 0) None ''s''"
    by (simp add: with_budget_def with_default_ceiling_micros_def arena_task_def arena_get_def arena_new_def hm_get_def)
  have rates: "px_rates ?p0 = Some (rate_from_base 3 15)" by (simp add: with_budget_def)
  show root: "nr_root broke_ref = ''s''" by (simp add: broke_ref_def declared_ref_def)
  have task: "?t = fst (admit_at broke_ref (rate_from_base 3 15) (begin_request broke_ref None (new_task (Some 0) None ''s'')))"
    using new rates root
    by (simp add: broke_proxy_def relay_admit_def relay_begin_def Let_def arena_task_mut split_beta)
  show "t_sealed ?t" "t_ceiling ?t = Some 0"
    unfolding task by (simp_all add: admit_at_def admit_def Let_def task_simps)
  show "px_rates broke_proxy = Some (rate_from_base 3 15)"
    using rates by (simp add: broke_proxy_def relay_admit_def relay_begin_def Let_def split_beta)
  show "task_wf ?t"
    unfolding task using wf_task_run [OF wf_new_task, of "rate_from_base 3 15" "[Began broke_ref None, Asked broke_ref]"]
    by simp
qed

theorem websockets_bypass_the_ceiling_witness:
  "\<exists>p' u. (relay_step demo_env)\<^sup>*\<^sup>* (broke_proxy, [WsResolved broke_ref chat_request]) (p', [Finished broke_ref None]) \<and>
    u_output u = 40 \<and>
    total_usage (arena_task (px_arena p') ''s'') = total_usage (arena_task (px_arena broke_proxy) ''s'') + u"
proof -
  obtain s where "ws_scans (en_json demo_env) (dialect_for_path (request_path demo_env chat_request))
      [[CHR 0x81, CHR 0x07] @ ''{usage}''] = Some s" and "u_output (fst (ws_usage (en_json demo_env) s)) = 40"
  proof -
    have "case ws_scans sample_json (dialect_for_path ''/v1/chat/completions'') [[CHR 0x81, CHR 0x07] @ ''{usage}''] of
        Some s \<Rightarrow> u_output (fst (ws_usage sample_json s)) = 40 | None \<Rightarrow> False" by code_simp
    then show ?thesis
      using that by (auto simp: demo_env_def request_path_def text_uri_def chat_request_def split: option.splits)
  qed
  moreover have "ws_built demo_env chat_request"
    by (simp add: ws_built_def rewrite_uri_def rewritten_path_def demo_env_def text_uri_def chat_request_def
        list_headers_def)
  ultimately show ?thesis
    using websockets_bypass_the_ceiling [of broke_proxy broke_ref "rate_from_base 3 15" demo_env chat_request
      "[[CHR 0x81, CHR 0x07] @ ''{usage}'']" s "fst (ws_usage (en_json demo_env) s)"
      "snd (ws_usage (en_json demo_env) s)" "[]"]
    by (auto simp: broke_facts)
qed

end
