(* ===== verification/Proxy_Stream.thy ===== *)
theory Proxy_Stream
  imports Proxy_Progress
begin

text \<open>
  What the metering task of one request writes down (\<open>spawn_meter\<close> of \<open>crates/tailfin-proxy/src/proxy.rs\<close>),
  while every other request goes on: the relay receives a stream chunk by chunk, and its record is the one
  that \<open>spawn_meter\<close> makes of all of them.
\<close>

section \<open>A stream in the relay\<close>

text \<open>
  A run in which request \<open>i\<close>, of node \<open>nd\<close>, has started its metering task in dialect \<open>d\<close>, and the chunks
  that task has received since. Other requests take their steps in between.
\<close>

inductive stream_run ::
  "('v, 'h, 'u) relay_env \<Rightarrow> proxy \<Rightarrow> nat \<Rightarrow> node_ref \<Rightarrow> dialect option \<Rightarrow> string option \<Rightarrow>
    string list \<Rightarrow> proxy \<Rightarrow> ('h, 'u) phase list \<Rightarrow> bool"
  for E p0 i nd d cid where
  opened: "relay_run E p0 p ps \<Longrightarrow> relay_step E (p, ps) (p', ps') \<Longrightarrow> i < length ps' \<Longrightarrow>
    ps' ! i = Metering nd (metering_new d) cid \<Longrightarrow> stream_run E p0 i nd d cid [] p' ps'"
| others: "stream_run E p0 i nd d cid cs p ps \<Longrightarrow> relay_step E (p, ps) (p', ps') \<Longrightarrow> ps' ! i = ps ! i \<Longrightarrow>
    stream_run E p0 i nd d cid cs p' ps'"
| received: "stream_run E p0 i nd d cid cs p ps \<Longrightarrow> ps ! i = Metering nd m cid \<Longrightarrow>
    stream_run E p0 i nd d cid (cs @ [c]) p (ps[i := Metering nd (metering_chunk (en_json E) c m) cid])"

lemma stream_run_state:
  "stream_run E p0 i nd d cid cs p ps \<Longrightarrow>
    relay_run E p0 p ps \<and> i < length ps \<and>
    ps ! i = Metering nd (fold (metering_chunk (en_json E)) cs (metering_new d)) cid"
proof (induction rule: stream_run.induct)
  case (opened p ps p' ps')
  then show ?case by (auto intro: relay_run.step)
next
  case (others cs p ps p' ps')
  then show ?case using relay_step_length [OF others(2)] by (auto intro: relay_run.step)
next
  case (received cs p ps m c)
  then have "relay_step E (p, ps) (p, ps[i := Metering nd (metering_chunk (en_json E) c m) cid])"
    by (intro relay_step.received) auto
  with received show ?case by (auto intro: relay_run.step)
qed

text \<open>A request in its metering task is finished by that task alone.\<close>

lemma metering_finishes:
  assumes "relay_step E (p, ps) (p', ps')" "i < length ps" "ps ! i = Metering nd m cid" "ps' ! i = Finished nd' a"
  shows "\<exists>u done_ok now. metering_end (en_json E) m = (u, done_ok) \<and>
    p' = finish_locked (en_record_str E) now nd u done_ok cid p \<and> ps' = ps[i := Finished nd None]"
  using assms
  by (cases rule: relay_step.cases)
    (auto simp: nth_append nth_list_update split: if_splits elim!: relay_ws_stepE ws_task_stepE)

text \<open>
  C28. What is received is what is recorded: in every interleaving, when the metering task of a request has
  received the chunks \<open>cs\<close> and the request is then finished, the ledger gains exactly one record, of that
  node and with its capture, whose usage and completeness are those of \<open>spawn_meter\<close> on all of \<open>cs\<close>, and the
  live task gains exactly that usage. Such a step is always there: a stream that ends is recorded.
\<close>

theorem stream_recorded_as_received:
  assumes "stream_run E p0 i nd d cid cs p ps" "serde_records (en_record_str E) from_str" "started from_str old p0"
  shows "\<exists>file rs. px_ledger p = Some file \<and> read_all from_str (Some file) = Inr rs \<and>
    (\<exists>p' ps'. relay_step E (p, ps) (p', ps') \<and> ps' ! i = Finished nd None) \<and>
    (\<forall>p' ps' nd' a. relay_step E (p, ps) (p', ps') \<and> ps' ! i = Finished nd' a \<longrightarrow>
      (\<exists>file' x. px_ledger p' = Some file' \<and> read_all from_str (Some file') = Inr (rs @ [x]) \<and>
        record_place x = place nd \<and> lr_capture_id x = cid \<and>
        record_usage x = fst (spawn_meter (en_json E) d cs) \<and>
        lr_incomplete x = (\<not> snd (spawn_meter (en_json E) d cs)) \<and>
        total_usage (arena_task (px_arena p') (nr_root nd)) =
          total_usage (arena_task (px_arena p) (nr_root nd)) + record_usage x))"
proof -
  let ?m = "fold (metering_chunk (en_json E)) cs (metering_new d)"
  from stream_run_state [OF assms(1)] have run: "relay_run E p0 p ps" and i: "i < length ps" "ps ! i = Metering nd ?m cid"
    by auto
  obtain u ok where out: "metering_end (en_json E) ?m = (u, ok)" by fastforce
  then have meter: "spawn_meter (en_json E) d cs = (u, ok)" by (simp add: metering_loop)
  obtain fl rs where fl: "px_ledger p = Some fl" "ledger_holds from_str (old @ rs) fl"
    using run_accounted [OF run assms(2,3)] by (auto simp: accounted_def)
  have wf: "task_wf (arena_task (px_arena p) (nr_root nd))" using run_ledger [OF run assms(2,3)] by blast
  have ends: "\<exists>fl' x. px_ledger p' = Some fl' \<and> read_all from_str (Some fl') = Inr ((old @ rs) @ [x]) \<and>
      record_place x = place nd \<and> lr_capture_id x = cid \<and> record_usage x = u \<and> lr_incomplete x = (\<not> ok) \<and>
      total_usage (arena_task (px_arena p') (nr_root nd)) = total_usage (arena_task (px_arena p) (nr_root nd)) + record_usage x"
    if step: "relay_step E (p, ps) (p', ps')" "ps' ! i = Finished nd' a" for p' ps' nd' a
  proof -
    obtain now where p': "p' = finish_locked (en_record_str E) now nd u ok cid p"
      using metering_finishes [OF step(1) i step(2)] out by auto
    let ?x = "finish_record nd u ok (t_peak (arena_task (px_arena p') (nr_root nd))) now cid"
    have "json_line (en_record_str E) from_str ?x" using assms(2) by (simp add: serde_records_def)
    from ledger_append_holds [OF this fl(2)] obtain fl' where fl': "ledger_append (en_record_str E) ?x fl = Inr fl'"
      "ledger_holds from_str ((old @ rs) @ [?x]) fl'" by blast
    have "px_ledger p' = Some fl'" using fl(1) fl'(1) unfolding p' by (simp add: finish_locked_record)
    moreover have "lr_capture_id ?x = cid"
      by (simp add: finish_record_def from_finish_def with_capture_id_def Let_def split: option.split)
    moreover have "total_usage (arena_task (px_arena p') (nr_root nd)) = total_usage (arena_task (px_arena p) (nr_root nd)) + u"
      using moved_usage [OF finish_locked_moved wf] unfolding p' by simp
    ultimately show ?thesis
      using ledger_holds_read [OF fl'(2)] by (intro exI [of _ fl'] exI [of _ ?x]) (simp add: finish_record_place)
  qed
  have "relay_step E (p, ps) (finish_locked (en_record_str E) 0 nd u ok cid p, ps[i := Finished nd None])"
    by (rule relay_step.metered [OF i out])
  then have "\<exists>p' ps'. relay_step E (p, ps) (p', ps') \<and> ps' ! i = Finished nd None"
    using i(1) by (intro exI conjI) auto
  with fl(1) ledger_holds_read [OF fl(2)] show ?thesis
    unfolding meter fst_conv snd_conv
  proof (rule_tac exI [of _ fl], rule_tac exI [of _ "old @ rs"], intro conjI allI impI)
    fix p' ps' nd' a
    assume "relay_step E (p, ps) (p', ps') \<and> ps' ! i = Finished nd' a"
    then show "\<exists>file' x. px_ledger p' = Some file' \<and> read_all from_str (Some file') = Inr ((old @ rs) @ [x]) \<and>
        record_place x = place nd \<and> lr_capture_id x = cid \<and> record_usage x = u \<and> lr_incomplete x = (\<not> ok) \<and>
        total_usage (arena_task (px_arena p') (nr_root nd)) =
          total_usage (arena_task (px_arena p) (nr_root nd)) + record_usage x"
      using ends by blast
  qed
qed

text \<open>A chat completion in one chunk, of 40 tokens.\<close>

theorem stream_recorded_as_received_witness:
  "\<exists>p ps nd p' ps' file x. stream_run demo_env demo_start 0 nd (Some OpenAiChat) None [''data: {usage}'' @ [newline, newline]] p ps \<and>
    relay_step demo_env (p, ps) (p', ps') \<and> ps' ! 0 = Finished nd None \<and>
    px_ledger p' = Some file \<and> read_all number_record (Some file) = Inr [x] \<and>
    record_place x = place nd \<and> u_output (record_usage x) = 40"
proof -
  let ?q = "demo_request ''/v1/chat/completions''" and ?chunk = "''data: {usage}'' @ [newline, newline]"
  obtain p nd where run: "relay_run demo_env demo_start p [Forwarding nd ?q None, Observing nd ?q None]"
    using demo_forwarded [of "''/v1/chat/completions''"] by auto
  obtain sent where "upstream_request (en_headers demo_env) (en_uri demo_env) (en_upstream demo_env) (rq_uri ?q) (rq_headers ?q) =
      Some sent"
    by (simp add: upstream_request_def rewrite_uri_def rewritten_path_def demo_env_def text_uri_def demo_request_def
        list_headers_def)
  moreover have "relay_dialect (request_path demo_env ?q) = OpenAiChat"
    by (simp add: request_path_def demo_env_def text_uri_def demo_request_def) code_simp
  ultimately have "relay_step demo_env (p, [Forwarding nd ?q None, Observing nd ?q None])
      (p, [Forwarding nd ?q None, Observing nd ?q None][0 := Metering nd (metering_new (Some OpenAiChat)) None])"
    using relay_step.answered [of 0 "[Forwarding nd ?q None, Observing nd ?q None]" nd ?q None demo_env sent p] by simp
  from stream_run.opened [OF run this, of 0 nd "Some OpenAiChat" None]
  have "stream_run demo_env demo_start 0 nd (Some OpenAiChat) None [] p
      [Metering nd (metering_new (Some OpenAiChat)) None, Observing nd ?q None]" by simp
  from stream_run.received [OF this, of _ ?chunk] obtain m where
    stream: "stream_run demo_env demo_start 0 nd (Some OpenAiChat) None [?chunk] p [Metering nd m None, Observing nd ?q None]" by auto
  from run_ledger [OF conjunct1 [OF stream_run_state [OF stream]] demo_env_serde fresh_started [OF demo_start_fresh]]
  have "\<exists>fl. px_ledger p = Some fl \<and> read_all number_record (Some fl) = Inr []" by (auto simp: closed_def)
  with stream_recorded_as_received [OF stream demo_env_serde fresh_started [OF demo_start_fresh]]
  obtain p' ps' fl x where told: "relay_step demo_env (p, [Metering nd m None, Observing nd ?q None]) (p', ps')" "ps' ! 0 = Finished nd None"
    "px_ledger p' = Some fl" "read_all number_record (Some fl) = Inr [x]" "record_place x = place nd"
    "record_usage x = fst (spawn_meter (en_json demo_env) (Some OpenAiChat) [?chunk])" by fastforce
  have "u_output (fst (spawn_meter sample_json (Some OpenAiChat) [?chunk])) = 40" by code_simp
  moreover have "en_json demo_env = sample_json" by (simp add: demo_env_def)
  ultimately show ?thesis using stream told
    by (intro exI [of _ p] exI [of _ "[Metering nd m None, Observing nd ?q None]"] exI [of _ nd] exI [of _ p'] exI [of _ ps']
        exI [of _ fl] exI [of _ x] conjI) simp_all
qed

end
