(* ===== verification/Cli.thy ===== *)
theory Cli
  imports Proxy_Relay Ledger_Replay Ledger_Doctor Ledger_Stamp
begin

text \<open>
  The commands (\<open>crates/tailfin/src/main.rs\<close>): how the options of \<open>run\<close> configure a proxy, and what
  \<open>report\<close>, \<open>replay\<close>, \<open>stamp\<close>, \<open>blame\<close> and \<open>doctor\<close> print from the files they read. A file is its
  contents, \<open>None\<close> when it cannot be read; TOML is a parameter; an output that panics is \<open>None\<close>.
\<close>

section \<open>Options\<close>

datatype cli_error = CliIo | CliToml | CliText string | CliLedger ledger_error | CliCapture capture_error

definition parse_share :: "string \<Rightarrow> string + fp" where
  "parse_share s =
    (let t = trim (trim_end_matches [CHR ''%''] (trim s))
     in case parse_f64 t of
          None \<Rightarrow> Inl (''bad --subagent-share '' @ s)
        | Some v \<Rightarrow>
            if contains s ''%'' \<or> fp_lt (Fin 1) v then Inr (fp_clamp (f64_div v (Fin 100)) (Fin 0) (Fin 1))
            else Inr (fp_clamp v (Fin 0) (Fin 1)))"

record rate_file =
  rf_input :: u64
  rf_output :: u64
  rf_cache_write_5m :: "u64 option"
  rf_cache_write_1h :: "u64 option"
  rf_cache_read :: "u64 option"

definition load_rates :: "(string \<Rightarrow> rate_file option) \<Rightarrow> string option \<Rightarrow> cli_error + rate_card" where
  "load_rates toml content =
    (case content of
       None \<Rightarrow> Inl CliIo
     | Some raw \<Rightarrow>
         if \<not> utf8_valid raw then Inl CliIo
         else (case toml raw of
           None \<Rightarrow> Inl CliToml
         | Some f \<Rightarrow>
             let rc = rate_from_base (rf_input f) (rf_output f);
                 rc1 = (case rf_cache_write_5m f of Some v \<Rightarrow> rc\<lparr>r_cache_write_5m := v\<rparr> | None \<Rightarrow> rc);
                 rc2 = (case rf_cache_write_1h f of Some v \<Rightarrow> rc1\<lparr>r_cache_write_1h := v\<rparr> | None \<Rightarrow> rc1);
                 rc3 = (case rf_cache_read f of Some v \<Rightarrow> rc2\<lparr>r_cache_read := v\<rparr> | None \<Rightarrow> rc2)
             in Inr rc3))"

text \<open>The rates of a command: no flag, or a file that must load.\<close>

definition rates_flag :: "(string \<Rightarrow> rate_file option) \<Rightarrow> string option option \<Rightarrow> cli_error + rate_card option" where
  "rates_flag toml flag =
    (case flag of None \<Rightarrow> Inr None | Some content \<Rightarrow> map_sum id Some (load_rates toml content))"

section \<open>Run\<close>

definition fp_max :: "fp \<Rightarrow> fp \<Rightarrow> fp" where
  "fp_max a b = (if a = FNaN then b else if fp_lt a b then b else a)"

definition max_per_task_micros :: "fp \<Rightarrow> u64" where
  "max_per_task_micros amount = fp_as_u64 (fp_max (f64_mul amount (Fin 1000000)) (Fin 0))"

definition run_budget ::
  "(string \<Rightarrow> rate_file option) \<Rightarrow> fp option \<Rightarrow> string option option \<Rightarrow> string option \<Rightarrow> proxy \<Rightarrow> cli_error + proxy" where
  "run_budget toml max_per_task rates share p =
    (case max_per_task of
       None \<Rightarrow> Inr p
     | Some amount \<Rightarrow>
         (case rates of
            None \<Rightarrow> Inl (CliText ''--max-per-task requires --rates'')
          | Some content \<Rightarrow>
              (case load_rates toml content of
                 Inl e \<Rightarrow> Inl e
               | Inr rc \<Rightarrow>
                   (case share of
                      None \<Rightarrow> Inr (with_budget (max_per_task_micros amount) rc None p)
                    | Some s \<Rightarrow>
                        (case parse_share s of
                           Inl e \<Rightarrow> Inl (CliText e)
                         | Inr v \<Rightarrow> Inr (with_budget (max_per_task_micros amount) rc (Some v) p))))))"

definition run_capture ::
  "(string \<Rightarrow> capture_record option) \<Rightarrow> u64 \<Rightarrow> bool \<Rightarrow> string \<Rightarrow> (string \<times> string, string) hmap \<Rightarrow> proxy \<Rightarrow> proxy" where
  "run_capture from_str now capture retention files p =
    (if \<not> capture then p
     else
       let keep = (case parse_retention retention of Inr r \<Rightarrow> r | Inl _ \<Rightarrow> DEFAULT_RETENTION)
       in with_capture (fst (prune from_str now (capture_open files keep))) p)"

section \<open>The reading commands\<close>

definition report_cmd ::
  "(string \<Rightarrow> ledger_record option) \<Rightarrow> (string \<Rightarrow> rate_file option) \<Rightarrow> string option \<Rightarrow> string option option \<Rightarrow> bool \<Rightarrow>
    cli_error + string option" where
  "report_cmd from_str toml ledger rates share =
    (case read_all from_str ledger of
       Inl e \<Rightarrow> Inl (CliLedger e)
     | Inr rs \<Rightarrow> map_sum id (\<lambda>rc. render rs rc share) (rates_flag toml rates))"

definition stamp_cmd ::
  "(string \<Rightarrow> ledger_record option) \<Rightarrow> (string \<Rightarrow> rate_file option) \<Rightarrow> string option \<Rightarrow> string option option \<Rightarrow>
    cli_error + string" where
  "stamp_cmd from_str toml ledger rates =
    (case read_all from_str ledger of
       Inl e \<Rightarrow> Inl (CliLedger e)
     | Inr rs \<Rightarrow>
         (case rates_flag toml rates of
            Inl e \<Rightarrow> Inl e
          | Inr rc \<Rightarrow> map_sum CliText (\<lambda>line. line @ nl) (format_stamp rs rc)))"

definition blame_cmd ::
  "(string \<Rightarrow> ledger_record option) \<Rightarrow> (string \<Rightarrow> rate_file option) \<Rightarrow> string option \<Rightarrow> string option option \<Rightarrow>
    cli_error + string option" where
  "blame_cmd from_str toml ledger rates =
    (case read_all from_str ledger of
       Inl e \<Rightarrow> Inl (CliLedger e)
     | Inr rs \<Rightarrow> map_sum id (format_blame rs) (rates_flag toml rates))"

definition doctor_cmd :: "string option \<Rightarrow> cli_error + string" where
  "doctor_cmd content =
    (case content of
       None \<Rightarrow> Inl CliIo
     | Some raw \<Rightarrow> if utf8_valid raw then Inr (render_doctor (diagnose raw)) else Inl CliIo)"

definition models_flag :: "string \<Rightarrow> string list" where
  "models_flag s = filter (\<lambda>m. m \<noteq> []) (map trim (split_on (CHR '','') s))"

definition since_flag :: "u64 \<Rightarrow> string option \<Rightarrow> cli_error + u64 option" where
  "since_flag now since =
    (case since of
       None \<Rightarrow> Inr None
     | Some s \<Rightarrow>
         (case parse_retention s of
            Inl e \<Rightarrow> Inl (CliText e)
          | Inr d \<Rightarrow> Inr (Some (sat_sub now (of_nat (unat d * 1000))))))"

definition replay_cmd ::
  "(string \<Rightarrow> capture_record option) \<Rightarrow> u64 \<Rightarrow> (string \<times> string, string) hmap \<Rightarrow> nat \<Rightarrow> string \<Rightarrow> string option \<Rightarrow>
    cli_error + string" where
  "replay_cmd from_str now files sample models since =
    (case load_all from_str (capture_open files DEFAULT_RETENTION) of
       Inl e \<Rightarrow> Inl (CliCapture e)
     | Inr recs \<Rightarrow>
         (case since_flag now since of
            Inl e \<Rightarrow> Inl e
          | Inr since_ms \<Rightarrow>
              let opts = \<lparr>ro_sample = sample, ro_models = models_flag models, ro_since_ms = since_ms\<rparr>
              in Inr (render_table (replay recs opts (stub_submit stub_batch_default)))))"

section \<open>Shares and ceilings\<close>

text \<open>
  A subagent share given on the command line is never more than the whole: it is a fraction between
  0 and 1, unless it is written as not a number, which no comparison catches.
\<close>

lemma share_flag_bounded:
  assumes "parse_share s = Inr v"
  shows "v = FNaN \<or> (\<exists>q. v = Fin q \<and> 0 \<le> q \<and> q \<le> 1)"
proof -
  have "is_share v"
    using assms is_share_clamp by (auto simp: parse_share_def Let_def split: option.splits if_splits)
  then show ?thesis by (simp add: is_share_def)
qed

lemma share_flag_bounded_witness:
  "parse_share ''50%'' = Inr (Fin (1 / 2)) \<and> (0 :: rat) \<le> 1 / 2 \<and> parse_share ''nan'' = Inr FNaN"
proof -
  have "parse_share ''50%'' = Inr (Fin (1 / 2))" by code_simp
  moreover have "parse_share ''nan'' = Inr FNaN" by code_simp
  ultimately show ?thesis using share_flag_bounded [of "''50%''" "Fin (1 / 2)"] by simp
qed

text \<open>A ceiling of whole dollars is kept to the micro-dollar.\<close>

lemma fp_as_u64_nat: "k < 2 ^ 53 \<Longrightarrow> fp_as_u64 (Fin (of_nat k)) = of_nat k"
  using of_nat_lt_p53 [of k] by simp

lemma whole_dollars_exact:
  assumes "n * 1000000 < 2 ^ 53"
  shows "max_per_task_micros (Fin (of_nat n)) = of_nat (n * 1000000)"
proof -
  have m: "f64_mul (Fin (of_nat n)) (Fin 1000000) = Fin (of_nat (n * 1000000))"
    using f64_round_nat [OF assms] by simp
  have "fp_max (Fin (of_nat (n * 1000000))) (Fin 0) = Fin (of_nat (n * 1000000))"
    by (simp add: fp_max_def)
  then show ?thesis
    unfolding max_per_task_micros_def m using fp_as_u64_nat [OF assms] by metis
qed

end
