(* ===== verification/Proxy_Budget.thy ===== *)
theory Proxy_Budget
  imports Proxy_Progress
begin

text \<open>
  The budget of \<open>tailfin run --max-per-task\<close> through the whole relay: what a task can cost over every
  interleaving of the handlers, their stops and their metering tasks, as long as its requests are HTTP.
\<close>

section \<open>Requests that may still cost\<close>

fun paying :: "string \<Rightarrow> ('h, 'u) phase \<Rightarrow> nat" where
  "paying r (Forwarding nd q cid) = (if nr_root nd = r then 1 else 0)"
| "paying r (Metering nd m cid) = (if nr_root nd = r then 1 else 0)"
| "paying r _ = 0"

definition in_flight :: "string \<Rightarrow> ('h, 'u) phase list \<Rightarrow> nat" where
  "in_flight r ps = (\<Sum>ph\<leftarrow>ps. paying r ph)"

lemma in_flight_simps [simp]:
  "in_flight r [] = 0" "in_flight r (ps @ qs) = in_flight r ps + in_flight r qs" "in_flight r (ph # ps) = paying r ph + in_flight r ps"
  by (simp_all add: in_flight_def)

lemma in_flight_update:
  "i < length ps \<Longrightarrow> in_flight r (ps[i := ph]) + paying r (ps ! i) = in_flight r ps + paying r ph"
  unfolding in_flight_def by (rule sum_list_replaced)

fun over_http :: "('h, 'u) phase \<Rightarrow> bool" where
  "over_http (WsResolved nd q) = False"
| "over_http (WsOpening nd q) = False"
| "over_http (WsUpgrading nd d) = False"
| "over_http (WsRelaying nd s) = False"
| "over_http _ = True"

text \<open>
  Runs over HTTP in which task \<open>r\<close> has at most \<open>w\<close> requests in flight and no step raises its metered
  spend by more than \<open>c\<close>.
\<close>

inductive paced_run ::
  "('v, 'h, 'u) relay_env \<Rightarrow> proxy \<Rightarrow> string \<Rightarrow> rate_card \<Rightarrow> nat \<Rightarrow> nat \<Rightarrow> proxy \<Rightarrow> ('h, 'u) phase list \<Rightarrow> bool"
  for E p0 r rates c w where
  start: "paced_run E p0 r rates c w p0 []"
| step: "paced_run E p0 r rates c w p ps \<Longrightarrow> relay_step E (p, ps) (p', ps') \<Longrightarrow>
    list_all over_http ps' \<Longrightarrow> in_flight r ps' \<le> w \<Longrightarrow>
    unat (spent (arena_task (px_arena p') r) rates) \<le> unat (spent (arena_task (px_arena p) r) rates) + c \<Longrightarrow>
    paced_run E p0 r rates c w p' ps'"

section \<open>The invariant\<close>

definition within_budget :: "string \<Rightarrow> rate_card \<Rightarrow> u64 \<Rightarrow> nat \<Rightarrow> nat \<Rightarrow> proxy \<Rightarrow> ('h, 'u) phase list \<Rightarrow> bool" where
  "within_budget r rates cap c w p ps \<longleftrightarrow> px_rates p = Some rates \<and> capped cap (arena_task (px_arena p) r) \<and>
    node_gate.in_budget rates cap c w (arena_task (px_arena p) r) (in_flight r ps)"

lemma in_budget_fewer:
  "node_gate.in_budget rates cap c w t f \<Longrightarrow> f' \<le> f \<Longrightarrow> node_gate.in_budget rates cap c w t f'"
proof -
  assume a: "node_gate.in_budget rates cap c w t f" "f' \<le> f"
  from a(2) have "unat (spent t rates) + f' * c \<le> unat (spent t rates) + f * c" by simp
  with a(1) show ?thesis unfolding node_gate.in_budget_def by (rule order_trans [rotated])
qed

text \<open>A step that leaves the task alone, and one whose events spend nothing.\<close>

lemma within_budget_idle:
  assumes "within_budget r rates cap c w p ps" "px_rates p' = px_rates p"
    and "capped cap (arena_task (px_arena p') r)"
    and "spent (arena_task (px_arena p') r) rates = spent (arena_task (px_arena p) r) rates"
    and "t_sealed (arena_task (px_arena p') r) = t_sealed (arena_task (px_arena p) r)"
    and "in_flight r ps' \<le> in_flight r ps"
  shows "within_budget r rates cap c w p' ps'"
proof -
  have "node_gate.in_budget rates cap c w (arena_task (px_arena p') r) (in_flight r ps)"
    using assms(1,4,5) by (rule_tac node_gate.in_budget_idle) (auto simp: within_budget_def)
  then show ?thesis using assms in_budget_fewer by (auto simp: within_budget_def)
qed

lemma within_budget_same:
  assumes "within_budget r rates cap c w p ps" "px_rates p' = px_rates p" "px_arena p' = px_arena p"
    and "in_flight r ps' \<le> in_flight r ps"
  shows "within_budget r rates cap c w p' ps'"
  using assms by (intro within_budget_idle [OF assms(1,2)]) (auto simp: within_budget_def)

lemma relay_admit_task:
  assumes "relay_admit nd p = (p', ad)" "px_rates p = Some rates"
  shows "px_rates p' = Some rates" and
    "r \<noteq> nr_root nd \<Longrightarrow> arena_task (px_arena p') r = arena_task (px_arena p) r" and
    "admit_at nd rates (begin_request nd None (arena_task (px_arena p) (nr_root nd))) =
      (arena_task (px_arena p') (nr_root nd), ad)"
proof -
  have p': "px_arena p' = fst (task_mut (nr_root nd) (admit_at nd rates) (px_arena (relay_begin nd p)))"
    "ad = snd (task_mut (nr_root nd) (admit_at nd rates) (px_arena (relay_begin nd p)))"
    "px_rates p' = px_rates p"
    using assms by (auto simp: relay_admit_def relay_begin_def Let_def split: prod.splits)
  show "px_rates p' = Some rates" using p'(3) assms(2) by simp
  show "arena_task (px_arena p') r = arena_task (px_arena p) r" if "r \<noteq> nr_root nd"
    using that by (simp add: p'(1) relay_begin_def arena_task_mut)
  have "ad = snd (admit_at nd rates (arena_task (px_arena (relay_begin nd p)) (nr_root nd)))"
    using p'(2) by (simp add: task_mut_snd)
  then show "admit_at nd rates (begin_request nd None (arena_task (px_arena p) (nr_root nd))) =
      (arena_task (px_arena p') (nr_root nd), ad)"
    by (simp add: p'(1) relay_begin_def arena_task_mut)
qed

lemma within_budget_begin:
  assumes "node_gate.in_budget rates cap c w t f" "capped cap t"
  shows "node_gate.in_budget rates cap c w (begin_request nd None t) f"
  using assms by (rule_tac node_gate.in_budget_idle) (auto simp: task_simps begin_request_spent capped_def)

lemma within_budget_admit:
  assumes inv: "within_budget r rates cap c w p ps" and adm: "relay_admit nd p = (p', ad)"
    and flight: "in_flight r ps' = (if nr_root nd = r \<and> admitted ad then in_flight r ps + 1 else in_flight r ps)"
    and "in_flight r ps' \<le> w"
  shows "within_budget r rates cap c w p' ps'"
proof (cases "nr_root nd = r")
  case False
  have "px_rates p = Some rates" using inv by (simp add: within_budget_def)
  from relay_admit_task [OF adm this] show ?thesis
    using inv False flight by (auto simp: within_budget_def)
next
  case True
  let ?t = "arena_task (px_arena p) r"
  have i: "px_rates p = Some rates" "capped cap ?t" "node_gate.in_budget rates cap c w ?t (in_flight r ps)"
    using inv by (simp_all add: within_budget_def)
  note b = within_budget_begin [OF i(3,2), of nd]
  note cap = begin_request_capped [OF i(2), of nd None]
  have t': "arena_task (px_arena p') r = fst (admit_at nd rates (begin_request nd None ?t))"
    "ad = snd (admit_at nd rates (begin_request nd None ?t))"
    using relay_admit_task(3) [OF adm i(1)] True by auto
  have "node_gate.in_budget rates cap c w (arena_task (px_arena p') r) (in_flight r ps')"
  proof (cases "admitted ad")
    case True
    then have "in_flight r ps < w" using flight \<open>nr_root nd = r\<close> assms(4) by simp
    from node_gate.in_budget_ask [OF cap b this, where r = nd] show ?thesis
      using True flight \<open>nr_root nd = r\<close> t' by simp
  next
    case False
    then show ?thesis
      using node_gate.in_budget_refused [OF cap b, where r = nd] flight t' by simp
  qed
  then show ?thesis
    using relay_admit_task(1) [OF adm i(1)] admit_at_capped [OF cap, of nd rates] t'
    by (simp add: within_budget_def)
qed

lemma within_budget_finish:
  assumes inv: "within_budget r rates cap c w p ps" and p': "p' = finish_locked to_str now nd u done_ok cid p"
    and flight: "in_flight r ps' + (if nr_root nd = r then 1 else 0) = in_flight r ps"
    and cost: "unat (spent (arena_task (px_arena p') r) rates) \<le> unat (spent (arena_task (px_arena p) r) rates) + c"
  shows "within_budget r rates cap c w p' ps'"
proof (cases "nr_root nd = r")
  case False
  then show ?thesis
    using inv flight finish_locked_moved [of nd u done_ok p to_str now cid]
    by (auto simp: within_budget_def moved_def p')
next
  case True
  let ?t = "arena_task (px_arena p) r"
  have t': "arena_task (px_arena p') r = finish_request nd u done_ok ?t" "px_rates p' = px_rates p"
    using finish_locked_moved [of nd u done_ok p to_str now cid] True by (auto simp: moved_def p')
  have "node_gate.in_budget rates cap c w ?t (in_flight r ps' + 1)"
    using inv flight True by (simp add: within_budget_def)
  then have "node_gate.in_budget rates cap c w (arena_task (px_arena p') r) (in_flight r ps')"
    by (rule node_gate.in_budget_settle) (use cost t' in \<open>simp_all add: task_simps\<close>)
  then show ?thesis using inv t' by (simp add: within_budget_def finish_request_capped)
qed

lemma within_budget_stopped:
  assumes inv: "within_budget r rates cap c w p ps" and "in_flight r ps' \<le> in_flight r ps"
  shows "within_budget r rates cap c w (finish_node to_str now nd done_ok cid p) ps'"
proof (rule within_budget_idle [OF inv])
  let ?p' = "finish_node to_str now nd done_ok cid p" and ?t = "arena_task (px_arena p) r"
  have m: "moved (nr_root nd) [Ended nd usage_default done_ok] p ?p'"
    unfolding finish_node_def by (rule finish_locked_moved)
  then have t': "arena_task (px_arena ?p') r = (if r = nr_root nd then finish_request nd usage_default done_ok ?t else ?t)"
    by (simp add: moved_def)
  have cap: "capped cap ?t" using inv by (simp add: within_budget_def)
  then have wf: "task_wf ?t" by (simp add: capped_def)
  show "px_rates ?p' = px_rates p" using m by (simp add: moved_def)
  show "capped cap (arena_task (px_arena ?p') r)" unfolding t' using finish_request_capped [OF cap] cap by auto
  show "spent (arena_task (px_arena ?p') r) rates = spent ?t rates" unfolding t' using finish_nothing_spent [OF wf] by auto
  show "t_sealed (arena_task (px_arena ?p') r) = t_sealed ?t" by (simp add: t' task_simps)
qed (rule assms(2))

lemma within_budget_stop:
  assumes inv: "within_budget r rates cap c w p ps" and stop: "relay_stop nd p = (p', style)"
    and "in_flight r ps' \<le> in_flight r ps"
  shows "within_budget r rates cap c w p' ps'"
proof (rule within_budget_idle [OF inv])
  let ?t = "arena_task (px_arena p) r"
  have m: "moved (nr_root nd) [Stopped] p p'" using relay_stop_moved [OF stop] by blast
  then have t': "arena_task (px_arena p') r = (if r = nr_root nd then fst (take_stop ?t) else ?t)"
    by (simp add: moved_def)
  have cap: "capped cap ?t" using inv by (simp add: within_budget_def)
  show "px_rates p' = px_rates p" using m by (simp add: moved_def)
  show "capped cap (arena_task (px_arena p') r)" unfolding t' using take_stop_capped [OF cap] cap by auto
  show "spent (arena_task (px_arena p') r) rates = spent ?t rates"
    using spent_cong [OF take_stop_simps(1)] by (simp add: t')
  show "t_sealed (arena_task (px_arena p') r) = t_sealed ?t" by (simp add: t' task_simps)
qed (rule assms(3))

section \<open>The ceiling of a run\<close>

lemma within_budget_step:
  assumes "relay_step E (p, ps) (p', ps')" and inv: "within_budget r rates cap c w p ps"
    and "list_all over_http ps" "in_flight r ps' \<le> w"
    and "unat (spent (arena_task (px_arena p') r) rates) \<le> unat (spent (arena_task (px_arena p) r) rates) + c"
  shows "within_budget r rates cap c w p' ps'"
  using assms(1)
proof (cases rule: relay_step.cases)
  case (deny i nd q cid a b)
  show ?thesis
    by (rule within_budget_admit [OF inv deny(4) _ assms(4)])
      (use deny in_flight_update [OF deny(2), of r "Denied nd q"] in \<open>auto simp: admitted_def\<close>)
next
  case (forward i nd q cid ad)
  show ?thesis
    by (rule within_budget_admit [OF inv forward(4) _ assms(4)])
      (use forward in_flight_update [OF forward(2), of r "Forwarding nd q cid"] in auto)
next
  case (stop i nd q style)
  show ?thesis
    by (rule within_budget_stop [OF inv stop(4)]) (use stop in_flight_update [OF stop(2), of r "Stopping nd q style"] in auto)
next
  case (stopped i nd q style now)
  show ?thesis
    unfolding stopped(1)
    by (rule within_budget_stopped [OF inv]) (use stopped in_flight_update [OF stopped(3)] in auto)
next
  case (received i nd m cid chunk)
  then show ?thesis
    using in_flight_update [OF received(3), of r "Metering nd (metering_chunk (en_json E) chunk m) cid"]
    by (auto intro!: within_budget_same [OF inv])
next
  case (metered i nd m cid u done_ok now)
  show ?thesis
    by (rule within_budget_finish [OF inv metered(1) _ assms(5)])
      (use metered in_flight_update [OF metered(3), of r "Finished nd None"] in auto)
next
  case (unreachable i nd q cid sent now)
  show ?thesis
    unfolding unreachable(1)
    by (rule within_budget_stopped [OF inv]) (use unreachable in_flight_update [OF unreachable(3), of r "Finished nd (Some gateway_error)"] in auto)
next
  case (arrive q nd millis)
  then show ?thesis using resolve_frame [OF arrive(4)] by (auto intro!: within_budget_same [OF inv])
next
  case (hello q)
  then show ?thesis by (auto intro!: within_budget_same [OF inv])
next
  case (unread q)
  then show ?thesis by (auto intro!: within_budget_same [OF inv])
next
  case (ws_arrive q ident nd)
  then show ?thesis by (auto intro!: within_budget_same [OF inv])
next
  case (observe i nd q cid now)
  then show ?thesis
    using in_flight_update [OF observe(3), of r Done] by (auto intro!: within_budget_same [OF inv])
next
  case (give_up i nd q cid)
  then show ?thesis
    using in_flight_update [OF give_up(3), of r "Leaked nd (Some gateway_error)"] by (auto intro!: within_budget_same [OF inv])
next
  case (dropped i nd q cid sent)
  then show ?thesis
    using in_flight_update [OF dropped(3), of r "Leaked nd None"] by (auto intro!: within_budget_same [OF inv])
next
  case (answered i nd q cid sent)
  then show ?thesis
    using in_flight_update [OF answered(3), of r "Metering nd (metering_new (Some (relay_dialect (request_path E q)))) cid"]
    by (auto intro!: within_budget_same [OF inv])
next
  case (ws_handler i ph)
  then have "\<not> over_http (ps ! i)" by (auto elim: relay_ws_stepE)
  then show ?thesis using ws_handler(2) assms(3) by (simp add: list_all_length)
next
  case (ws_task i ph)
  then have "\<not> over_http (ps ! i)" by (auto elim: ws_task_stepE)
  then show ?thesis using ws_task(2) assms(3) by (simp add: list_all_length)
qed

lemma paced_run_http: "paced_run E p0 r rates c w p ps \<Longrightarrow> list_all over_http ps"
  by (induction rule: paced_run.induct) auto

text \<open>A proxy with a budget that has seen no request.\<close>

definition budgeted_proxy :: "u64 \<Rightarrow> rate_card \<Rightarrow> proxy \<Rightarrow> bool" where
  "budgeted_proxy cap rates p \<longleftrightarrow> px_rates p = Some rates \<and>
    ar_default_ceiling (px_arena p) = Some cap \<and> ar_tasks (px_arena p) = []"

lemma within_budget_start:
  assumes "budgeted_proxy cap rates p"
  shows "within_budget r rates cap c w p []"
proof -
  let ?t = "arena_task (px_arena p) r"
  obtain share where "?t = new_task (Some cap) share r"
    using assms by (auto simp: budgeted_proxy_def arena_task_def arena_get_def hm_get_def)
  then have "budget_run rates cap c w ?t 0" by (simp add: budget_run.start)
  from budget_run_capped [OF this] budget_run_in_budget [OF this] show ?thesis
    using assms by (simp add: within_budget_def budgeted_proxy_def)
qed

text \<open>
  End to end the ceiling holds up to the requests in flight: from a start with a budget, in every
  interleaving of the handlers of HTTP requests, their stops, failures and metering tasks, in which at most
  \<open>w\<close> requests of a task are in flight and no finish adds more than \<open>c\<close> micro-dollars, the metered spend of
  the task never exceeds its ceiling by more than \<open>w + 1\<close> requests.
\<close>

lemma relay_spend_bounded:
  assumes "paced_run E p0 r rates c w p ps" "budgeted_proxy cap rates p0"
  shows "unat (spent (arena_task (px_arena p) r) rates) \<le> unat cap - 1 + (w + 1) * c"
proof -
  have "within_budget r rates cap c w p ps"
    using assms(1)
  proof (induction rule: paced_run.induct)
    case start
    show ?case by (rule within_budget_start [OF assms(2)])
  next
    case (step p ps p' ps')
    show ?case
      by (rule within_budget_step [OF step.hyps(2) step.IH paced_run_http [OF step.hyps(1)] step.hyps(4,5)])
  qed
  then show ?thesis unfolding within_budget_def using node_gate.in_budget_bound by blast
qed

text \<open>One chat request of 60 micro-dollars in the declared session \<open>r\<close>, under a ceiling of 100.\<close>

definition sixty_json :: "nat serde_json" where
  "sixty_json = sample_json\<lparr>
    js_get := \<lambda>v k. if v = 0 \<and> k = ''usage'' then Some 1 else if v = 1 \<and> k = ''prompt_tokens'' then Some 60 else None,
    js_pointer := \<lambda>v k. None\<rparr>"

definition sixty_env :: "(nat, (string \<times> string) list, string) relay_env" where
  "sixty_env = demo_env\<lparr>en_json := sixty_json\<rparr>"

definition sixty_request :: "((string \<times> string) list, string) request" where
  "sixty_request = (demo_request ''/v1/chat/completions'')\<lparr>rq_headers := [(''x-claude-code-session-id'', ''r'')]\<rparr>"

definition sixty_start :: proxy where
  "sixty_start = with_budget 100 (rate_from_base 1000000 0) None (with_ledger [] proxy_new)"

lemma sixty_metered:
  "spawn_meter sixty_json (Some OpenAiChat) [''data: {usage}'' @ [newline, newline]] = (sixty, True)"
  by code_simp

lemma sixty_path: "request_path sixty_env sixty_request = ''/v1/chat/completions''"
  "relay_dialect ''/v1/chat/completions'' = OpenAiChat"
  by (simp_all add: request_path_def sixty_env_def demo_env_def text_uri_def sixty_request_def demo_request_def)
    code_simp

lemma sixty_resolved:
  "relay_resolve (en_json sixty_env) (en_headers sixty_env) (rq_headers sixty_request) (rq_body sixty_request) sixty_start =
    (sixty_start, seq_ref)"
proof -
  have "header_view list_headers [(''x-claude-code-session-id'', ''r'')] ''x-claude-code-session-id'' = Some ''r''"
    "header_view list_headers [(''x-claude-code-session-id'', ''r'')] ''x-claude-code-agent-id'' = None"
    "header_view list_headers [(''x-claude-code-session-id'', ''r'')] ''x-claude-code-parent-agent-id'' = None"
    by code_simp+
  then show ?thesis
    by (simp add: relay_resolve_def resolve_def from_headers_def seq_ref_def sixty_env_def demo_env_def
        sixty_request_def sixty_start_def with_budget_def Let_def)
qed

lemma sixty_task: "arena_task (px_arena sixty_start) ''r'' = solo 0 0 0 False"
  by (simp add: sixty_start_def with_budget_def with_default_ceiling_micros_def arena_task_def arena_get_def
      arena_new_def hm_get_def solo_new)

lemma seq_root: "nr_root seq_ref = ''r''"
  by (simp add: seq_ref_def declared_ref_def)

lemma sixty_admitted:
  assumes "relay_admit seq_ref sixty_start = (p, ad)"
  shows "ad = Allow \<and> arena_task (px_arena p) ''r'' = (solo 0 0 1 False)\<lparr>t_live := 1\<rparr>"
proof -
  have "px_rates sixty_start = Some (rate_from_base 1000000 0)" by (simp add: sixty_start_def with_budget_def)
  from relay_admit_task(3) [OF assms this] show ?thesis
    using solo_admit [OF solo_micros, of 0] by (simp add: seq_root sixty_task solo_begin)
qed

lemma sixty_spent:
  "spent (solo 0 0 0 False) (rate_from_base 1000000 0) = 0"
  "spent ((solo 0 0 1 False)\<lparr>t_live := 1\<rparr>) (rate_from_base 1000000 0) = 0"
  "spent (solo 60 1 1 False) (rate_from_base 1000000 0) = 60"
  by (simp_all add: solo_spent)

abbreviation sixty_paced :: "proxy \<Rightarrow> ((string \<times> string) list, string) phase list \<Rightarrow> bool" where
  "sixty_paced \<equiv> paced_run sixty_env sixty_start ''r'' (rate_from_base 1000000 0) 60 1"

lemma sixty_run:
  "\<exists>p. sixty_paced p [Finished seq_ref None, Observing seq_ref sixty_request None] \<and>
    arena_task (px_arena p) ''r'' = solo 60 1 1 False"
proof -
  let ?q = sixty_request and ?d = "Some (relay_dialect (request_path sixty_env sixty_request))"
  let ?obs = "Observing seq_ref ?q None"
  have "\<not> is_ws sixty_env ?q"
    by (simp add: is_ws_def is_websocket_upgrade_def sixty_request_def demo_request_def)
  with sixty_path(1) have "relay_step sixty_env (sixty_start, []) (sixty_start, [] @ [Resolved seq_ref ?q (new_capture_id 0 seq_ref sixty_start)])"
    by (intro relay_step.arrive [OF _ _ sixty_resolved]) auto
  then have "relay_step sixty_env (sixty_start, []) (sixty_start, [Resolved seq_ref ?q None])"
    by (simp add: new_capture_id_def sixty_start_def with_budget_def with_ledger_def proxy_new_def)
  from paced_run.step [OF paced_run.start this] have
    r1: "sixty_paced sixty_start [Resolved seq_ref ?q None]" by simp
  obtain p ad where adm: "relay_admit seq_ref sixty_start = (p, ad)" by fastforce
  note t = sixty_admitted [OF adm]
  have "relay_step sixty_env (sixty_start, [Resolved seq_ref ?q None])
      (p, [Resolved seq_ref ?q None][0 := Forwarding seq_ref ?q None] @ [?obs])"
    by (rule relay_step.forward [OF _ _ adm]) (use t in \<open>simp_all add: admitted_def\<close>)
  then have "relay_step sixty_env (sixty_start, [Resolved seq_ref ?q None]) (p, [Forwarding seq_ref ?q None, ?obs])" by simp
  from paced_run.step [OF r1 this] have
    r2: "sixty_paced p [Forwarding seq_ref ?q None, ?obs]"
    using t by (simp add: seq_root sixty_spent sixty_task)
  obtain sent where sent: "upstream_request (en_headers sixty_env) (en_uri sixty_env) (en_upstream sixty_env) (rq_uri ?q)
      (rq_headers ?q) = Some sent"
    by (simp add: upstream_request_def rewrite_uri_def rewritten_path_def sixty_env_def demo_env_def text_uri_def
        sixty_request_def demo_request_def list_headers_def)
  from relay_step.answered [OF _ _ this, of 0 "[Forwarding seq_ref ?q None, ?obs]" seq_ref None p]
  have "relay_step sixty_env (p, [Forwarding seq_ref ?q None, ?obs]) (p, [Metering seq_ref (metering_new ?d) None, ?obs])" by simp
  from paced_run.step [OF r2 this] have
    r3: "sixty_paced p [Metering seq_ref (metering_new ?d) None, ?obs]"
    by (simp add: seq_root)
  let ?chunk = "''data: {usage}'' @ [newline, newline]"
  let ?m = "metering_chunk (en_json sixty_env) ?chunk (metering_new ?d)"
  have "relay_step sixty_env (p, [Metering seq_ref (metering_new ?d) None, ?obs])
      (p, [Metering seq_ref (metering_new ?d) None, ?obs][0 := Metering seq_ref ?m None])"
    by (intro relay_step.received) auto
  then have "relay_step sixty_env (p, [Metering seq_ref (metering_new ?d) None, ?obs]) (p, [Metering seq_ref ?m None, ?obs])"
    by simp
  from paced_run.step [OF r3 this] have r4: "sixty_paced p [Metering seq_ref ?m None, ?obs]"
    by (simp add: seq_root)
  let ?p = "finish_locked (en_record_str sixty_env) 0 seq_ref sixty True None p"
  have t3: "arena_task (px_arena ?p) ''r'' = solo 60 1 1 False"
    using finish_locked_moved [of seq_ref sixty True p "en_record_str sixty_env" 0 None] t solo_finish [of 0 0 1 False]
    by (simp add: moved_def seq_root)
  have "spawn_meter (en_json sixty_env) ?d [?chunk] = (sixty, True)"
    using sixty_metered sixty_path by (simp add: sixty_env_def)
  then have "metering_end (en_json sixty_env) ?m = (sixty, True)" by (simp flip: metering_loop)
  then have "relay_step sixty_env (p, [Metering seq_ref ?m None, ?obs]) (?p, [Metering seq_ref ?m None, ?obs][0 := Finished seq_ref None])"
    by (intro relay_step.metered) auto
  then have "relay_step sixty_env (p, [Metering seq_ref ?m None, ?obs]) (?p, [Finished seq_ref None, ?obs])" by simp
  from paced_run.step [OF r4 this] have "sixty_paced ?p [Finished seq_ref None, ?obs]"
    using t t3 by (simp add: sixty_spent)
  then show ?thesis using t3 by blast
qed

lemma relay_spend_bounded_witness:
  "\<exists>p. sixty_paced p [Finished seq_ref None, Observing seq_ref sixty_request None] \<and> arena_task (px_arena p) ''r'' = solo 60 1 1 False \<and>
    unat (spent (arena_task (px_arena p) ''r'') (rate_from_base 1000000 0)) \<le> unat (100 :: u64) - 1 + (1 + 1) * 60"
proof -
  have "budgeted_proxy 100 (rate_from_base 1000000 0) sixty_start"
    by (simp add: budgeted_proxy_def sixty_start_def with_budget_def with_default_ceiling_micros_def arena_new_def)
  note bound = relay_spend_bounded [OF _ this]
  obtain p where p: "sixty_paced p [Finished seq_ref None, Observing seq_ref sixty_request None]"
    "arena_task (px_arena p) ''r'' = solo 60 1 1 False" using sixty_run by blast
  show ?thesis using bound [OF p(1)] p by blast
qed

end
