(* ===== verification/Proxy_Answers.thy ===== *)
theory Proxy_Answers
  imports Proxy_Budget
begin

text \<open>
  What the relay answers on its own and what it keeps of its state, over all interleavings: one synthetic
  end of turn per task, no answer other than the stops, the 502 and the hello, and a well-formed state.
\<close>

section \<open>Answers the proxy makes up\<close>

definition synthetic :: "http_response \<Rightarrow> bool" where
  "synthetic a \<longleftrightarrow> (''x-tailfin-stop'', ''synthetic-end-turn'') \<in> set (rs_headers a)"

text \<open>A stop the client can read: a whole turn, or a 429 that is not to be retried.\<close>

definition stop_answer :: "http_response \<Rightarrow> bool" where
  "stop_answer a \<longleftrightarrow>
    (rs_status a = 200 \<and> synthetic a) \<or>
    (rs_status a = 429 \<and> \<not> synthetic a \<and> (''x-should-retry'', ''false'') \<in> set (rs_headers a))"

text \<open>
  The answer of its own that the proxy has given a request, whether the request was never begun, was
  finished, or left its handler by an early return; and those given to requests of one task.
\<close>

fun made_up :: "('h, 'u) phase \<Rightarrow> http_response option" where
  "made_up (Replied a) = Some a"
| "made_up (Finished nd a) = a"
| "made_up (Leaked nd a) = a"
| "made_up _ = None"

fun answer_in :: "string \<Rightarrow> ('h, 'u) phase \<Rightarrow> http_response option" where
  "answer_in r (Finished nd a) = (if nr_root nd = r then a else None)"
| "answer_in r (Leaked nd a) = (if nr_root nd = r then a else None)"
| "answer_in r _ = None"

fun answer_ok :: "('h, 'u) phase \<Rightarrow> bool" where
  "answer_ok (Stopping nd q style) \<longleftrightarrow> style \<noteq> PaymentRequired402"
| "answer_ok (Replied a) \<longleftrightarrow> a = hello_ok \<or> a = gateway_error"
| "answer_ok (Finished nd (Some a)) \<longleftrightarrow> stop_answer a \<or> a = gateway_error"
| "answer_ok (Leaked nd (Some a)) \<longleftrightarrow> a = gateway_error"
| "answer_ok _ \<longleftrightarrow> True"

lemma answer_ok_made_up: "answer_ok ph \<Longrightarrow> made_up ph = Some a \<Longrightarrow> a = hello_ok \<or> a = gateway_error \<or> stop_answer a"
  by (cases ph rule: answer_ok.cases) auto

lemma stop_response_answer:
  "style \<noteq> PaymentRequired402 \<Longrightarrow> stop_answer (stop_response H to_json style h)"
  by (cases style) (simp_all add: stop_answer_def synthetic_def stop_response_def Let_def)

lemma synthetic_stop: "synthetic (stop_response H to_json style h) \<longleftrightarrow> style = SyntheticEndTurn"
  by (cases style) (auto simp: synthetic_def stop_response_def Let_def)

lemma synthetic_gateway: "\<not> synthetic gateway_error"
  by (simp add: synthetic_def gateway_error_def)

lemma relay_stop_style: "relay_stop nd p = (p', style) \<Longrightarrow> style =
    (if t_synthetic_sent (arena_task (px_arena p) (nr_root nd)) then RetryableFalse429 else SyntheticEndTurn)"
  by (auto simp: relay_stop_def Let_def take_stop_def task_mut_snd split: prod.splits
      dest!: arg_cong [where f = snd])

lemma list_all_update: "list_all P ps \<Longrightarrow> P x \<Longrightarrow> list_all P (ps[i := x])"
  by (auto simp: list_all_iff dest: set_update_subset_insert [THEN subsetD])

lemma ws_answers:
  "relay_ws_step E (p, ph) (p', ph') \<Longrightarrow> answer_ok ph'"
  "ws_task_step E (p, ph) (p', ph') \<Longrightarrow> answer_ok ph'"
  by (auto elim!: relay_ws_stepE ws_task_stepE)

lemma step_answers:
  "relay_step E s s' \<Longrightarrow> list_all answer_ok (snd s) \<Longrightarrow> list_all answer_ok (snd s')"
proof (induction rule: relay_step.induct)
  case (stop i ps nd q p p' style)
  then show ?case using relay_stop_style [OF stop(3)] by (auto intro!: list_all_update)
next
  case (stopped i ps nd q style p now)
  have "answer_ok (ps ! i)" using stopped(1,3) by (simp add: list_all_length)
  then have "style \<noteq> PaymentRequired402" by (simp add: stopped(2))
  then show ?case using stopped(3) by (auto intro!: list_all_update simp: stop_response_answer)
qed (auto intro!: list_all_update dest: ws_answers)

section \<open>One synthetic turn per task\<close>

fun ending :: "string \<Rightarrow> ('h, 'u) phase \<Rightarrow> nat" where
  "ending r (Stopping nd q style) = (if nr_root nd = r \<and> style = SyntheticEndTurn then 1 else 0)"
| "ending r (Finished nd (Some a)) = (if nr_root nd = r \<and> synthetic a then 1 else 0)"
| "ending r _ = 0"

definition endings :: "string \<Rightarrow> ('h, 'u) phase list \<Rightarrow> nat" where
  "endings r ps = (\<Sum>ph\<leftarrow>ps. ending r ph)"

lemma endings_simps [simp]:
  "endings r [] = 0" "endings r (ps @ qs) = endings r ps + endings r qs" "endings r (ph # ps) = ending r ph + endings r ps"
  by (simp_all add: endings_def)

lemma endings_update:
  "i < length ps \<Longrightarrow> endings r (ps[i := ph]) + ending r (ps ! i) = endings r ps + ending r ph"
  unfolding endings_def by (rule sum_list_replaced)

definition turn_sent :: "string \<Rightarrow> proxy \<Rightarrow> nat" where
  "turn_sent r p = (if t_synthetic_sent (arena_task (px_arena p) r) then 1 else 0)"

lemma turn_sent_cong: "px_arena p' = px_arena p \<Longrightarrow> turn_sent r p' = turn_sent r p"
  by (simp add: turn_sent_def)

lemma turn_sent_moved:
  assumes "moved r0 evs p p'" "Stopped \<notin> set evs"
  shows "turn_sent r p' = turn_sent r p"
proof -
  have "t_synthetic_sent (task_run rates evs t) = t_synthetic_sent t" for rates t
    using assms(2)
  proof (induction evs arbitrary: t)
    case (Cons e evs)
    then show ?case by (cases e) (simp_all add: task_simps)
  qed simp
  then show ?thesis using assms(1) by (simp add: turn_sent_def moved_def)
qed

lemma turn_sent_stop:
  assumes "relay_stop nd p = (p', style)"
  shows "turn_sent r p' = (if r = nr_root nd then 1 else turn_sent r p)"
  using relay_stop_moved [OF assms] by (auto simp: turn_sent_def moved_def take_stop_def)

lemma turn_sent_simps [simp]:
  "turn_sent r (relay_begin nd p) = turn_sent r p"
  "turn_sent r (finish_locked to_str now nd u done_ok cid p) = turn_sent r p"
  "turn_sent r (finish_node to_str now nd done_ok cid p) = turn_sent r p"
  "turn_sent r (observe_request J H to_str' now buf nd h meth path cid p) = turn_sent r p"
  "turn_sent r (p\<lparr>px_ident := ident\<rparr>) = turn_sent r p"
  unfolding finish_node_def
  by (rule turn_sent_moved [OF relay_begin_moved] turn_sent_moved [OF finish_locked_moved] turn_sent_cong; simp)+

lemma turn_sent_admit: "relay_admit nd p = (p', ad) \<Longrightarrow> turn_sent r p' = turn_sent r p"
  using relay_admit_moved [of nd p p' ad] turn_sent_moved [of "nr_root nd" _ p p' r] by auto

lemma endings_same:
  assumes "endings r ps \<le> k" "i < length ps" "ending r ph = ending r (ps ! i)"
  shows "endings r (ps[i := ph]) \<le> k"
  using assms endings_update [OF assms(2), of r ph] by simp

lemma ws_endings:
  "relay_ws_step E (p, ph) (p', ph') \<Longrightarrow> ending r ph' = 0 \<and> ending r ph = 0 \<and> turn_sent r p' = turn_sent r p"
  "ws_task_step E (p, ph) (p', ph') \<Longrightarrow> ending r ph' = 0 \<and> ending r ph = 0 \<and> turn_sent r p' = turn_sent r p"
  by (auto elim!: relay_ws_stepE ws_task_stepE simp: synthetic_gateway)

lemma step_endings:
  "relay_step E s s' \<Longrightarrow> endings r (snd s) \<le> turn_sent r (fst s) \<Longrightarrow> endings r (snd s') \<le> turn_sent r (fst s')"
proof (induction rule: relay_step.induct)
  case (stop i ps nd q p p' style)
  then show ?case
    using relay_stop_style [OF stop(3)] turn_sent_stop [OF stop(3), of r] endings_update [OF stop(1), of r "Stopping nd q style"]
    by (auto simp: turn_sent_def split: if_splits)
next
  case (arrive q p p' nd ps millis)
  then show ?case using resolve_frame [OF arrive(3)] turn_sent_cong [of p' p r] by simp
next
  case (ws_handler i ps p p' ph)
  then show ?case using ws_endings(1) [OF ws_handler(2), of r] by (simp add: endings_same)
next
  case (ws_task i ps p p' ph)
  then show ?case using ws_endings(2) [OF ws_task(2), of r] by (simp add: endings_same)
qed (simp_all add: endings_same turn_sent_admit synthetic_gateway synthetic_stop)

lemma endings_answers:
  "list_all answer_ok ps \<Longrightarrow> length (filter synthetic (List.map_filter (answer_in r) ps)) \<le> endings r ps"
proof (induction ps)
  case (Cons ph ps)
  then show ?case
    by (cases "(r, ph)" rule: ending.cases) (auto simp: map_filter_def synthetic_gateway split: option.splits)
qed (simp add: map_filter_def)

text \<open>
  C6. Whatever the interleaving, at most one request of a task is answered with the synthetic end of turn,
  early returns included. Every answer the proxy makes up is the hello, the 502 or a readable stop (that
  turn, or a 429 that says not to retry); a request that was begun gets a stop or the 502 when it is
  finished and only the 502 when it left by an early return. No answer is a 402, although \<open>StopStyle\<close> has
  one and the documents promise it.
\<close>

theorem one_synthetic_turn_per_task:
  assumes "relay_run E p0 p ps"
  shows "length (filter synthetic (List.map_filter (answer_in r) ps)) \<le> 1 \<and>
    (\<forall>ph \<in> set ps. \<forall>a. made_up ph = Some a \<longrightarrow>
      rs_status a \<noteq> 402 \<and> (a = hello_ok \<or> a = gateway_error \<or> stop_answer a)) \<and>
    (\<forall>nd a. Finished nd (Some a) \<in> set ps \<longrightarrow> a = gateway_error \<or> stop_answer a) \<and>
    (\<forall>nd a. Leaked nd (Some a) \<in> set ps \<longrightarrow> a = gateway_error)"
proof -
  have inv: "list_all answer_ok ps \<and> endings r ps \<le> turn_sent r p"
    using assms
  proof (induction rule: relay_run.induct)
    case (step p ps p' ps')
    then show ?case using step_answers [OF step(2)] step_endings [OF step(2), of r] by simp
  qed simp
  then have "length (filter synthetic (List.map_filter (answer_in r) ps)) \<le> endings r ps"
    by (simp add: endings_answers)
  moreover have "turn_sent r p \<le> 1" by (simp add: turn_sent_def)
  ultimately have one: "length (filter synthetic (List.map_filter (answer_in r) ps)) \<le> 1" using inv by linarith
  have ok: "answer_ok ph" if "ph \<in> set ps" for ph using inv that by (simp add: list_all_iff)
  show ?thesis
  proof (intro conjI ballI allI impI)
    fix ph a
    assume "ph \<in> set ps" "made_up ph = Some a"
    then have a: "a = hello_ok \<or> a = gateway_error \<or> stop_answer a"
      using answer_ok_made_up ok by blast
    then show "a = hello_ok \<or> a = gateway_error \<or> stop_answer a" .
    from a show "rs_status a \<noteq> 402" by (auto simp: stop_answer_def hello_ok_def gateway_error_def)
  next
    fix nd a
    assume "Finished nd (Some a) \<in> set ps"
    from ok [OF this] show "a = gateway_error \<or> stop_answer a" by auto
  next
    fix nd a
    assume "Leaked nd (Some a) \<in> set ps"
    from ok [OF this] show "a = gateway_error" by simp
  qed (rule one)
qed

text \<open>A request of the sealed task is denied, stopped and finished.\<close>

definition broke_request :: "((string \<times> string) list, string) request" where
  "broke_request = (demo_request ''/v1/messages'')\<lparr>rq_headers := [(''x-claude-code-session-id'', ''s'')]\<rparr>"

lemma broke_resolved:
  "relay_resolve (en_json demo_env) (en_headers demo_env) (rq_headers broke_request) (rq_body broke_request) broke_proxy =
    (broke_proxy, broke_ref)"
proof -
  have "header_view list_headers [(''x-claude-code-session-id'', ''s'')] ''x-claude-code-session-id'' = Some ''s''"
    "header_view list_headers [(''x-claude-code-session-id'', ''s'')] ''x-claude-code-agent-id'' = None"
    "header_view list_headers [(''x-claude-code-session-id'', ''s'')] ''x-claude-code-parent-agent-id'' = None"
    by code_simp+
  then show ?thesis
    by (simp add: relay_resolve_def resolve_def from_headers_def broke_ref_def demo_env_def broke_request_def Let_def)
qed

lemma broke_run:
  "\<exists>p a. relay_run demo_env broke_proxy p [Finished broke_ref (Some a)]"
proof -
  let ?q = broke_request
  have "request_path demo_env ?q \<noteq> ''/api/hello''" "\<not> is_ws demo_env ?q"
    by (simp_all add: request_path_def demo_env_def text_uri_def broke_request_def demo_request_def is_ws_def
        is_websocket_upgrade_def)
  from relay_run.step [OF relay_run.start relay_step.arrive [OF this broke_resolved, of "[]" 0]]
  obtain cid where r1: "relay_run demo_env broke_proxy broke_proxy [Resolved broke_ref ?q cid]" by auto
  obtain p1 a b where adm: "relay_admit broke_ref broke_proxy = (p1, Deny a b)"
    using sealed_denied [of broke_proxy broke_ref "rate_from_base 3 15"] broke_facts by auto
  have "relay_step demo_env (broke_proxy, [Resolved broke_ref ?q cid]) (p1, [Resolved broke_ref ?q cid][0 := Denied broke_ref ?q])"
    by (rule relay_step.deny [OF _ _ adm]) simp_all
  from relay_run.step [OF r1 this] have r2: "relay_run demo_env broke_proxy p1 [Denied broke_ref ?q]" by simp
  obtain p2 style where stop: "relay_stop broke_ref p1 = (p2, style)" by fastforce
  have "relay_step demo_env (p1, [Denied broke_ref ?q]) (p2, [Denied broke_ref ?q][0 := Stopping broke_ref ?q style])"
    by (rule relay_step.stop [OF _ _ stop]) simp_all
  from relay_run.step [OF r2 this] have r3: "relay_run demo_env broke_proxy p2 [Stopping broke_ref ?q style]" by simp
  from relay_run.step [OF r3 relay_step.stopped [of 0]] show ?thesis by auto
qed

theorem one_synthetic_turn_per_task_witness:
  "\<exists>p a. relay_run demo_env broke_proxy p [Finished broke_ref (Some a)] \<and> (stop_answer a \<or> a = gateway_error)"
proof -
  obtain p a where run: "relay_run demo_env broke_proxy p [Finished broke_ref (Some a)]" using broke_run by blast
  then show ?thesis using one_synthetic_turn_per_task [OF run] by auto
qed

section \<open>The state stays well-formed\<close>

text \<open>
  The tasks are well-formed and filed under their own roots, the notes of the shadow index are bounded, and
  captures are written only inside the capture directory: in a directory and a file named by at most 80
  letters, digits, hyphens and underscores, whatever the headers of the request named.
\<close>

definition safe_name :: "string \<Rightarrow> bool" where
  "safe_name s \<longleftrightarrow> length s \<le> 80 \<and> list_all (\<lambda>c. is_ascii_alphanumeric c \<or> c = CHR ''-'' \<or> c = CHR ''_'') s"

lemma hm_keys_insert_set: "set (hm_keys (hm_insert k v m)) = insert k (set (hm_keys m))"
  by (auto simp: hm_keys_insert hm_contains_def simp flip: hm_get_in_keys)

lemma safe_id_name: "safe_name (safe_id s)"
  by (auto simp: safe_name_def safe_id_def list_all_iff dest!: in_set_takeD)

definition proxy_wf :: "proxy \<Rightarrow> bool" where
  "proxy_wf p \<longleftrightarrow> arena_wf (px_arena p) \<and> length (px_shadow_notes p) \<le> 64 \<and>
    (\<forall>store. px_capture p = Some store \<longrightarrow>
      (\<forall>(dir, file) \<in> set (hm_keys (cs_files store)). safe_name dir \<and> (\<exists>n. safe_name n \<and> file = n @ ''.json'')))"

lemma proxy_wf_task_mut:
  assumes "proxy_wf p"
    and "\<And>t. task_wf t \<Longrightarrow> task_wf (fst (f t)) \<and> t_root (fst (f t)) = t_root t"
  shows "proxy_wf (p\<lparr>px_arena := fst (task_mut r f (px_arena p))\<rparr>)"
  using assms arena_task_wf [of "px_arena p" r] by (simp add: proxy_wf_def arena_wf_task_mut)

lemma proxy_wf_ledger [simp]: "proxy_wf (p\<lparr>px_ledger := l\<rparr>) = proxy_wf p" "proxy_wf (p\<lparr>px_ident := i\<rparr>) = proxy_wf p"
  by (simp_all add: proxy_wf_def)

lemma proxy_wf_begin: "proxy_wf p \<Longrightarrow> proxy_wf (relay_begin nd p)"
  unfolding relay_begin_def by (rule proxy_wf_task_mut) (simp_all add: wf_begin_request task_simps)

lemma proxy_wf_admit: "proxy_wf p \<Longrightarrow> relay_admit nd p = (p', ad) \<Longrightarrow> proxy_wf p'"
proof -
  assume wf: "proxy_wf p" and adm: "relay_admit nd p = (p', ad)"
  show "proxy_wf p'"
  proof (cases "px_rates (relay_begin nd p)")
    case None
    then show ?thesis using adm proxy_wf_begin [OF wf, of nd] by (simp add: relay_admit_def)
  next
    case (Some rates)
    then have "p' = (relay_begin nd p)\<lparr>px_arena := fst (task_mut (nr_root nd) (admit_at nd rates) (px_arena (relay_begin nd p)))\<rparr>"
      using adm by (auto simp: relay_admit_def Let_def split: prod.splits)
    moreover have "proxy_wf \<dots>"
      by (rule proxy_wf_task_mut [OF proxy_wf_begin [OF wf]]) (simp add: admit_at_wf task_simps)
    ultimately show ?thesis by simp
  qed
qed

lemma proxy_wf_stop: "proxy_wf p \<Longrightarrow> relay_stop nd p = (p', style) \<Longrightarrow> proxy_wf p'"
proof -
  assume wf: "proxy_wf p" and stop: "relay_stop nd p = (p', style)"
  then have "p' = p\<lparr>px_arena := fst (task_mut (nr_root nd) take_stop (px_arena p))\<rparr>"
    by (auto simp: relay_stop_def Let_def split: prod.splits)
  moreover have "proxy_wf \<dots>"
    by (rule proxy_wf_task_mut [OF wf]) (simp add: task_wf_def take_stop_def)
  ultimately show ?thesis by simp
qed

lemma proxy_wf_finish: "proxy_wf p \<Longrightarrow> proxy_wf (finish_locked to_str now nd u done_ok cid p)"
proof -
  assume wf: "proxy_wf p"
  have "proxy_wf (p\<lparr>px_arena := fst (task_mut (nr_root nd) (\<lambda>t. (finish_request nd u done_ok t, ())) (px_arena p))\<rparr>)"
    by (rule proxy_wf_task_mut [OF wf]) (simp add: wf_finish_request task_simps)
  then show ?thesis by (simp add: finish_locked_def Let_def proxy_wf_def)
qed

lemma proxy_wf_observe:
  "proxy_wf p \<Longrightarrow> proxy_wf (observe_request J H to_str now buf nd h meth path cid p)"
  by (auto simp: observe_request_def shadow_request_def capture_request_def capture_save_def proxy_wf_def
      capture_file_def hm_keys_insert_set safe_id_name notes_bounded Let_def split: prod.split option.split)

lemma proxy_wf_ws:
  "relay_ws_step E (p, ph) (p', ph') \<Longrightarrow> proxy_wf p \<Longrightarrow> proxy_wf p'"
  "ws_task_step E (p, ph) (p', ph') \<Longrightarrow> proxy_wf p \<Longrightarrow> proxy_wf p'"
  by (auto elim!: relay_ws_stepE ws_task_stepE simp: proxy_wf_begin proxy_wf_finish finish_node_def)

text \<open>
  C7. The state of the proxy is well-formed at every moment: from a well-formed start, in every
  interleaving, every task is well-formed and filed under its own root, the shadow notes are at most 64,
  and no request can make its capture leave the capture directory: directory and file are named by safe
  characters only. (Two captures may still have the same file name, and then the second replaces the
  first.)
\<close>

theorem relay_keeps_state_wf:
  assumes "relay_run E p0 p ps" "proxy_wf p0"
  shows "proxy_wf p"
proof -
  have wf: "relay_step E s s' \<Longrightarrow> proxy_wf (fst s) \<Longrightarrow> proxy_wf (fst s')" for s s'
  proof (induction rule: relay_step.induct)
    case (arrive q p p' nd ps millis)
    then show ?case by (auto simp: relay_resolve_def Let_def split: prod.splits)
  next
    case (deny i ps nd q cid p p' a b)
    then show ?case using proxy_wf_admit [OF _ deny(3)] by simp
  next
    case (forward i ps nd q cid p p' ad)
    then show ?case using proxy_wf_admit [OF _ forward(3)] by simp
  next
    case (stop i ps nd q p p' style)
    then show ?case using proxy_wf_stop [OF _ stop(3)] by simp
  next
    case (ws_handler i ps p p' ph)
    then show ?case using proxy_wf_ws(1) by simp
  next
    case (ws_task i ps p p' ph)
    then show ?case using proxy_wf_ws(2) by simp
  qed (simp_all add: proxy_wf_begin proxy_wf_finish proxy_wf_observe finish_node_def)
  show ?thesis
    using assms(1)
  proof (induction rule: relay_run.induct)
    case (step p ps p' ps')
    then show ?case using wf [OF step(2)] by simp
  qed (rule assms(2))
qed

theorem relay_keeps_state_wf_witness:
  "\<exists>p a. relay_run demo_env broke_proxy p [Finished broke_ref (Some a)] \<and> proxy_wf p"
proof -
  have "arena_wf (with_default_ceiling_micros 0 arena_new)"
    by (simp add: arena_wf_def with_default_ceiling_micros_def arena_new_def hm_wf_def hm_keys_def arena_get_def hm_get_def)
  then have "proxy_wf (with_budget 0 (rate_from_base 3 15) None (with_ledger [] proxy_new))"
    by (simp add: proxy_wf_def with_budget_def with_ledger_def proxy_new_def)
  from proxy_wf_admit [OF this prod.collapse [symmetric]] have "proxy_wf broke_proxy"
    unfolding broke_proxy_def .
  then show ?thesis using broke_run relay_keeps_state_wf by blast
qed

end
