(* ===== verification/Proxy_Serve.thy ===== *)
theory Proxy_Serve
  imports Proxy_Relay
begin

text \<open>
  Around the relay: the accept loop (\<open>crates/tailfin-proxy/src/serve.rs\<close>), the log (\<open>log.rs\<close>) and the
  bare proxy's \<open>main\<close> (\<open>main.rs\<close>). What the listener, the operating system and the TLS library answer are
  inputs.
\<close>

section \<open>The accept loop\<close>

datatype 'c listener_event = Incoming 'c | AcceptError | Shutdown

text \<open>
  The connections given a task of their own, and whether \<open>serve\<close> has returned: it waits for none of them.
\<close>

fun serve :: "'c listener_event list \<Rightarrow> 'c list \<times> bool" where
  "serve [] = ([], False)"
| "serve (Incoming c # es) = (let (cs, returned) = serve es in (c # cs, returned))"
| "serve (AcceptError # es) = serve es"
| "serve (Shutdown # es) = ([], True)"

lemma serve_eq:
  "serve es = (let before = takeWhile (\<lambda>e. e \<noteq> Shutdown) es
    in ([c. Incoming c \<leftarrow> before], Shutdown \<in> set es))"
  by (induction es rule: serve.induct) (auto simp: Let_def split: prod.split)

section \<open>The log\<close>

definition LOG_CAPACITY :: nat where
  "LOG_CAPACITY = 256"

text \<open>\<open>TX\<close> is \<open>None\<close> until \<open>init\<close>; \<open>lg_stderr\<close> is what has been printed.\<close>

record logger =
  lg_tx :: "string list option"
  lg_stderr :: "string list"

definition log_new :: logger where
  "log_new = \<lparr>lg_tx = None, lg_stderr = []\<rparr>"

definition log_init :: "logger \<Rightarrow> logger" where
  "log_init l = (if lg_tx l \<noteq> None then l else l\<lparr>lg_tx := Some []\<rparr>)"

definition log_msg :: "string \<Rightarrow> logger \<Rightarrow> logger" where
  "log_msg msg l =
    (case lg_tx l of
       Some queue \<Rightarrow> if length queue < LOG_CAPACITY then l\<lparr>lg_tx := Some (queue @ [msg])\<rparr> else l
     | None \<Rightarrow> l\<lparr>lg_stderr := lg_stderr l @ [msg]\<rparr>)"

definition log_drain :: "logger \<Rightarrow> logger" where
  "log_drain l =
    (case lg_tx l of
       Some (line # queue) \<Rightarrow> l\<lparr>lg_tx := Some queue, lg_stderr := lg_stderr l @ [line]\<rparr>
     | _ \<Rightarrow> l)"

datatype log_event = LogInit | LogMsg string | LogDrain

fun log_step :: "log_event \<Rightarrow> logger \<Rightarrow> logger" where
  "log_step LogInit l = log_init l"
| "log_step (LogMsg msg) l = log_msg msg l"
| "log_step LogDrain l = log_drain l"

definition log_lines :: "logger \<Rightarrow> string list" where
  "log_lines l = lg_stderr l @ (case lg_tx l of Some queue \<Rightarrow> queue | None \<Rightarrow> [])"

fun logged :: "log_event list \<Rightarrow> string list" where
  "logged [] = []"
| "logged (LogMsg msg # es) = msg # logged es"
| "logged (e # es) = logged es"

lemma log_step_lines:
  "log_lines (log_step e l) = log_lines l \<or> (\<exists>msg. e = LogMsg msg \<and> log_lines (log_step e l) = log_lines l @ [msg])"
  by (cases e) (auto simp: log_lines_def log_init_def log_msg_def log_drain_def split: option.split list.split)

lemma log_subseq_gen: "\<exists>printed. log_lines (fold log_step es l) = log_lines l @ printed \<and> subseq printed (logged es)"
proof (induction es arbitrary: l)
  case (Cons e es)
  from Cons.IH [of "log_step e l"] obtain printed where
    p: "log_lines (fold log_step es (log_step e l)) = log_lines (log_step e l) @ printed" "subseq printed (logged es)"
    by blast
  from log_step_lines [of e l] show ?case
  proof
    assume "log_lines (log_step e l) = log_lines l"
    moreover have "subseq printed (logged (e # es))" using p(2) by (cases e) auto
    ultimately show ?thesis using p(1) by (intro exI [of _ printed]) simp
  next
    assume "\<exists>msg. e = LogMsg msg \<and> log_lines (log_step e l) = log_lines l @ [msg]"
    then obtain msg where "e = LogMsg msg" "log_lines (log_step e l) = log_lines l @ [msg]" by blast
    then show ?thesis using p by (intro exI [of _ "msg # printed"]) simp
  qed
qed simp

text \<open>
  Logging never waits and never reorders: after any events, what is printed or still queued is a
  subsequence of what was logged, and the queue is bounded.
\<close>

lemma log_is_subsequence:
  "subseq (log_lines (fold log_step es log_new)) (logged es)"
  using log_subseq_gen [of es log_new] by (auto simp: log_lines_def log_new_def)

lemma log_bounded:
  "(case lg_tx (fold log_step es log_new) of Some queue \<Rightarrow> length queue \<le> LOG_CAPACITY | None \<Rightarrow> True)"
proof (induction es rule: rev_induct)
  case (snoc e es)
  then show ?case
    by (cases e) (auto simp: log_init_def log_msg_def log_drain_def split: option.splits list.splits)
qed (simp add: log_new_def)

section \<open>The bare proxy\<close>

definition error_display :: "proxy_error \<Rightarrow> string" where
  "error_display e =
    (case e of InvalidUpstream msg \<Rightarrow> ''invalid upstream: '' @ msg | ConfigError msg \<Rightarrow> msg | ProxyIo msg \<Rightarrow> msg)"

definition USAGE :: string where
  "USAGE = ''tailfin-proxy '' @ [CHR 0xE2, CHR 0x80, CHR 0x94] @ '' HTTP relay'' @ nl @ nl @
    ''  --listen ADDR     bind address (default 127.0.0.1:7171, or TAILFIN_LISTEN)'' @ nl @
    ''  --upstream URL    upstream base URL (required, or TAILFIN_UPSTREAM)'' @ nl"

text \<open>\<open>tls\<close> is the error of loading the system's certificates, \<open>bind\<close> the bound address or its error.\<close>

definition new_proxy :: "'u http_uri \<Rightarrow> string option \<Rightarrow> 'u \<Rightarrow> proxy_error + proxy" where
  "new_proxy U tls upstream =
    (case check_upstream U upstream of
       Inl e \<Rightarrow> Inl e
     | Inr _ \<Rightarrow>
         (case tls of
            Some e \<Rightarrow> Inl (ConfigError (''loading native TLS roots: '' @ e))
          | None \<Rightarrow> Inr proxy_new))"

definition proxy_run ::
  "(string \<Rightarrow> bool) \<Rightarrow> (string \<Rightarrow> 'u option) \<Rightarrow> 'u http_uri \<Rightarrow> string option \<Rightarrow> (string \<Rightarrow> string + string) \<Rightarrow>
    string list \<Rightarrow> string option \<Rightarrow> string option \<Rightarrow> proxy_error + 'u config \<times> proxy \<times> string" where
  "proxy_run addr_ok uri_parse U tls bind args listen_env upstream_env =
    (case config_parse addr_ok uri_parse args listen_env upstream_env of
       Inl e \<Rightarrow> Inl e
     | Inr cfg \<Rightarrow>
         (case new_proxy U tls (cfg_upstream cfg) of
            Inl e \<Rightarrow> Inl e
          | Inr p \<Rightarrow>
              (case bind (cfg_listen cfg) of
                 Inl e \<Rightarrow> Inl (ProxyIo e)
               | Inr bound \<Rightarrow> Inr (cfg, p, bound))))"

text \<open>The exit code and what is written to standard error when the proxy does not start.\<close>

definition proxy_main :: "proxy_error + 'a \<Rightarrow> (nat \<times> string) option" where
  "proxy_main r =
    (case r of
       Inr _ \<Rightarrow> None
     | Inl e \<Rightarrow>
         if e = ConfigError ''help'' then Some (0, USAGE)
         else Some (1, ''tailfin-proxy: '' @ error_display e @ nl))"

text \<open>Asking for help as the first argument prints the usage and is no failure.\<close>

lemma help_is_no_failure:
  "arg \<in> {''-h'', ''--help''} \<Longrightarrow>
    proxy_main (proxy_run addr_ok uri_parse U tls bind (arg # args) listen_env upstream_env) = Some (0, USAGE)"
  by (auto simp: proxy_main_def proxy_run_def config_parse_def)

end
