(* ===== verification/Cli_Main.thy ===== *)
theory Cli_Main
  imports Cli Proxy_Answers Proxy_Serve
begin

text \<open>
  The program \<open>tailfin\<close> (\<open>crates/tailfin/src/main.rs\<close>): its commands with their arguments, \<open>run\<close> up to the
  accept loop, \<open>go\<close> and \<open>main\<close>. Files, directories, the clock, TOML, JSON and the network are a record of
  what they answer; clap's parser is left out, so a command comes with its arguments.
\<close>

section \<open>Arguments\<close>

record run_args =
  ra_listen :: string
  ra_upstream :: string
  ra_ledger :: string
  ra_capture :: bool
  ra_retention :: string
  ra_capture_dir :: "string option"
  ra_max_per_task :: "fp option"
  ra_subagent_share :: "string option"
  ra_rates :: "string option"

record replay_args =
  pa_sample :: nat
  pa_models :: string
  pa_since :: "string option"
  pa_ledger :: string
  pa_capture_dir :: "string option"
  pa_stub :: bool

record stamp_args =
  sa_git_ref :: string
  sa_ledger :: string
  sa_rates :: "string option"

record blame_args =
  ba_ledger :: string
  ba_rates :: "string option"

record doctor_args =
  da_config :: string

record report_args =
  ea_ledger :: string
  ea_rates :: "string option"
  ea_share :: bool

datatype command =
    Run run_args
  | Report report_args
  | Replay replay_args
  | Stamp stamp_args
  | Blame blame_args
  | Doctor doctor_args

section \<open>The world of a command\<close>

text \<open>
  A file is its content, \<open>None\<close> when there is none; a capture directory its files. \<open>wo_parent\<close> and \<open>wo_join\<close>
  are the operations of paths, \<open>wo_bind\<close> the listener.
\<close>

record 'u world =
  wo_file :: "string \<Rightarrow> string option"
  wo_captures :: "string \<Rightarrow> (string \<times> string, string) hmap"
  wo_now :: u64
  wo_parent :: "string \<Rightarrow> string option"
  wo_join :: "string \<Rightarrow> string \<Rightarrow> string"
  wo_toml :: "string \<Rightarrow> rate_file option"
  wo_record :: "string \<Rightarrow> ledger_record option"
  wo_capture :: "string \<Rightarrow> capture_record option"
  wo_uri :: "'u http_uri"
  wo_uri_parse :: "string \<Rightarrow> string + 'u"
  wo_tls :: "string option"
  wo_bind :: "string \<Rightarrow> string + string"

definition capture_dir :: "'u world \<Rightarrow> string option \<Rightarrow> string \<Rightarrow> string" where
  "capture_dir W flag ledger =
    (case flag of Some d \<Rightarrow> d | None \<Rightarrow> default_capture_dir (wo_parent W ledger) (wo_join W))"

definition rates_file :: "'u world \<Rightarrow> string option \<Rightarrow> string option option" where
  "rates_file W path = map_option (wo_file W) path"

section \<open>Run\<close>

text \<open>\<open>Ok\<close> is the proxy handed to the accept loop and the address it listens on.\<close>

definition run_cmd :: "'u world \<Rightarrow> run_args \<Rightarrow> cli_error + proxy \<times> string" where
  "run_cmd W args =
    (case wo_uri_parse W (ra_upstream args) of
       Inl e \<Rightarrow> Inl (CliText (''upstream: '' @ e))
     | Inr upstream \<Rightarrow>
         let ledger = ledger_open (wo_file W (ra_ledger args))
         in case new_proxy (wo_uri W) (wo_tls W) upstream of
              Inl e \<Rightarrow> Inl (CliText (error_display e))
            | Inr p0 \<Rightarrow>
                (case run_budget (wo_toml W) (ra_max_per_task args) (rates_file W (ra_rates args))
                        (ra_subagent_share args) (with_ledger ledger p0) of
                   Inl e \<Rightarrow> Inl e
                 | Inr p1 \<Rightarrow>
                     let files = wo_captures W (capture_dir W (ra_capture_dir args) (ra_ledger args));
                         p2 = run_capture (wo_capture W) (wo_now W) (ra_capture args) (ra_retention args) files p1
                     in case wo_bind W (ra_listen args) of
                          Inl _ \<Rightarrow> Inl CliIo
                        | Inr bound \<Rightarrow> Inr (p2, bound)))"

section \<open>The commands\<close>

text \<open>A command prints, panics (\<open>Printed None\<close>), or serves until it is told to stop.\<close>

datatype outcome = Printed "string option" | Served proxy string

definition go :: "'u world \<Rightarrow> command \<Rightarrow> cli_error + outcome" where
  "go W cmd =
    (case cmd of
       Run args \<Rightarrow> map_sum id (\<lambda>(p, bound). Served p bound) (run_cmd W args)
     | Report args \<Rightarrow>
         map_sum id Printed
           (report_cmd (wo_record W) (wo_toml W) (wo_file W (ea_ledger args)) (rates_file W (ea_rates args)) (ea_share args))
     | Replay args \<Rightarrow>
         map_sum id (\<lambda>s. Printed (Some s))
           (replay_cmd (wo_capture W) (wo_now W) (wo_captures W (capture_dir W (pa_capture_dir args) (pa_ledger args)))
             (pa_sample args) (pa_models args) (pa_since args))
     | Stamp args \<Rightarrow>
         map_sum id (\<lambda>s. Printed (Some s))
           (stamp_cmd (wo_record W) (wo_toml W) (wo_file W (sa_ledger args)) (rates_file W (sa_rates args)))
     | Blame args \<Rightarrow>
         map_sum id Printed
           (blame_cmd (wo_record W) (wo_toml W) (wo_file W (ba_ledger args)) (rates_file W (ba_rates args)))
     | Doctor args \<Rightarrow> map_sum id (\<lambda>s. Printed (Some s)) (doctor_cmd (wo_file W (da_config args))))"

definition exit_code :: "cli_error + outcome \<Rightarrow> nat" where
  "exit_code r = (case r of Inl _ \<Rightarrow> 1 | Inr (Printed None) \<Rightarrow> 101 | Inr _ \<Rightarrow> 0)"

section \<open>From the flag to the bound\<close>

lemma run_capture_frame [simp]:
  "px_arena (run_capture f now on keep files p) = px_arena p"
  "px_rates (run_capture f now on keep files p) = px_rates p"
  "px_ledger (run_capture f now on keep files p) = px_ledger p"
  by (simp_all add: run_capture_def with_capture_def Let_def)

lemma new_proxy_Inr: "new_proxy U tls u = Inr p \<Longrightarrow> p = proxy_new"
  by (auto simp: new_proxy_def split: sum.splits option.splits)

lemma run_budget_state:
  assumes "run_budget toml budget rates share p = Inr p'" "ar_tasks (px_arena p) = []"
  shows "ar_tasks (px_arena p') = [] \<and> px_ledger p' = px_ledger p"
  using assms
  by (auto simp: run_budget_def with_budget_def with_default_ceiling_micros_def arena_with_voucher_share_def arena_new_def
      split: option.splits sum.splits)

lemma run_cmd_state:
  assumes "run_cmd W args = Inr (p, bound)"
  shows "ar_tasks (px_arena p) = [] \<and> px_ledger p = Some (ledger_open (wo_file W (ra_ledger args)))"
proof -
  obtain p1 where p1: "run_budget (wo_toml W) (ra_max_per_task args) (rates_file W (ra_rates args))
      (ra_subagent_share args) (with_ledger (ledger_open (wo_file W (ra_ledger args))) proxy_new) = Inr p1"
    "px_arena p = px_arena p1" "px_ledger p = px_ledger p1"
    using assms by (auto simp: run_cmd_def Let_def split: sum.splits dest!: new_proxy_Inr)
  then show ?thesis using run_budget_state [OF p1(1)] by (simp add: with_ledger_def proxy_new_def arena_new_def)
qed

lemma run_budget_budgeted:
  assumes "run_budget toml (Some amount) rates share p = Inr p'" "px_rates p = None"
  shows "\<exists>rc. rates \<noteq> None \<and> load_rates toml (the rates) = Inr rc \<and>
    budgeted_proxy (max_per_task_micros amount) rc p'"
  using assms
  by (auto simp: run_budget_def budgeted_proxy_def with_budget_def with_default_ceiling_micros_def
      arena_with_voucher_share_def arena_new_def split: option.splits sum.splits)

lemma run_cmd_budgeted:
  assumes "run_cmd W args = Inr (p, bound)" "ra_max_per_task args = Some amount"
  shows "\<exists>path rc. ra_rates args = Some path \<and> load_rates (wo_toml W) (wo_file W path) = Inr rc \<and>
    budgeted_proxy (max_per_task_micros amount) rc p"
proof -
  obtain p1 where p1: "run_budget (wo_toml W) (Some amount) (rates_file W (ra_rates args))
      (ra_subagent_share args) (with_ledger (ledger_open (wo_file W (ra_ledger args))) proxy_new) = Inr p1"
    "px_arena p = px_arena p1" "px_rates p = px_rates p1"
    using assms by (auto simp: run_cmd_def Let_def split: sum.splits dest!: new_proxy_Inr)
  from run_budget_budgeted [OF p1(1)] show ?thesis
    using p1(2,3) by (auto simp: with_ledger_def proxy_new_def rates_file_def budgeted_proxy_def)
qed

text \<open>
  C1. \<open>tailfin run --max-per-task n --rates f\<close>, for \<open>n\<close> whole dollars that are less than \<open>2 ^ 53\<close>
  micro-dollars, keeps its promise end to end: whenever the command starts, the
  rate card of the file is in force, and in every interleaving of HTTP handlers in which a task has at most
  \<open>w\<close> requests in flight and no finish adds more than \<open>c\<close> micro-dollars to its metered spend, the task
  spends less than \<open>n\<close> dollars and \<open>w + 1\<close> requests.
\<close>

theorem max_per_task_bounds_spend:
  assumes "run_cmd W args = Inr (p0, bound)" "ra_max_per_task args = Some (Fin (of_nat n))"
    and "0 < n" "n * 1000000 < 2 ^ 53"
  shows "\<exists>path rates. ra_rates args = Some path \<and> load_rates (wo_toml W) (wo_file W path) = Inr rates \<and>
    (\<forall>E r c w p ps. paced_run E p0 r rates c w p ps \<longrightarrow>
      unat (spent (arena_task (px_arena p) r) rates) < n * 1000000 + (w + 1) * c)"
proof -
  from run_cmd_budgeted [OF assms(1,2)] obtain path rc where
    rc: "ra_rates args = Some path" "load_rates (wo_toml W) (wo_file W path) = Inr rc"
      "budgeted_proxy (max_per_task_micros (Fin (of_nat n))) rc p0" by blast
  have cap: "unat (max_per_task_micros (Fin (of_nat n))) = n * 1000000"
    unfolding whole_dollars_exact [OF assms(4)] using assms(4)
    by (simp only: unat_of_nat) (rule mod_less, simp)
  have "unat (spent (arena_task (px_arena p) r) rc) < n * 1000000 + (w + 1) * c"
    if "paced_run E p0 r rc c w p ps" for E r c w p ps
    using relay_spend_bounded [OF that rc(3)] assms(3) unfolding cap by linarith
  then show ?thesis using rc(1,2) by blast
qed

text \<open>A start with a ceiling of five dollars.\<close>

definition five_args :: run_args where
  "five_args =
    \<lparr>ra_listen = ''127.0.0.1:7171'', ra_upstream = ''https://h'', ra_ledger = ''tailfin.jsonl'', ra_capture = False,
     ra_retention = ''7d'', ra_capture_dir = None, ra_max_per_task = Some (Fin (of_nat 5)), ra_subagent_share = None,
     ra_rates = Some ''rates.toml''\<rparr>"

definition five_world :: "string world" where
  "five_world =
    \<lparr>wo_file = \<lambda>path. if path = ''rates.toml'' then Some ''card'' else Some [], wo_captures = \<lambda>d. [], wo_now = 0,
     wo_parent = \<lambda>p. None, wo_join = \<lambda>a b. a @ ''/'' @ b,
     wo_toml = \<lambda>s. Some \<lparr>rf_input = 3, rf_output = 15, rf_cache_write_5m = None, rf_cache_write_1h = None, rf_cache_read = None\<rparr>,
     wo_record = \<lambda>s. None, wo_capture = \<lambda>s. None, wo_uri = text_uri, wo_uri_parse = Inr, wo_tls = None, wo_bind = Inr\<rparr>"

lemma five_starts: "\<exists>p. run_cmd five_world five_args = Inr (p, ''127.0.0.1:7171'')"
proof -
  have "utf8_valid ''card''" by code_simp
  then show ?thesis
    by (simp add: run_cmd_def five_world_def five_args_def new_proxy_def check_upstream_def text_uri_def run_budget_def
        rates_file_def load_rates_def Let_def)
qed

theorem max_per_task_bounds_spend_witness:
  "\<exists>p0 rates. run_cmd five_world five_args = Inr (p0, ''127.0.0.1:7171'') \<and>
    (\<forall>E r c w p ps. paced_run E p0 r rates c w p ps \<longrightarrow>
      unat (spent (arena_task (px_arena p) r) rates) < 5000000 + (w + 1) * c)"
proof -
  obtain p0 where run: "run_cmd five_world five_args = Inr (p0, ''127.0.0.1:7171'')" using five_starts by blast
  moreover have "ra_max_per_task five_args = Some (Fin (of_nat 5))" by (simp add: five_args_def)
  ultimately show ?thesis using max_per_task_bounds_spend [OF run, of 5] by auto
qed

end
