(* ===== verification/Cli_Lives.thy ===== *)
theory Cli_Lives
  imports Cli_Main
begin

text \<open>
  The lives of a proxy: \<open>tailfin run\<close> is started, serves, is stopped or killed at any moment, and is started
  again over the ledger file it left. What each life forgets, and what the report says of all of them.
\<close>

section \<open>One life\<close>

lemma unspent_start:
  assumes "run_cmd W args = Inr (p0, bound)"
  shows "spent (arena_task (px_arena p0) r) rates = 0 \<and> \<not> t_sealed (arena_task (px_arena p0) r)"
proof -
  have "arena_task (px_arena p0) r = new_task (ar_default_ceiling (px_arena p0)) (ar_voucher_share (px_arena p0)) r"
    using run_cmd_state [OF assms] by (simp add: arena_task_def arena_get_def hm_get_def)
  moreover have "spent (new_task cap share r) rates = 0" for cap share by (simp add: spent_eq new_task_total)
  moreover have "\<not> t_sealed (new_task cap share r)" for cap share by (simp add: task_simps)
  ultimately show ?thesis by simp
qed

text \<open>A life appends its finished requests to the records it found, and its live tasks have used only those.\<close>

lemma life_ledger:
  assumes "run_cmd W args = Inr (p0, bound)" "relay_run E p0 p ps" "serde_records (en_record_str E) from_str"
    and "ledger_holds from_str old (ledger_open (wo_file W (ra_ledger args)))"
  shows "\<exists>ledger new. px_ledger p = Some ledger \<and> ledger_holds from_str (old @ new) ledger \<and>
    mset (map record_place new) = mset [place nd. Finished nd a \<leftarrow> ps] \<and>
    (\<forall>r. total_usage (arena_task (px_arena p) r) = (\<Sum>x\<leftarrow>records_of r new. record_usage x))"
proof -
  have start: "started from_str old p0"
    using run_cmd_state [OF assms(1)] assms(4) by (simp add: started_def)
  obtain fl rs where rs: "px_ledger p = Some fl" "ledger_holds from_str (old @ rs) fl"
    using run_accounted [OF assms(2,3) start] by (auto simp: accounted_def)
  from run_ledger [OF assms(2,3) start] obtain new where new: "Inr (old @ rs) = (Inr (old @ new) :: ledger_error + ledger_record list)"
    "closed ps = mset (map record_place new)"
    and live: "\<And>r. node_tally (arena_task (px_arena p) r) = node_tally (replayed new r) \<and>
      task_wf (arena_task (px_arena p) r) \<and> t_root (arena_task (px_arena p) r) = r"
    using rs(1) ledger_holds_read [OF rs(2)] by (metis option.inject)
  have "total_usage (arena_task (px_arena p) r) = (\<Sum>x\<leftarrow>records_of r new. record_usage x)" for r
    using same_tally_rollups(1) [of "arena_task (px_arena p) r" "replayed new r"] live [of r]
    by (simp add: replayed_wf replayed_root replayed_usage)
  then show ?thesis using rs new unfolding closed_finished by (intro exI [of _ fl] exI [of _ new]) simp
qed

text \<open>What the report gives a task.\<close>

lemma reported_usage:
  assumes "t \<in> set (tasks_from_records rs)"
  shows "total_usage t = (\<Sum>x\<leftarrow>records_of (t_root t) rs. record_usage x)"
  using task_is_replayed [OF assms] replayed_usage by metis

text \<open>
  A restart forgets what was spent, and the report does not: when the proxy is started over a ledger that
  holds the records of earlier runs, every task begins again with nothing spent, unsealed and with the
  whole ceiling, in every interleaving the ledger goes on from the old records, and the usage the report
  gives a task exceeds that of the live task, which the fuse looks at, by exactly the usage of the old
  records.
\<close>

lemma restart_forgets_spend:
  assumes "run_cmd W args = Inr (p0, bound)" "wo_file W (ra_ledger args) = Some ledger"
    and "append_all (en_record_str E) old [] = Inr ledger" "\<forall>x \<in> set old. json_line (en_record_str E) from_str x"
    and "relay_run E p0 p ps" "serde_records (en_record_str E) from_str"
  shows "(\<forall>r. spent (arena_task (px_arena p0) r) rates = 0 \<and> \<not> t_sealed (arena_task (px_arena p0) r)) \<and>
    (\<exists>ledger' new. px_ledger p = Some ledger' \<and> read_all from_str (Some ledger') = Inr (old @ new) \<and>
      mset (map record_place new) = mset [place nd. Finished nd a \<leftarrow> ps] \<and>
      (\<forall>t \<in> set (tasks_from_records (old @ new)).
        total_usage t = (\<Sum>x\<leftarrow>records_of (t_root t) old. record_usage x) + total_usage (arena_task (px_arena p) (t_root t))))"
proof -
  have "ledger_holds from_str old (ledger_open (wo_file W (ra_ledger args)))"
    using append_all_holds [OF assms(4) ledger_holds_Nil] assms(2,3) by (auto simp: ledger_open_def)
  from life_ledger [OF assms(1,5,6) this] obtain fl rs where rs: "px_ledger p = Some fl"
    "ledger_holds from_str (old @ rs) fl" "mset (map record_place rs) = mset [place nd. Finished nd a \<leftarrow> ps]"
    "\<And>r. total_usage (arena_task (px_arena p) r) = (\<Sum>x\<leftarrow>records_of r rs. record_usage x)" by blast
  have "total_usage t = (\<Sum>x\<leftarrow>records_of (t_root t) old. record_usage x) + total_usage (arena_task (px_arena p) (t_root t))"
    if "t \<in> set (tasks_from_records (old @ rs))" for t
    using reported_usage [OF that] rs(4) by (simp add: records_of_def)
  then show ?thesis
    using unspent_start [OF assms(1)] rs(1,3) ledger_holds_read [OF rs(2)]
    by (intro conjI allI exI [of _ fl] exI [of _ rs] ballI) auto
qed

section \<open>All lives\<close>

text \<open>
  A life is the proxy \<open>run\<close> started with, the proxy and the requests when it ended; \<open>file\<close> is the ledger
  file after the lives so far. The other options, the clock and the other files may differ from life to
  life.
\<close>

inductive lives ::
  "('v, 'h, 'u) relay_env \<Rightarrow> string \<Rightarrow> (proxy \<times> proxy \<times> ('h, 'u) phase list) list \<Rightarrow> string option \<Rightarrow> bool"
  for E path where
  unborn: "lives E path [] None"
| life: "lives E path ls file \<Longrightarrow> run_cmd (W :: 'u world) args = Inr (p0, bound) \<Longrightarrow> ra_ledger args = path \<Longrightarrow>
    wo_file W path = file \<Longrightarrow> relay_run E p0 p ps \<Longrightarrow> lives E path (ls @ [(p0, p, ps)]) (px_ledger p)"

lemma lives_ledger:
  assumes "lives E path ls file" "serde_records (en_record_str E) from_str"
  shows "\<exists>rs. ledger_holds from_str rs (ledger_open file) \<and> read_all from_str file = Inr rs \<and>
    mset (map record_place rs) = (\<Sum>(p0, p, ps)\<leftarrow>ls. mset [place nd. Finished nd a \<leftarrow> ps]) \<and>
    (\<forall>r. (\<Sum>x\<leftarrow>records_of r rs. record_usage x) = (\<Sum>(p0, p, ps)\<leftarrow>ls. total_usage (arena_task (px_arena p) r)))"
  using assms(1)
proof (induction rule: lives.induct)
  case unborn
  show ?case
    by (intro exI [of _ "[]"]) (simp add: ledger_open_def ledger_holds_Nil read_all_def records_of_def)
next
  case (life ls fl W args p0 bound p ps)
  from life.IH obtain rs where rs: "ledger_holds from_str rs (ledger_open fl)"
    "mset (map record_place rs) = (\<Sum>(p0, p, ps)\<leftarrow>ls. mset [place nd. Finished nd a \<leftarrow> ps])"
    "\<And>r. (\<Sum>x\<leftarrow>records_of r rs. record_usage x) = (\<Sum>(p0, p, ps)\<leftarrow>ls. total_usage (arena_task (px_arena p) r))"
    by blast
  have "ledger_holds from_str rs (ledger_open (wo_file W (ra_ledger args)))" using rs(1) life.hyps by simp
  from life_ledger [OF life.hyps(2,5) assms(2) this] obtain fl' new where new: "px_ledger p = Some fl'"
    "ledger_holds from_str (rs @ new) fl'" "mset (map record_place new) = mset [place nd. Finished nd a \<leftarrow> ps]"
    "\<And>r. total_usage (arena_task (px_arena p) r) = (\<Sum>x\<leftarrow>records_of r new. record_usage x)" by blast
  have "records_of r (rs @ new) = records_of r rs @ records_of r new" for r by (simp add: records_of_def)
  then show ?case
    using rs(2,3) new ledger_holds_read [OF new(2)]
    by (intro exI [of _ "rs @ new"]) (simp add: ledger_open_def)
qed

text \<open>
  C8. The report tells what all lives of the proxy spent, and no life knows more than its own: however
  often the program is started over its ledger and killed, whatever its other options, every life starts
  with every task unspent and unsealed; the ledger always reads back, to one record for each request that
  finished in some life; and the usage the report gives a task is the sum of what the live task of that
  root had used in each life.
\<close>

theorem report_sums_all_lives:
  assumes "lives E path ls file" "serde_records (en_record_str E) from_str"
  shows "(\<forall>(p0, p, ps) \<in> set ls. \<forall>r rates. spent (arena_task (px_arena p0) r) rates = 0 \<and>
      \<not> t_sealed (arena_task (px_arena p0) r)) \<and>
    (\<exists>rs. read_all from_str file = Inr rs \<and>
      mset (map record_place rs) = (\<Sum>(p0, p, ps)\<leftarrow>ls. mset [place nd. Finished nd a \<leftarrow> ps]) \<and>
      (\<forall>t \<in> set (tasks_from_records rs).
        total_usage t = (\<Sum>(p0, p, ps)\<leftarrow>ls. total_usage (arena_task (px_arena p) (t_root t)))))"
proof (rule conjI)
  show "\<forall>(p0, p, ps) \<in> set ls. \<forall>r rates. spent (arena_task (px_arena p0) r) rates = 0 \<and>
      \<not> t_sealed (arena_task (px_arena p0) r)"
    using assms(1) by (induction rule: lives.induct) (auto simp: unspent_start)
  from lives_ledger [OF assms] obtain rs where rs: "read_all from_str file = Inr rs"
    "mset (map record_place rs) = (\<Sum>(p0, p, ps)\<leftarrow>ls. mset [place nd. Finished nd a \<leftarrow> ps])"
    "\<And>r. (\<Sum>x\<leftarrow>records_of r rs. record_usage x) = (\<Sum>(p0, p, ps)\<leftarrow>ls. total_usage (arena_task (px_arena p) r))"
    by blast
  from rs(1,2) show "\<exists>rs. read_all from_str file = Inr rs \<and>
      mset (map record_place rs) = (\<Sum>(p0, p, ps)\<leftarrow>ls. mset [place nd. Finished nd a \<leftarrow> ps]) \<and>
      (\<forall>t \<in> set (tasks_from_records rs).
        total_usage t = (\<Sum>(p0, p, ps)\<leftarrow>ls. total_usage (arena_task (px_arena p) (t_root t))))"
    by (intro exI [of _ rs] conjI ballI) (simp_all add: reported_usage rs(3))
qed

text \<open>Two lives, in each of which one request finds no upstream.\<close>

definition plain_args :: run_args where
  "plain_args = five_args\<lparr>ra_max_per_task := None, ra_rates := None\<rparr>"

lemma plain_starts:
  "run_cmd (five_world\<lparr>wo_file := \<lambda>path. file\<rparr>) plain_args =
    Inr (with_ledger (ledger_open file) proxy_new, ''127.0.0.1:7171'')"
  by (simp add: run_cmd_def five_world_def five_args_def plain_args_def new_proxy_def check_upstream_def text_uri_def
      run_budget_def run_capture_def Let_def)

lemma plain_life:
  assumes "lives demo_env ''tailfin.jsonl'' ls file"
  shows "\<exists>p0 p nd. lives demo_env ''tailfin.jsonl''
    (ls @ [(p0, p, [Finished nd (Some gateway_error), Observing nd (demo_request ''/v1/messages'') None])]) (px_ledger p)"
proof -
  have path: "ra_ledger plain_args = ''tailfin.jsonl''" by (simp add: plain_args_def five_args_def)
  have "wo_file (five_world\<lparr>wo_file := \<lambda>path. file\<rparr>) ''tailfin.jsonl'' = file" by simp
  then show ?thesis
    using lives.life [OF assms plain_starts path _ ] finished_over [of "ledger_open file"] by blast
qed

theorem report_sums_all_lives_witness:
  "\<exists>ls file a b. lives demo_env ''tailfin.jsonl'' ls file \<and> length ls = 2 \<and>
    (\<exists>rs. read_all number_record file = Inr rs \<and> mset (map record_place rs) = {#place a, place b#} \<and>
      (\<forall>t \<in> set (tasks_from_records rs).
        total_usage t = (\<Sum>(p0, p, ps)\<leftarrow>ls. total_usage (arena_task (px_arena p) (t_root t)))))"
proof -
  obtain p0 p a where one: "lives demo_env ''tailfin.jsonl''
      [(p0, p, [Finished a (Some gateway_error), Observing a (demo_request ''/v1/messages'') None])] (px_ledger p)"
    using plain_life [OF lives.unborn] by auto
  from plain_life [OF one] obtain q0 q b where two: "lives demo_env ''tailfin.jsonl''
      [(p0, p, [Finished a (Some gateway_error), Observing a (demo_request ''/v1/messages'') None]),
       (q0, q, [Finished b (Some gateway_error), Observing b (demo_request ''/v1/messages'') None])] (px_ledger q)" by auto
  obtain rs where "read_all number_record (px_ledger q) = Inr rs" "mset (map record_place rs) = {#place a, place b#}"
    "\<forall>t \<in> set (tasks_from_records rs). total_usage t =
      total_usage (arena_task (px_arena p) (t_root t)) + total_usage (arena_task (px_arena q) (t_root t))"
    using report_sums_all_lives [OF two demo_env_serde] by auto
  then show ?thesis using two by (intro exI conjI) auto
qed

text \<open>A ledger of two earlier requests of a task, and a new request that is begun.\<close>

definition old_record :: ledger_record where
  "old_record = finish_record (declared_ref ''s'' None None) (usage_default\<lparr>u_input := 9\<rparr>) True 1 0 None"

definition old_ledger :: string where
  "old_ledger = (case append_all number_str [old_record, old_record] [] of Inr f \<Rightarrow> f | Inl e \<Rightarrow> [])"

lemma restart_forgets_spend_witness:
  "\<exists>p ledger'. run_cmd (five_world\<lparr>wo_file := (\<lambda>path. if path = ''rates.toml'' then Some ''card'' else Some old_ledger)\<rparr>)
      five_args = Inr (p, ''127.0.0.1:7171'') \<and>
    px_ledger p = Some ledger' \<and> read_all number_record (Some ledger') = Inr [old_record, old_record] \<and>
    (\<forall>t \<in> set (tasks_from_records [old_record, old_record]). t_root t = ''s'' \<longrightarrow>
      total_usage t = record_usage old_record + record_usage old_record \<and>
      spent (arena_task (px_arena p) ''s'') (rate_from_base 3 15) = 0)"
proof -
  let ?W = "five_world\<lparr>wo_file := (\<lambda>path. if path = ''rates.toml'' then Some ''card'' else Some old_ledger)\<rparr>"
  have "utf8_valid ''card''" by code_simp
  then obtain p where run: "run_cmd ?W five_args = Inr (p, ''127.0.0.1:7171'')"
    by (simp add: run_cmd_def five_world_def five_args_def new_proxy_def check_upstream_def text_uri_def run_budget_def
        rates_file_def load_rates_def Let_def)
  have json: "\<forall>x \<in> set [old_record, old_record]. json_line (en_record_str demo_env) number_record x"
    using number_serde by (simp add: serde_records_def old_record_def demo_env_def)
  then have ledger: "append_all (en_record_str demo_env) [old_record, old_record] [] = Inr old_ledger"
    using append_all_holds [OF json ledger_holds_Nil] by (auto simp: old_ledger_def demo_env_def)
  have "wo_file ?W (ra_ledger five_args) = Some old_ledger" by (simp add: five_args_def)
  note restart = restart_forgets_spend [OF run this ledger json relay_run.start demo_env_serde, of "rate_from_base 3 15"]
  then obtain fl new where new: "px_ledger p = Some fl" "read_all number_record (Some fl) = Inr ([old_record, old_record] @ new)"
    "mset (map record_place new) = {#}"
    "\<forall>t \<in> set (tasks_from_records ([old_record, old_record] @ new)).
        total_usage t = (\<Sum>x\<leftarrow>records_of (t_root t) [old_record, old_record]. record_usage x) +
          total_usage (arena_task (px_arena p) (t_root t))" by auto
  then have "new = []" by simp
  moreover have "total_usage (arena_task (px_arena p) ''s'') = 0"
    using run_cmd_state [OF run] by (simp add: arena_task_def arena_get_def hm_get_def total_usage_eq new_task_total)
  moreover have "lr_task_id old_record = ''s''" by (simp add: old_record_def declared_ref_def)
  ultimately show ?thesis using run new restart by (intro exI [of _ p] exI [of _ fl]) (auto simp: records_of_def)
qed

end
