(* ===== verification/Spec2Isabelle.thy ===== *)
theory Spec2Isabelle
  imports Wire_Reference Wire_Meter Ident_Session Tree_Voucher Ledger_Capture Ledger_Replay Ledger_Doctor Ledger_Stamp
    Proxy_Observe Proxy_Stream Cli_Lives
begin

text \<open>
  A verification library for tailfin, a reverse proxy for coding agents that records what every task
  costs and stops a task at a ceiling. Paths below are relative to \<open>src/crates\<close>.

  \<^bold>\<open>The program and its parts.\<close> An agent sends its requests to the proxy (\<open>tailfin-proxy\<close>). The proxy
  resolves each request to a node of a task (\<open>tailfin-ident\<close>: declared headers, or the session whose
  message prefixes match), begins it in the task's tree and asks the tree whether it may go on
  (\<open>tailfin-tree\<close>), answers it with a stop response or forwards it, streams the answer back through
  a tee, and meters a copy of the stream (\<open>tailfin-wire\<close>: server-sent events, the dialects' usage
  objects, prices). When the stream ends the request is finished in the tree and a record is appended
  to the ledger file (\<open>tailfin-ledger\<close>), from which the commands of \<open>tailfin\<close> print reports, stamps,
  blame tables and replays.

  \<^bold>\<open>Foundations.\<close>
  \<^item> \<open>Prelude\<close>: machine integers as words that wrap, with the saturating operations the code calls; the
    interface \<open>hash_map\<close> with its interpretation on insertion-ordered lists; sums of records.
  \<^item> \<open>Rust_Str\<close>, \<open>Rust_Text\<close>: strings and byte slices as lists of bytes in UTF-8, trimming, splitting,
    searching, slicing (which panics inside a character and then gives \<open>None\<close>), lossy decoding, decimal
    numbers.
  \<^item> \<open>Rust_Float\<close>: \<open>f32\<close> and \<open>f64\<close> as rationals with rounding to nearest even, infinities and NaN.

  \<^bold>\<open>Components, in the order of the code.\<close>
  \<^item> \<open>Wire_Usage\<close>, \<open>Wire_Sse\<close>, \<open>Wire_Meter\<close> model \<open>tailfin-wire/src/lib.rs\<close>: \<open>Usage\<close> and \<open>RateCard\<close>,
    \<open>SseDecoder\<close>, \<open>Dialect\<close> and \<open>Meter\<close>. Usages form a commutative monoid, the decoder is an instance of
    the interface \<open>incremental\<close> (what a decoder of chunks promises), and the lemmas say which frames
    decode, which usage each dialect reads and what a price is. \<open>Wire_Reference\<close> gives the decoder a declarative
    reading of the whole text (lines, blocks of lines, one frame for a block that says anything, and what the
    end of the stream adds) that it equals on every input.
  \<^item> \<open>Ident_Digest\<close>, \<open>Ident_Session\<close> model \<open>tailfin-ident/src/lib.rs\<close>: \<open>PrefixDigest\<close> over FNV-1a,
    \<open>from_headers\<close>, the scraping of Codex metadata, and \<open>SessionIndex::resolve\<close>.
  \<^item> \<open>Tree_Task\<close>, \<open>Tree_Walk\<close>, \<open>Tree_Admit\<close>, \<open>Tree_Tally\<close>, \<open>Tree_Voucher\<close>, \<open>Tree_Arena\<close> model \<open>tailfin-tree/src/lib.rs\<close>: the
    record \<open>task\<close> with its nodes, \<open>begin\<close> (here \<open>begin_request\<close>) and \<open>finish\<close> (\<open>finish_request\<close>), roll-ups,
    the two stack loops, the two gates as interpretations of the interface \<open>fuse\<close>, vouchers (what they bound is an
    interpretation of \<open>budget_gate\<close>, which \<open>fuse\<close> gives with one exception), and the map
    of live tasks. \<open>task_wf\<close> is the invariant every operation keeps; \<open>task_run\<close> folds a list of
    \<open>task_event\<close>s, so that statements range over all interleavings of requests of a task. \<open>Tree_Tally\<close> shows
    that what a node has used depends only on the requests that ended (\<open>ended_list\<close>), which is what the
    ledger records.
  \<^item> \<open>Ledger_Record\<close>, \<open>Ledger_Report\<close>, \<open>Ledger_Capture\<close>, \<open>Ledger_Replay\<close>, \<open>Ledger_Doctor\<close>, \<open>Ledger_Stamp\<close> model
    the files of \<open>tailfin-ledger/src\<close>: the ledger file as the bytes of its lines, the fold of records
    into tasks, the report table, captured request bodies and their pruning, replay over a batch
    transport with the interface \<open>btree_map\<close>, the configuration detector, stamps and blame.
  \<^item> \<open>Proxy_Http\<close> (\<open>hop.rs\<close>, \<open>identity.rs\<close>, \<open>rewrite_uri\<close>, \<open>Config::parse\<close>), \<open>Proxy_Ws\<close> (\<open>ws.rs\<close>), \<open>Proxy_Tee\<close>
    (\<open>tee.rs\<close>, \<open>spawn_meter\<close>), \<open>Proxy_Observe\<close> (\<open>observe.rs\<close>, which the crate does not declare as a module) and \<open>Proxy_Relay\<close> (the critical sections of \<open>proxy.rs\<close>).
  \<^item> \<open>Proxy_Run\<close> models \<open>relay_inner\<close> and \<open>relay_ws\<close> as the step relation \<open>relay_step\<close> on the shared state
    \<open>proxy\<close> and the list of requests in flight, each in a \<open>phase\<close> between two critical sections. The handler of a WebSocket and the task it spawns have step relations
    of their own (\<open>relay_ws_step\<close>, \<open>ws_task_step\<close>), which \<open>relay_step\<close> lifts. The loop of the metering
    task and the splice of a WebSocket are stepped one receive at a time: their phases carry the decoder and
    the meter so far, and a stream may go on for ever. A phase
    at the end of a request carries the answer the proxy made up itself, if it made one: the hello, a
    stop or a 502. A client that goes away drops the handler wherever it waits, and the handler's node is then
    \<open>Leaked\<close>, as \<open>begin\<close> has run and \<open>finish\<close> never will. Over the relation: \<open>Proxy_Progress\<close> (which
    requests stay open, what a WebSocket is charged), \<open>Proxy_Stream\<close> (what a stream leaves in the ledger),
    \<open>Proxy_Budget\<close> (what a run spends), \<open>Proxy_Answers\<close> (what a client is sent).
  \<^item> \<open>Proxy_Serve\<close> models \<open>serve.rs\<close> (the accept loop as a fold over what the listener and the shutdown
    signal yield), \<open>log.rs\<close> (the bounded channel that drops lines) and the bare binary's \<open>main.rs\<close>.
  \<^item> \<open>Cli\<close> and \<open>Cli_Main\<close> model \<open>tailfin/src/main.rs\<close>: what the options configure, what the commands
    print, the commands as functions of the files they find, and the exit code. \<open>Cli_Lives\<close> chains runs of
    the program over the ledger file each leaves to the next.

  \<^bold>\<open>What the theorems show.\<close>
  \<^item> The whole relay: in every interleaving the ledger file reads back to tasks that agree node by node
    with the live ones, and so in total, spend, fan-out and incomplete requests
    (\<open>ledger_agrees_with_live_tasks\<close>), the peak it tells is the true one once the requests of the task
    have finished (\<open>reported_peak_is_the_peak\<close>), the live count of a task is
    the number of its open requests, and requests that leave through an early return stay open. A stream
    that is received chunk by chunk between the steps of other requests is recorded with the usage of all its
    chunks (\<open>stream_recorded_as_received\<close>). Every request that finished has one
    record in the ledger and no other request has one (\<open>finishes_recorded_once\<close>), and no step breaks
    the invariant of a live task (\<open>relay_keeps_state_wf\<close>). The tee never disturbs the stream, and a
    stream whose chunks all reach the meter is metered as exactly its frames. An upstream that never ends its
    response head is read for 65537 bytes (\<open>handshake_stops_reading\<close>).
  \<^item> The fuse, from the flag to the spend: with \<open>--max-per-task\<close> a run of the relay spends at most the
    ceiling and the cost of the requests that were in flight at once (\<open>max_per_task_bounds_spend\<close>),
    until the program is started again over the same ledger: no life of the proxy knows what an earlier one
    spent, and the report is the sum of all (\<open>report_sums_all_lives\<close>); a task is given the turn made to
    look complete at most once, whoever asks (\<open>one_synthetic_turn_per_task\<close>). Sealed tasks deny for
    ever, usage is conserved, vouchers stay within the parent's (under a ceiling that \<open>f64\<close> holds exactly), and an agent that keeps to its node spends its
    voucher and the requests it had in flight (\<open>voucher_bounds_its_agent\<close>); and where this stops: a request is
    let through while anything is left, a voucher stops its own node and no other
    (\<open>admission_denies_exactly\<close>), unseen parents are minted the whole ceiling, WebSockets are never asked.
  \<^item> Decoding: the decoder of events equals its reference on all bytes (\<open>sse_decoder_is_its_reading\<close>),
    server-sent events and WebSocket frames decode exactly once however they are cut, the
    synthetic stop decodes to a complete turn, usage is read as each dialect gives it.
  \<^item> Identity: which session a request joins, that its continuation joins the same one when the first request had
    messages enough (one is not), that roots stay distinct, and where the digest stops growing.
  \<^item> Ledger: round trips of records and captures, collisions and empty ids included, what pruning keeps, which rows a report has, what the rows
    of a replay count (\<open>replay_counts_every_submission\<close>), when a stamp is given, and the failures: torn lines, panicking slices, collapsed scores.
  Every property with a hypothesis is followed by a theorem that applies it at a concrete input.

  \<^bold>\<open>Interfaces.\<close> Six locales: \<open>hash_map\<close>, \<open>incremental\<close> (interpreted by the decoder of events and by the
  scan of WebSocket frames), \<open>budget_gate\<close> (a gate with a cap and a number of exceptions; the voucher of a
  node), \<open>fuse\<close> (its case of one exception; the root gate and the node gate), \<open>body_wrapper\<close> (a body around a
  body; the tee and the finish observer), \<open>btree_map\<close> (by text and by row
  keys). Their lemmas are proved once and used through the interpretations.

  \<^bold>\<open>Parameters.\<close> Code that is not in the repository is an argument. \<open>serde_json\<close> is a record of the
  accessors used (\<open>Wire_Meter\<close>) and a pair of encoders and decoders for the program's own records, with
  the hypothesis that a record is written as one line that reads back; the \<open>http\<close> crate's header map
  and URI are records of operations with their documented laws (\<open>header_laws\<close>); sockets, TLS, the
  clock and the answers of the channel are inputs of the steps. Each hypothesis has a concrete instance.

  \<^bold>\<open>Bounds.\<close> Counters and amounts keep their widths. Plain additions wrap, as in the release build;
  where a statement about amounts needs it, it names the bound (no sum reaches \<open>2^64\<close>, fewer than \<open>2^32\<close>
  requests). Every loop over data at hand ends and has its measure here; the one counter is that of the
  test for valid UTF-8, which starts at the length of the text and drops a byte or more each time. The loops
  that wait for others, which may go on for ever (the relay, the metering task, the splice inside the relay),
  are relations.

  \<^bold>\<open>Not modelled.\<close>
  \<^item> Signals, threads and sockets: what they yield is an input of the steps and of the accept loop.
  \<^item> Argument parsing by clap, \<open>git notes\<close>, and what \<open>tailfin\<close> writes to standard error.
  \<^item> System calls that fail, other than reading what is not UTF-8 or not a record, opening the ledger
    and binding the listener.
  \<^item> The order in which one task's lock is granted: a step may happen whenever its phase allows it.
\<close>

end
